(* ===== verification/Prelude.thy ===== *)
theory Prelude
  imports Main "HOL-Library.Word" "HOL-Library.Code_Target_Nat"
begin

text \<open>
  Shared vocabulary of the development: the integer types of the Rust sources, build profiles,
  panics as values, the panic monad with its inversion rules, Rust's overflow rules on
  \<open>usize\<close>, array indexing, and the generic facts on lists and words the components use.

  A \<open>usize\<close> (64 bit on the only target, aarch64) is a natural number below \<open>2 ^ 64\<close>; every
  arithmetic operation that can leave this range goes through \<open>usize_add\<close>, \<open>usize_sub\<close> or
  \<open>usize_mul\<close>, which panic in the dev profile (the profile of \<open>cargo run\<close>) and wrap around in
  the release profile. A \<open>u64\<close>, \<open>u32\<close> or \<open>u8\<close> that the code treats as a bit pattern is a word.
\<close>

unbundle bit_operations_syntax

section \<open>Types\<close>

type_synonym u8 = "8 word"
type_synonym u32 = "32 word"
type_synonym u64 = "64 word"
type_synonym usize = nat

text \<open>The two cargo profiles: overflow checks and \<open>debug_assert!\<close> are on in \<open>Dev\<close> only.\<close>

datatype profile = Dev | Release

text \<open>
  The ways the kernel code panics. The text of an assertion is kept, without the numbers it
  interpolates. \<open>Fault\<close> is a load from the given address that the hardware refuses, \<open>Trapped\<close> an access
  to a system register that it does.
\<close>

datatype panic =
    ArithmeticOverflow
  | DivisionByZero
  | IndexOutOfBounds
  | AssertFailed string
  | ExpectFailed string
  | NotImplemented string
  | Fault usize
  | Trapped

type_synonym 'a res = "panic + 'a"

section \<open>Proof collections\<close>

named_theorems returns_iff \<open>when a monadic step returns normally\<close>
named_theorems usize_simps \<open>usize operations that stay in range\<close>

section \<open>The panic monad\<close>

definition bnd :: "'e + 'a \<Rightarrow> ('a \<Rightarrow> 'e + 'b) \<Rightarrow> 'e + 'b" where
  "bnd m f = (case m of Inl e \<Rightarrow> Inl e | Inr x \<Rightarrow> f x)"

lemma bnd_Inl [simp]: "bnd (Inl e) f = Inl e"
  by (simp add: bnd_def)

lemma bnd_Inr [simp]: "bnd (Inr x) f = f x"
  by (simp add: bnd_def)

lemma bnd_Inr_right [simp]: "bnd m Inr = m"
  by (cases m) auto

lemma bnd_assoc: "bnd (bnd m f) g = bnd m (\<lambda>x. bnd (f x) g)"
  by (cases m) auto

lemma bnd_returns_iff [returns_iff]: "bnd m f = Inr y \<longleftrightarrow> (\<exists>x. m = Inr x \<and> f x = Inr y)"
  by (cases m) auto

lemma bnd_panics_iff: "bnd m f = Inl e \<longleftrightarrow> m = Inl e \<or> (\<exists>x. m = Inr x \<and> f x = Inl e)"
  by (cases m) auto

lemma bnd_cong [fundef_cong]:
  "m = m' \<Longrightarrow> (\<And>x. m' = Inr x \<Longrightarrow> f x = f' x) \<Longrightarrow> bnd m f = bnd m' f'"
  by (cases m') auto

text \<open>A \<open>for\<close> loop over the items \<open>xs\<close> with the loop state threaded through.\<close>

primrec foldM :: "('i \<Rightarrow> 's \<Rightarrow> 'e + 's) \<Rightarrow> 'i list \<Rightarrow> 's \<Rightarrow> 'e + 's" where
  "foldM f [] s = Inr s"
| "foldM f (x # xs) s = bnd (f x s) (foldM f xs)"

lemma foldM_append: "foldM f (xs @ ys) s = bnd (foldM f xs s) (foldM f ys)"
  by (induction xs arbitrary: s) (auto simp: bnd_assoc intro: bnd_cong)

lemma foldM_single [simp]: "foldM f [x] = f x"
  by (rule ext) (simp add: bnd_def split: sum.split)

lemma foldM_upt_Suc:
  "a \<le> b \<Longrightarrow> foldM f [a..<Suc b] s = bnd (foldM f [a..<b] s) (f b)"
  by (simp add: foldM_append)

lemma foldM_upt_rec:
  "foldM f [a..<b] s = (if a < b then bnd (f a s) (foldM f [Suc a..<b]) else Inr s)"
  by (simp add: upt_rec)

lemma foldM_upt_split:
  "a \<le> b \<Longrightarrow> b \<le> c \<Longrightarrow> foldM f [a..<c] s = bnd (foldM f [a..<b] s) (foldM f [b..<c])"
  by (metis foldM_append le_add_diff_inverse upt_add_eq_append)

lemma foldM_map: "foldM f (map g xs) s = foldM (\<lambda>x. f (g x)) xs s"
  by (induction xs arbitrary: s) (auto intro: bnd_cong)

lemma foldM_cong: "(\<And>x s. x \<in> set xs \<Longrightarrow> f x s = g x s) \<Longrightarrow> foldM f xs s = foldM g xs s"
  by (induction xs arbitrary: s) (auto intro: bnd_cong)

text \<open>An invariant of the loop body is an invariant of the loop.\<close>

lemma foldM_invariant:
  assumes "foldM f xs s = Inr t" and "P s"
    and "\<And>x u v. x \<in> set xs \<Longrightarrow> P u \<Longrightarrow> f x u = Inr v \<Longrightarrow> P v"
  shows "P t"
  using assms by (induction xs arbitrary: s) (auto simp: returns_iff)

section \<open>Assertions\<close>

definition assert :: "bool \<Rightarrow> string \<Rightarrow> unit res" where
  "assert c msg = (if c then Inr () else Inl (AssertFailed msg))"

definition debug_assert :: "profile \<Rightarrow> bool \<Rightarrow> string \<Rightarrow> unit res" where
  "debug_assert b c msg = (if b = Dev then assert c msg else Inr ())"

definition expect :: "'a option \<Rightarrow> string \<Rightarrow> 'a res" where
  "expect m msg = (case m of None \<Rightarrow> Inl (ExpectFailed msg) | Some x \<Rightarrow> Inr x)"

lemma assert_returns_iff [returns_iff]: "assert c msg = Inr u \<longleftrightarrow> c"
  by (simp add: assert_def)

lemma debug_assert_returns_iff [returns_iff]: "debug_assert b c msg = Inr u \<longleftrightarrow> (b = Dev \<longrightarrow> c)"
  by (simp add: debug_assert_def assert_def)

lemma assert_simps [simp]: "assert True msg = Inr ()" "assert False msg = Inl (AssertFailed msg)"
  by (simp_all add: assert_def)

lemma debug_assert_simps [simp]:
  "debug_assert b True msg = Inr ()" "debug_assert Release c msg = Inr ()"
  "debug_assert Dev False msg = Inl (AssertFailed msg)"
  by (simp_all add: debug_assert_def)

lemma expect_returns_iff [returns_iff]: "expect m msg = Inr x \<longleftrightarrow> m = Some x"
  by (cases m) (auto simp: expect_def)

lemma expect_simps [simp]: "expect (Some x) msg = Inr x" "expect None msg = Inl (ExpectFailed msg)"
  by (simp_all add: expect_def)

section \<open>Arithmetic on usize\<close>

definition usize_wrap :: "profile \<Rightarrow> nat \<Rightarrow> usize res" where
  "usize_wrap b n = (if n < 2 ^ 64 then Inr n
     else if b = Dev then Inl ArithmeticOverflow else Inr (n mod 2 ^ 64))"

definition usize_add :: "profile \<Rightarrow> usize \<Rightarrow> usize \<Rightarrow> usize res" where
  "usize_add b x y = usize_wrap b (x + y)"

definition usize_mul :: "profile \<Rightarrow> usize \<Rightarrow> usize \<Rightarrow> usize res" where
  "usize_mul b x y = usize_wrap b (x * y)"

definition usize_sub :: "profile \<Rightarrow> usize \<Rightarrow> usize \<Rightarrow> usize res" where
  "usize_sub b x y = (if y \<le> x then Inr (x - y)
     else if b = Dev then Inl ArithmeticOverflow else Inr ((x + 2 ^ 64 - y) mod 2 ^ 64))"

definition div_ceil :: "usize \<Rightarrow> usize \<Rightarrow> usize" where
  "div_ceil x y = (if x mod y = 0 then x div y else x div y + 1)"

lemma usize_add_in_range [usize_simps]: "x + y < 2 ^ 64 \<Longrightarrow> usize_add b x y = Inr (x + y)"
  by (simp add: usize_add_def usize_wrap_def)

lemma usize_mul_in_range [usize_simps]: "x * y < 2 ^ 64 \<Longrightarrow> usize_mul b x y = Inr (x * y)"
  by (simp add: usize_mul_def usize_wrap_def)

lemma usize_sub_in_range [usize_simps]: "y \<le> x \<Longrightarrow> usize_sub b x y = Inr (x - y)"
  by (simp add: usize_sub_def)

lemma usize_add_Dev: "usize_add Dev x y = Inr z \<longleftrightarrow> x + y < 2 ^ 64 \<and> z = x + y"
  by (auto simp: usize_add_def usize_wrap_def)

lemma usize_mul_Dev: "usize_mul Dev x y = Inr z \<longleftrightarrow> x * y < 2 ^ 64 \<and> z = x * y"
  by (auto simp: usize_mul_def usize_wrap_def)

lemma usize_sub_Dev: "usize_sub Dev x y = Inr z \<longleftrightarrow> y \<le> x \<and> z = x - y"
  by (auto simp: usize_sub_def)

lemma usize_add_bound: "usize_add b x y = Inr z \<Longrightarrow> z < 2 ^ 64"
  by (auto simp: usize_add_def usize_wrap_def split: if_splits)

text \<open>The same on \<open>u64\<close> values.\<close>

definition u64_add :: "profile \<Rightarrow> u64 \<Rightarrow> u64 \<Rightarrow> u64 res" where
  "u64_add b x y = bnd (usize_add b (unat x) (unat y)) (\<lambda>n. Inr (of_nat n))"

definition u64_mul :: "profile \<Rightarrow> u64 \<Rightarrow> u64 \<Rightarrow> u64 res" where
  "u64_mul b x y = bnd (usize_mul b (unat x) (unat y)) (\<lambda>n. Inr (of_nat n))"

lemma u64_add_in_range [usize_simps]: "unat x + unat y < 2 ^ 64 \<Longrightarrow> u64_add b x y = Inr (x + y)"
  by (simp add: u64_add_def usize_simps)

lemma u64_mul_in_range [usize_simps]: "unat x * unat y < 2 ^ 64 \<Longrightarrow> u64_mul b x y = Inr (x * y)"
  by (simp add: u64_mul_def usize_simps)

lemma div_ceil_le: "0 < y \<Longrightarrow> x \<le> div_ceil x y * y"
  by (auto simp: div_ceil_def)
    (metis add.commute add_le_cancel_left div_mult_mod_eq less_or_eq_imp_le mod_less_divisor
      mult.commute)

lemma mod_eq_0E:
  fixes a b :: nat
  assumes "a mod b = 0" obtains q where "a = b * q"
  using assms by (auto simp: mod_eq_0_iff_dvd elim: dvdE)

section \<open>Indexing\<close>

definition idx_get :: "'a list \<Rightarrow> usize \<Rightarrow> 'a res" where
  "idx_get xs i = (if i < length xs then Inr (xs ! i) else Inl IndexOutOfBounds)"

definition idx_set :: "'a list \<Rightarrow> usize \<Rightarrow> 'a \<Rightarrow> 'a list res" where
  "idx_set xs i v = (if i < length xs then Inr (xs[i := v]) else Inl IndexOutOfBounds)"

lemma idx_get_returns_iff [returns_iff]: "idx_get xs i = Inr v \<longleftrightarrow> i < length xs \<and> v = xs ! i"
  by (auto simp: idx_get_def)

lemma idx_set_returns_iff [returns_iff]:
  "idx_set xs i v = Inr ys \<longleftrightarrow> i < length xs \<and> ys = xs[i := v]"
  by (auto simp: idx_set_def)

lemma idx_in_range [simp]:
  "i < length xs \<Longrightarrow> idx_get xs i = Inr (xs ! i)"
  "i < length xs \<Longrightarrow> idx_set xs i v = Inr (xs[i := v])"
  by (simp_all add: idx_get_def idx_set_def)

section \<open>Bits of words\<close>

text \<open>\<open>1 << j\<close> on a machine word.\<close>

definition shl1 :: "nat \<Rightarrow> 'a::len word" where
  "shl1 j = push_bit j 1"

lemma bit_shl1: "bit (shl1 j :: 'a::len word) i \<longleftrightarrow> i = j \<and> j < LENGTH('a)"
  by (auto simp: shl1_def bit_push_bit_iff bit_1_iff simp del: push_bit_of_1)

lemma word_bits_eq_iff: "x = y \<longleftrightarrow> (\<forall>n < LENGTH('a). bit x n = bit y n)"
  for x y :: "'a::len word"
  by (auto intro: bit_word_eqI)

text \<open>The test \<open>w & (1 << j) == 0\<close> of the sources reads bit \<open>j\<close>.\<close>

lemma and_shl1_eq_0_iff:
  fixes w :: "'a::len word"
  shows "j < LENGTH('a) \<Longrightarrow> (w AND shl1 j = 0) \<longleftrightarrow> \<not> bit w j"
  by (auto simp: word_bits_eq_iff bit_and_iff bit_shl1)

lemma bit_or_shl1:
  fixes w :: "'a::len word"
  shows "bit (w OR shl1 j) i \<longleftrightarrow> bit w i \<or> i = j \<and> j < LENGTH('a)"
  by (auto simp: bit_or_iff bit_shl1)

lemma bit_and_not_shl1:
  fixes w :: "'a::len word"
  shows "bit (w AND NOT (shl1 j)) i \<longleftrightarrow> bit w i \<and> i \<noteq> j"
  by (auto simp: bit_and_iff bit_not_iff bit_shl1 dest: bit_imp_le_length)

lemma word_eq_0_iff_bits: "w = 0 \<longleftrightarrow> (\<forall>j < LENGTH('a). \<not> bit w j)" for w :: "'a::len word"
  by (auto simp: word_bits_eq_iff)

lemma word_eq_max_iff_bits: "w = - 1 \<longleftrightarrow> (\<forall>j < LENGTH('a). bit w j)" for w :: "'a::len word"
  by (auto simp: word_bits_eq_iff)

lemma unat_bound: "unat w < 2 ^ LENGTH('a)" for w :: "'a::len word"
  by (rule unsigned_less)

lemma max_u64: "(0xffffffffffffffff :: u64) = - 1"
  by simp

end
