(* ===== verification/Page_Bitmap.thy ===== *)
theory Page_Bitmap
  imports Prelude
begin

text \<open>
  The allocation bitmap: \<open>Bitmap<SIZE>\<close> and \<open>BitmapIterator\<close> of
  \<open>src/kernel/src/page_alloc.rs\<close>, one bit per page, 64 pages per \<open>u64\<close> cell, a set bit marking
  an allocated page. \<open>SIZE\<close> is the length of the cell list, so the results hold for every size.

  The page indices the loops compute stay below \<open>64 * SIZE\<close> wherever a cell was indexed first;
  the sums whose operands come from the caller go through \<open>usize_add\<close>.
\<close>

section \<open>The bitmap\<close>

record Bitmap =
  bitmap :: "u64 list"

definition bitmap_new :: "nat \<Rightarrow> Bitmap" where
  "bitmap_new SIZE = \<lparr>bitmap = replicate SIZE 0\<rparr>"

subsection \<open>Searching for a hole\<close>

text \<open>
  The inner loop of \<open>find_hole\<close>, over the bits \<open>js\<close> of cell \<open>i\<close>. The loop state is
  \<open>(page_num, hole_count)\<close>; \<open>Inl p\<close> is the early \<open>return Some(p)\<close>.
\<close>

primrec find_hole_bits ::
  "usize \<Rightarrow> usize \<Rightarrow> u64 \<Rightarrow> usize list \<Rightarrow> usize \<times> usize \<Rightarrow> usize + usize \<times> usize" where
  "find_hole_bits page_count i w [] s = Inr s"
| "find_hole_bits page_count i w (j # js) s = (case s of (page_num, hole_count) \<Rightarrow>
     if w AND shl1 j = 0 then
       let page_num = (if hole_count = 0 then i * 64 + j else page_num);
           hole_count = hole_count + 1
       in if hole_count = page_count then Inl page_num
          else find_hole_bits page_count i w js (page_num, hole_count)
     else find_hole_bits page_count i w js (page_num + hole_count, 0))"

text \<open>The outer loop, over the cells that remain; \<open>i\<close> is the index of the first of them.\<close>

primrec find_hole_cells ::
  "usize \<Rightarrow> usize \<Rightarrow> u64 list \<Rightarrow> usize \<times> usize \<Rightarrow> usize + usize \<times> usize" where
  "find_hole_cells page_count i [] s = Inr s"
| "find_hole_cells page_count i (w # ws) s =
     bnd (find_hole_bits page_count i w [0..<64] s) (find_hole_cells page_count (i + 1) ws)"

definition bitmap_find_hole :: "Bitmap \<Rightarrow> usize \<Rightarrow> usize option" where
  "bitmap_find_hole self page_count =
     (case find_hole_cells page_count 0 (bitmap self) (0, 0) of
        Inl page_num \<Rightarrow> Some page_num | Inr _ \<Rightarrow> None)"

subsection \<open>Marking and freeing a range\<close>

text \<open>
  \<open>mark_allocated\<close> and \<open>free\<close> run the same three loops over the range: single pages up to the
  next cell boundary, whole cells, single pages of the last cell. They differ in what they do
  with a page and with a cell.
\<close>

function walk_head ::
  "(usize \<Rightarrow> 's \<Rightarrow> 's res) \<Rightarrow> 's \<Rightarrow> usize \<Rightarrow> usize \<Rightarrow> ('s \<times> usize \<times> usize) res" where
  "walk_head page_op s page_num page_count =
     (if page_num mod 64 \<noteq> 0 \<and> page_count > 0
      then bnd (page_op page_num s) (\<lambda>s. walk_head page_op s (page_num + 1) (page_count - 1))
      else Inr (s, page_num, page_count))"
  by pat_completeness auto
termination by (relation "measure (\<lambda>(_, _, _, page_count). page_count)") auto

function walk_cells ::
  "(usize \<Rightarrow> 's \<Rightarrow> 's res) \<Rightarrow> 's \<Rightarrow> usize \<Rightarrow> usize \<Rightarrow> ('s \<times> usize \<times> usize) res" where
  "walk_cells cell_op s page_num page_count =
     (if page_count \<ge> 64
      then bnd (cell_op page_num s) (\<lambda>s. walk_cells cell_op s (page_num + 64) (page_count - 64))
      else Inr (s, page_num, page_count))"
  by pat_completeness auto
termination by (relation "measure (\<lambda>(_, _, _, page_count). page_count)") auto

function walk_tail ::
  "(usize \<Rightarrow> 's \<Rightarrow> 's res) \<Rightarrow> 's \<Rightarrow> usize \<Rightarrow> usize \<Rightarrow> 's res" where
  "walk_tail page_op s page_num page_count =
     (if page_count > 0
      then bnd (page_op page_num s) (\<lambda>s. walk_tail page_op s (page_num + 1) (page_count - 1))
      else Inr s)"
  by pat_completeness auto
termination by (relation "measure (\<lambda>(_, _, _, page_count). page_count)") auto

declare walk_head.simps [simp del] walk_cells.simps [simp del] walk_tail.simps [simp del]

definition walk_range ::
  "(usize \<Rightarrow> 's \<Rightarrow> 's res) \<Rightarrow> (usize \<Rightarrow> 's \<Rightarrow> 's res) \<Rightarrow> 's \<Rightarrow> usize \<Rightarrow> usize \<Rightarrow> 's res" where
  "walk_range page_op cell_op s page_num page_count =
     bnd (walk_head page_op s page_num page_count) (\<lambda>(s, page_num, page_count).
     bnd (walk_cells cell_op s page_num page_count) (\<lambda>(s, page_num, page_count).
     walk_tail page_op s page_num page_count))"

definition mark_page :: "profile \<Rightarrow> usize \<Rightarrow> Bitmap \<Rightarrow> Bitmap res" where
  "mark_page b page_num self =
     bnd (idx_get (bitmap self) (page_num div 64)) (\<lambda>w.
     bnd (debug_assert b (w AND shl1 (page_num mod 64) = 0) ''double alloc'') (\<lambda>_.
     Inr (self\<lparr>bitmap := (bitmap self)[page_num div 64 := w OR shl1 (page_num mod 64)]\<rparr>)))"

definition mark_cell :: "profile \<Rightarrow> usize \<Rightarrow> Bitmap \<Rightarrow> Bitmap res" where
  "mark_cell b page_num self =
     bnd (idx_get (bitmap self) (page_num div 64)) (\<lambda>w.
     bnd (debug_assert b (w = 0) ''double alloc'') (\<lambda>_.
     Inr (self\<lparr>bitmap := (bitmap self)[page_num div 64 := 0xffffffffffffffff]\<rparr>)))"

definition bitmap_mark_allocated :: "profile \<Rightarrow> Bitmap \<Rightarrow> usize \<Rightarrow> usize \<Rightarrow> Bitmap res" where
  "bitmap_mark_allocated b = walk_range (mark_page b) (mark_cell b)"

definition free_page :: "profile \<Rightarrow> usize \<Rightarrow> Bitmap \<Rightarrow> Bitmap res" where
  "free_page b page_num self =
     bnd (idx_get (bitmap self) (page_num div 64)) (\<lambda>w.
     bnd (debug_assert b (w AND shl1 (page_num mod 64) \<noteq> 0) ''double free'') (\<lambda>_.
     Inr (self\<lparr>bitmap := (bitmap self)[page_num div 64 := w AND NOT (shl1 (page_num mod 64))]\<rparr>)))"

definition free_cell :: "profile \<Rightarrow> usize \<Rightarrow> Bitmap \<Rightarrow> Bitmap res" where
  "free_cell b page_num self =
     bnd (idx_get (bitmap self) (page_num div 64)) (\<lambda>w.
     bnd (debug_assert b (w = 0xffffffffffffffff) ''double free'') (\<lambda>_.
     Inr (self\<lparr>bitmap := (bitmap self)[page_num div 64 := 0]\<rparr>)))"

definition bitmap_free :: "profile \<Rightarrow> Bitmap \<Rightarrow> usize \<Rightarrow> usize \<Rightarrow> Bitmap res" where
  "bitmap_free b = walk_range (free_page b) (free_cell b)"

definition bitmap_alloc_pages :: "profile \<Rightarrow> Bitmap \<Rightarrow> usize \<Rightarrow> (usize option \<times> Bitmap) res" where
  "bitmap_alloc_pages b self page_count =
     (case bitmap_find_hole self page_count of
        Some page_num \<Rightarrow>
          bnd (bitmap_mark_allocated b self page_num page_count) (\<lambda>self. Inr (Some page_num, self))
      | None \<Rightarrow> Inr (None, self))"

subsection \<open>Capacity, iteration, single bits\<close>

definition bit_capacity :: "Bitmap \<Rightarrow> usize" where
  "bit_capacity self = length (bitmap self) * 64"

record BitmapIterator =
  it_bitmap :: "u64 list"
  it_idx :: usize

definition bitmap_iter :: "Bitmap \<Rightarrow> BitmapIterator" where
  "bitmap_iter self = \<lparr>it_bitmap = bitmap self, it_idx = 0\<rparr>"

definition iterator_next :: "BitmapIterator \<Rightarrow> bool option \<times> BitmapIterator" where
  "iterator_next self =
     (if it_idx self \<ge> length (it_bitmap self) * 64 then (None, self)
      else let b = (it_bitmap self ! (it_idx self div 64) AND shl1 (it_idx self mod 64) \<noteq> 0)
           in (Some b, self\<lparr>it_idx := it_idx self + 1\<rparr>))"

definition bitmap_get :: "Bitmap \<Rightarrow> usize \<Rightarrow> bool res" where
  "bitmap_get self i =
     bnd (idx_get (bitmap self) (i div 64)) (\<lambda>w. Inr (w AND shl1 (i mod 64) \<noteq> 0))"

definition bitmap_set :: "Bitmap \<Rightarrow> usize \<Rightarrow> bool \<Rightarrow> Bitmap res" where
  "bitmap_set self i value =
     bnd (idx_get (bitmap self) (i div 64)) (\<lambda>w.
     Inr (self\<lparr>bitmap := (bitmap self)[i div 64 :=
       (if value then w OR shl1 (i mod 64) else w AND NOT (shl1 (i mod 64)))]\<rparr>))"

subsection \<open>Moving and clearing ranges\<close>

definition move_bit_range_forward ::
  "profile \<Rightarrow> Bitmap \<Rightarrow> usize \<Rightarrow> usize \<Rightarrow> usize \<Rightarrow> Bitmap res" where
  "move_bit_range_forward b self src_idx dst_idx count =
     (if src_idx = dst_idx then Inr self
      else bnd (assert (src_idx \<le> dst_idx) ''src_idx > dst_idx'') (\<lambda>_.
        foldM (\<lambda>i self.
          bnd (usize_add b dst_idx i) (\<lambda>d.
          bnd (usize_add b src_idx i) (\<lambda>s.
          bnd (bitmap_get self s) (\<lambda>v. bitmap_set self d v)))) (rev [0..<count]) self))"

definition and_cell :: "u64 \<Rightarrow> usize \<Rightarrow> Bitmap \<Rightarrow> Bitmap res" where
  "and_cell m cell self =
     bnd (idx_get (bitmap self) cell) (\<lambda>w.
     Inr (self\<lparr>bitmap := (bitmap self)[cell := w AND m]\<rparr>))"

definition zero_cell :: "usize \<Rightarrow> Bitmap \<Rightarrow> Bitmap res" where
  "zero_cell cell self =
     bnd (idx_set (bitmap self) cell 0) (\<lambda>ws. Inr (self\<lparr>bitmap := ws\<rparr>))"

definition zero_bit_range :: "profile \<Rightarrow> Bitmap \<Rightarrow> usize \<Rightarrow> usize \<Rightarrow> Bitmap res" where
  "zero_bit_range b self i count =
     (if count = 0 then Inr self
      else bnd (usize_add b i count) (\<lambda>e.
        let prefix_mask = shl1 (i mod 64) - 1;
            suffix_mask = NOT (shl1 (e mod 64) - 1)
        in if i div 64 = e div 64 then and_cell (prefix_mask OR suffix_mask) (i div 64) self
        else
          bnd (if i mod 64 \<noteq> 0 then and_cell prefix_mask (i div 64) self else Inr self) (\<lambda>self.
          bnd (foldM zero_cell [div_ceil i 64..<e div 64] self) (\<lambda>self.
          if e mod 64 \<noteq> 0 then and_cell suffix_mask (e div 64) self else Inr self))))"


section \<open>Abstraction: the set of allocated pages\<close>

definition page_used :: "Bitmap \<Rightarrow> nat \<Rightarrow> bool" where
  "page_used bm i \<longleftrightarrow> bit (bitmap bm ! (i div 64)) (i mod 64)"

definition used :: "Bitmap \<Rightarrow> nat set" where
  "used bm = {i. i < bit_capacity bm \<and> page_used bm i}"

definition put_bit :: "Bitmap \<Rightarrow> nat \<Rightarrow> bool \<Rightarrow> Bitmap" where
  "put_bit bm i v = bm\<lparr>bitmap := (bitmap bm)[i div 64 :=
     (if v then bitmap bm ! (i div 64) OR shl1 (i mod 64)
      else bitmap bm ! (i div 64) AND NOT (shl1 (i mod 64)))]\<rparr>"

primrec put_range :: "Bitmap \<Rightarrow> nat \<Rightarrow> nat \<Rightarrow> bool \<Rightarrow> Bitmap" where
  "put_range bm p 0 v = bm"
| "put_range bm p (Suc n) v = put_bit (put_range bm p n v) (p + n) v"

lemma cell_index_iff: "i div 64 < length (bitmap bm) \<longleftrightarrow> i < bit_capacity bm"
  by (auto simp: bit_capacity_def less_mult_imp_div_less div_less_iff_less_mult)

lemma used_subset: "used bm \<subseteq> {..<bit_capacity bm}"
  by (auto simp: used_def)

lemma in_used_iff: "i < bit_capacity bm \<Longrightarrow> i \<in> used bm \<longleftrightarrow> page_used bm i"
  by (simp add: used_def)

lemma capacity_put_bit [simp]: "bit_capacity (put_bit bm i v) = bit_capacity bm"
  by (simp add: put_bit_def bit_capacity_def)

lemma bit_capacity_upd [simp]: "bit_capacity (bm\<lparr>bitmap := (bitmap bm)[c := w]\<rparr>) = bit_capacity bm"
  by (simp add: bit_capacity_def)

lemma page_used_put_bit:
  assumes "i < bit_capacity bm"
  shows "page_used (put_bit bm i v) k = (if k = i then v else page_used bm k)"
proof -
  have "k = i \<longleftrightarrow> k div 64 = i div 64 \<and> k mod 64 = i mod 64"
    by (metis div_mult_mod_eq)
  with assms show ?thesis
    by (auto simp: page_used_def put_bit_def nth_list_update bit_or_shl1 bit_and_not_shl1
        cell_index_iff)
qed

lemma used_put_bit:
  "i < bit_capacity bm \<Longrightarrow> used (put_bit bm i v) = (if v then insert i (used bm) else used bm - {i})"
  by (auto simp: used_def page_used_put_bit split: if_splits)

lemma capacity_put_range [simp]: "bit_capacity (put_range bm p n v) = bit_capacity bm"
  by (induction n) auto

lemma used_put_range:
  "n = 0 \<or> p + n \<le> bit_capacity bm \<Longrightarrow>
   used (put_range bm p n v) = (if v then used bm \<union> {p..<p + n} else used bm - {p..<p + n})"
  by (induction n) (auto simp: used_put_bit)

text \<open>A bitmap is determined by its capacity and its allocated pages.\<close>

lemma Bitmap_eqI:
  assumes "bit_capacity x = bit_capacity y" and "used x = used y"
  shows "x = (y :: Bitmap)"
proof -
  have len: "length (bitmap x) = length (bitmap y)"
    using assms(1) by (simp add: bit_capacity_def)
  have "bitmap x ! c = bitmap y ! c" if "c < length (bitmap x)" for c
  proof (rule bit_word_eqI)
    fix j :: nat assume "j < LENGTH(64)"
    then have j: "j < 64" by simp
    with that have "c * 64 + j < bit_capacity x" by (simp add: bit_capacity_def)
    with assms have "page_used x (c * 64 + j) = page_used y (c * 64 + j)"
      by (auto simp: used_def)
    with j show "bit (bitmap x ! c) j = bit (bitmap y ! c) j"
      by (simp add: page_used_def)
  qed
  with len have "bitmap x = bitmap y" by (simp add: list_eq_iff_nth_eq)
  then show ?thesis by (cases x; cases y) simp
qed

section \<open>Single pages\<close>

lemma bitmap_get_eq: "i < bit_capacity bm \<Longrightarrow> bitmap_get bm i = Inr (i \<in> used bm)"
  by (simp add: bitmap_get_def in_used_iff cell_index_iff page_used_def and_shl1_eq_0_iff)

lemma bitmap_set_eq: "i < bit_capacity bm \<Longrightarrow> bitmap_set bm i v = Inr (put_bit bm i v)"
  by (simp add: bitmap_set_def put_bit_def cell_index_iff)

lemma mark_page_eq:
  "mark_page b p bm =
     (if p < bit_capacity bm
      then if b = Dev \<and> p \<in> used bm then Inl (AssertFailed ''double alloc'')
           else Inr (put_bit bm p True)
      else Inl IndexOutOfBounds)"
  by (cases b)
    (auto simp: mark_page_def put_bit_def cell_index_iff in_used_iff page_used_def
      and_shl1_eq_0_iff idx_get_def debug_assert_def)

lemma free_page_eq:
  "free_page b p bm =
     (if p < bit_capacity bm
      then if b = Dev \<and> p \<notin> used bm then Inl (AssertFailed ''double free'')
           else Inr (put_bit bm p False)
      else Inl IndexOutOfBounds)"
  by (cases b)
    (auto simp: free_page_def put_bit_def cell_index_iff in_used_iff page_used_def
      and_shl1_eq_0_iff idx_get_def debug_assert_def)

section \<open>The three-loop walk is a page-by-page loop\<close>

text \<open>
  The contract \<open>mark_allocated\<close> and \<open>free\<close> rely on: the operation on a whole cell does what the
  operation on its 64 pages does, panics included.
\<close>

locale cell_walk =
  fixes page_op cell_op :: "usize \<Rightarrow> 's \<Rightarrow> 's res"
  assumes cell_op_pages: "p mod 64 = 0 \<Longrightarrow> cell_op p s = foldM page_op [p..<p + 64] s"
begin

lemma walk_head_pages:
  "bnd (walk_head page_op s p n) (\<lambda>(s, p, n). foldM page_op [p..<p + n] s) =
   foldM page_op [p..<p + n] s"
proof (induction page_op s p n rule: walk_head.induct)
  case (1 page_op s p n)
  show ?case
  proof (cases "p mod 64 \<noteq> 0 \<and> 0 < n")
    case True
    then have "foldM page_op [p..<p + n] s = bnd (page_op p s) (foldM page_op [p + 1..<p + 1 + (n - 1)])"
      by (simp add: foldM_upt_rec)
    with True 1 show ?thesis
      by (subst walk_head.simps) (auto simp: bnd_assoc intro!: bnd_cong)
  next
    case False
    then show ?thesis by (subst walk_head.simps) auto
  qed
qed

lemma walk_head_aligned:
  "walk_head page_op s p n = Inr (s', p', n') \<Longrightarrow> p' mod 64 = 0 \<or> n' = 0"
proof (induction page_op s p n rule: walk_head.induct)
  case (1 page_op s p n)
  then show ?case
    by (subst (asm) (2) walk_head.simps) (auto simp: returns_iff split: if_splits)
qed

lemma walk_cells_pages:
  assumes "p mod 64 = 0 \<or> n = 0"
  shows "bnd (walk_cells cell_op s p n) (\<lambda>(s, p, n). foldM page_op [p..<p + n] s) =
    foldM page_op [p..<p + n] s"
  using assms
proof (induction n arbitrary: s p rule: less_induct)
  case (less n)
  show ?case
  proof (cases "64 \<le> n")
    case True
    with less.prems have p: "p mod 64 = 0" by auto
    have IH: "bnd (walk_cells cell_op s (p + 64) (n - 64)) (\<lambda>(s, p, n). foldM page_op [p..<p + n] s) =
        foldM page_op [p + 64..<p + n] s" for s
      using less.IH [of "n - 64" "p + 64" s] True p by simp
    have "foldM page_op [p..<p + n] s = bnd (cell_op p s) (foldM page_op [p + 64..<p + n])"
      using True foldM_upt_split [of p "p + 64" "p + n" page_op s] cell_op_pages [OF p] by simp
    then show ?thesis
      using True IH by (subst walk_cells.simps) (auto simp: bnd_assoc intro!: bnd_cong)
  next
    case False
    then show ?thesis by (subst walk_cells.simps) auto
  qed
qed

lemma walk_tail_pages: "walk_tail page_op s p n = foldM page_op [p..<p + n] s"
proof (induction page_op s p n rule: walk_tail.induct)
  case (1 page_op s p n)
  then show ?case
    by (subst walk_tail.simps, subst foldM_upt_rec) (auto intro!: bnd_cong)
qed

lemma walk_range_pages: "walk_range page_op cell_op s p n = foldM page_op [p..<p + n] s"
proof -
  have "bnd (walk_cells cell_op s' p' n') (\<lambda>(s, p, n). walk_tail page_op s p n) =
      foldM page_op [p'..<p' + n'] s'"
    if "walk_head page_op s p n = Inr (s', p', n')" for s' p' n'
    using walk_cells_pages [OF walk_head_aligned [OF that], of s'] by (simp add: walk_tail_pages)
  then have "walk_range page_op cell_op s p n =
      bnd (walk_head page_op s p n) (\<lambda>(s, p, n). foldM page_op [p..<p + n] s)"
    by (auto simp: walk_range_def intro!: bnd_cong)
  then show ?thesis by (simp add: walk_head_pages)
qed

end

section \<open>Ranges of pages\<close>

lemma mark_pages_ok:
  "p + n \<le> bit_capacity bm \<Longrightarrow> b = Dev \<longrightarrow> used bm \<inter> {p..<p + n} = {} \<Longrightarrow>
   foldM (mark_page b) [p..<p + n] bm = Inr (put_range bm p n True)"
proof (induction n)
  case (Suc n)
  then have "foldM (mark_page b) [p..<p + n] bm = Inr (put_range bm p n True)"
    by (cases b) (auto simp: atLeastLessThanSuc)
  with Suc.prems show ?case
    by (auto simp: foldM_append mark_page_eq [of _ "p + n"] used_put_range)
qed simp

lemma free_pages_ok:
  "p + n \<le> bit_capacity bm \<Longrightarrow> b = Dev \<longrightarrow> {p..<p + n} \<subseteq> used bm \<Longrightarrow>
   foldM (free_page b) [p..<p + n] bm = Inr (put_range bm p n False)"
proof (induction n)
  case (Suc n)
  then have "foldM (free_page b) [p..<p + n] bm = Inr (put_range bm p n False)"
    by (cases b) (auto simp: atLeastLessThanSuc)
  with Suc.prems show ?case
    by (auto simp: foldM_append free_page_eq [of _ "p + n"] used_put_range)
qed simp

lemma mark_pages_overlap:
  "p + n \<le> bit_capacity bm \<Longrightarrow> used bm \<inter> {p..<p + n} \<noteq> {} \<Longrightarrow>
   foldM (mark_page Dev) [p..<p + n] bm = Inl (AssertFailed ''double alloc'')"
proof (induction n)
  case (Suc n)
  show ?case
  proof (cases "used bm \<inter> {p..<p + n} = {}")
    case True
    with Suc.prems have "p + n \<in> used bm" by (auto simp: less_Suc_eq)
    moreover have "foldM (mark_page Dev) [p..<p + n] bm = Inr (put_range bm p n True)"
      using True Suc.prems by (intro mark_pages_ok) auto
    ultimately show ?thesis
      using Suc.prems by (simp add: foldM_append mark_page_eq [of _ "p + n"] used_put_range)
  next
    case False
    with Suc show ?thesis by (simp add: foldM_append)
  qed
qed simp

lemma free_pages_unused:
  "p + n \<le> bit_capacity bm \<Longrightarrow> \<not> {p..<p + n} \<subseteq> used bm \<Longrightarrow>
   foldM (free_page Dev) [p..<p + n] bm = Inl (AssertFailed ''double free'')"
proof (induction n)
  case (Suc n)
  show ?case
  proof (cases "{p..<p + n} \<subseteq> used bm")
    case True
    with Suc.prems have "p + n \<notin> used bm" by (auto simp: less_Suc_eq)
    moreover have "foldM (free_page Dev) [p..<p + n] bm = Inr (put_range bm p n False)"
      using True Suc.prems by (intro free_pages_ok) auto
    ultimately show ?thesis
      using Suc.prems by (simp add: foldM_append free_page_eq [of _ "p + n"] used_put_range)
  next
    case False
    with Suc show ?thesis by (simp add: foldM_append)
  qed
qed simp

lemma pages_out_of_range:
  assumes "bit_capacity bm < p + n" and "0 < n" and "op = mark_page b \<or> op = free_page b"
  shows "\<exists>e. foldM op [p..<p + n] bm = Inl e"
proof -
  have "bit_capacity m = bit_capacity bm"
    if "foldM op xs bm = Inr m" for xs m
    using that assms(3)
    by (rule_tac foldM_invariant [where P = "\<lambda>m. bit_capacity m = bit_capacity bm", OF that])
      (auto simp: mark_page_eq free_page_eq split: if_splits)
  then have "bnd (foldM op [p..<p + (n - 1)] bm) (op (p + (n - 1))) \<noteq> Inr m" for m
    using assms by (fastforce simp: returns_iff mark_page_eq free_page_eq split: if_splits)
  moreover have "foldM op [p..<p + n] bm = bnd (foldM op [p..<p + (n - 1)] bm) (op (p + (n - 1)))"
    using assms(2) foldM_upt_Suc [of p "p + (n - 1)" op bm] by simp
  ultimately show ?thesis by (metis sum.exhaust)
qed

text \<open>A cell operation on an aligned page is the page operation on the cell's 64 pages.\<close>

lemma aligned_cell_capacity:
  "p mod 64 = 0 \<Longrightarrow> p < bit_capacity bm \<Longrightarrow> p + 64 \<le> bit_capacity bm"
  unfolding bit_capacity_def by (elim mod_eq_0E) (simp add: mult.commute [of _ 64])

lemma cell_page_index: "p mod 64 = 0 \<Longrightarrow> i \<in> {p..<p + 64} \<longleftrightarrow> i div 64 = p div 64" for p i :: nat
  by (elim mod_eq_0E) auto

lemma cell_page_offset:
  "p mod 64 = 0 \<Longrightarrow> j < 64 \<Longrightarrow> (p + j) div 64 = p div 64 \<and> (p + j) mod 64 = j" for p j :: nat
  by (elim mod_eq_0E) auto

lemma used_put_cell:
  assumes "p mod 64 = 0" "p < bit_capacity bm"
  shows "used (bm\<lparr>bitmap := (bitmap bm)[p div 64 := w]\<rparr>) =
    {i. i < bit_capacity bm \<and> (if i \<in> {p..<p + 64} then bit w (i mod 64) else page_used bm i)}"
  unfolding cell_page_index [OF assms(1)] using assms(2)
  by (auto simp: used_def page_used_def bit_capacity_def nth_list_update split: if_splits)

lemma cell_free_iff:
  assumes "p mod 64 = 0" "p < bit_capacity bm"
  shows "bitmap bm ! (p div 64) = 0 \<longleftrightarrow> used bm \<inter> {p..<p + 64} = {}"
    and "bitmap bm ! (p div 64) = - 1 \<longleftrightarrow> {p..<p + 64} \<subseteq> used bm"
proof -
  have cell: "bit (bitmap bm ! (p div 64)) j \<longleftrightarrow> p + j \<in> used bm" if "j < 64" for j
    using aligned_cell_capacity [OF assms] cell_page_offset [OF assms(1) that] that
    by (simp add: in_used_iff page_used_def)
  have range: "{p..<p + 64} = {i. \<exists>j < 64. i = p + j}"
    by (auto simp: le_iff_add)
  show "bitmap bm ! (p div 64) = 0 \<longleftrightarrow> used bm \<inter> {p..<p + 64} = {}"
    using cell by (auto simp: word_eq_0_iff_bits range)
  show "bitmap bm ! (p div 64) = - 1 \<longleftrightarrow> {p..<p + 64} \<subseteq> used bm"
    using cell by (auto simp: word_eq_max_iff_bits range)
qed

lemma put_cell_eq_put_range:
  assumes "p mod 64 = 0" "p < bit_capacity bm"
  shows "bm\<lparr>bitmap := (bitmap bm)[p div 64 := - 1]\<rparr> = put_range bm p 64 True"
    and "bm\<lparr>bitmap := (bitmap bm)[p div 64 := 0]\<rparr> = put_range bm p 64 False"
  using aligned_cell_capacity [OF assms]
  by (auto intro!: Bitmap_eqI simp: used_put_range used_put_cell [OF assms])
    (auto simp: used_def split: if_splits)

interpretation mark_walk: cell_walk "mark_page b" "mark_cell b" for b
proof
  fix p :: nat and s :: Bitmap assume p: "p mod 64 = 0"
  show "mark_cell b p s = foldM (mark_page b) [p..<p + 64] s"
  proof (cases "p < bit_capacity s")
    case True
    note fits = aligned_cell_capacity [OF p True]
    show ?thesis
    proof (cases "b = Dev \<and> used s \<inter> {p..<p + 64} \<noteq> {}")
      case bad: True
      with cell_free_iff(1) [OF p True] mark_pages_overlap [OF fits] True show ?thesis
        by (simp add: mark_cell_def cell_index_iff)
    next
      case False
      with mark_pages_ok [OF fits, of b] cell_free_iff(1) [OF p True] True
        put_cell_eq_put_range(1) [OF p True] show ?thesis
        by (cases b) (simp_all add: mark_cell_def cell_index_iff max_u64)
    qed
  next
    case False
    then show ?thesis
      by (subst foldM_upt_rec) (simp add: mark_cell_def idx_get_def cell_index_iff mark_page_eq [of _ p])
  qed
qed

interpretation free_walk: cell_walk "free_page b" "free_cell b" for b
proof
  fix p :: nat and s :: Bitmap assume p: "p mod 64 = 0"
  show "free_cell b p s = foldM (free_page b) [p..<p + 64] s"
  proof (cases "p < bit_capacity s")
    case True
    note fits = aligned_cell_capacity [OF p True]
    show ?thesis
    proof (cases "b = Dev \<and> \<not> {p..<p + 64} \<subseteq> used s")
      case bad: True
      with cell_free_iff(2) [OF p True] free_pages_unused [OF fits] True show ?thesis
        by (simp add: free_cell_def cell_index_iff max_u64)
    next
      case False
      with free_pages_ok [OF fits, of b] cell_free_iff(2) [OF p True] True
        put_cell_eq_put_range(2) [OF p True] show ?thesis
        by (cases b) (simp_all add: free_cell_def cell_index_iff max_u64)
    qed
  next
    case False
    then show ?thesis
      by (subst foldM_upt_rec) (simp add: free_cell_def idx_get_def cell_index_iff free_page_eq [of _ p])
  qed
qed

lemmas bitmap_mark_allocated_pages =
  mark_walk.walk_range_pages [folded bitmap_mark_allocated_def]

lemmas bitmap_free_pages =
  free_walk.walk_range_pages [folded bitmap_free_def]

section \<open>find_hole returns the lowest hole\<close>

text \<open>
  State of the scan after the first \<open>k\<close> pages: the last \<open>hole_count\<close> of them are free, that run
  cannot be extended to the left, and no hole of the requested size ends at or before \<open>k\<close>.
\<close>

definition scan_inv :: "(nat \<Rightarrow> bool) \<Rightarrow> nat \<Rightarrow> nat \<Rightarrow> usize \<times> usize \<Rightarrow> bool" where
  "scan_inv U n k s \<longleftrightarrow> (case s of (page_num, hole_count) \<Rightarrow>
     hole_count \<le> k \<and> hole_count < n \<and> (\<forall>i. k - hole_count \<le> i \<and> i < k \<longrightarrow> \<not> U i) \<and>
     (hole_count > 0 \<longrightarrow> page_num = k - hole_count) \<and>
     (hole_count < k \<longrightarrow> U (k - hole_count - 1)) \<and>
     (\<forall>q. q + n \<le> k \<longrightarrow> (\<exists>i. q \<le> i \<and> i < q + n \<and> U i)))"

definition first_hole :: "(nat \<Rightarrow> bool) \<Rightarrow> nat \<Rightarrow> nat \<Rightarrow> bool" where
  "first_hole U n p \<longleftrightarrow> (\<forall>i. p \<le> i \<and> i < p + n \<longrightarrow> \<not> U i) \<and>
     (\<forall>q < p. \<exists>i. q \<le> i \<and> i < q + n \<and> U i)"

lemma scan_inv_start: "0 < n \<Longrightarrow> scan_inv U n 0 (0, 0)"
  by (simp add: scan_inv_def)

lemma scan_used:
  assumes "scan_inv U n k (pn, hc)" and "U k"
  shows "scan_inv U n (Suc k) (pn', 0)"
proof -
  have "\<exists>i. q \<le> i \<and> i < q + n \<and> U i" if "q + n \<le> Suc k" for q
    using assms that by (cases "q + n = Suc k") (auto simp: scan_inv_def intro!: exI [of _ k])
  with assms show ?thesis by (auto simp: scan_inv_def)
qed

lemma scan_free:
  assumes inv: "scan_inv U n k (pn, hc)" and free: "\<not> U k"
    and pn': "pn' = (if hc = 0 then k else pn)" and less: "Suc hc \<noteq> n"
  shows "scan_inv U n (Suc k) (pn', Suc hc)"
proof -
  have "\<exists>i. q \<le> i \<and> i < q + n \<and> U i" if q: "q + n \<le> Suc k" for q
  proof (cases "q + n = Suc k")
    case True
    with inv less have "hc < k" "U (k - hc - 1)" "q \<le> k - hc - 1"
      by (auto simp: scan_inv_def)
    with True show ?thesis by (intro exI [of _ "k - hc - 1"]) auto
  next
    case False
    with q inv show ?thesis by (auto simp: scan_inv_def)
  qed
  moreover have "\<not> U i" if "k - hc \<le> i" "i < Suc k" for i
    using inv free that by (cases "i = k") (auto simp: scan_inv_def)
  moreover have "pn' = k - hc" using inv pn' by (auto simp: scan_inv_def)
  ultimately show ?thesis using inv less by (auto simp: scan_inv_def)
qed

lemma scan_found:
  assumes inv: "scan_inv U n k (pn, hc)" and free: "\<not> U k"
    and pn': "pn' = (if hc = 0 then k else pn)" and eq: "Suc hc = n"
  shows "first_hole U n pn' \<and> pn' + n = Suc k"
proof -
  have p: "pn' = k - hc" "hc \<le> k" using inv pn' by (auto simp: scan_inv_def)
  have "\<not> U i" if "k - hc \<le> i" "i < Suc k" for i
    using inv free that by (cases "i = k") (auto simp: scan_inv_def)
  with p eq inv show ?thesis by (auto simp: first_hole_def scan_inv_def)
qed

lemma find_hole_bits_scan:
  assumes "\<And>j. j < 64 \<Longrightarrow> U (i * 64 + j) \<longleftrightarrow> bit w j"
    and "j \<le> 64" and "scan_inv U n (i * 64 + j) s"
  shows "case find_hole_bits n i w [j..<64] s of
      Inl p \<Rightarrow> first_hole U n p \<and> p + n \<le> i * 64 + 64
    | Inr s' \<Rightarrow> scan_inv U n (i * 64 + 64) s'"
  using assms(2,3)
proof (induction "64 - j" arbitrary: j s)
  case 0
  then show ?case by simp
next
  case (Suc d)
  obtain pn hc where s: "s = (pn, hc)" by (cases s)
  from Suc.hyps have j: "j < 64" and upt: "[j..<64] = j # [Suc j..<64]"
    by (auto simp: upt_rec)
  have U: "U (i * 64 + j) \<longleftrightarrow> w AND shl1 j \<noteq> 0"
    using assms(1) [OF j] j by (simp add: and_shl1_eq_0_iff)
  have IH: "scan_inv U n (Suc (i * 64 + j)) s' \<Longrightarrow>
      case find_hole_bits n i w [Suc j..<64] s' of
        Inl p \<Rightarrow> first_hole U n p \<and> p + n \<le> i * 64 + 64
      | Inr s' \<Rightarrow> scan_inv U n (i * 64 + 64) s'" for s'
    using Suc.hyps(1) [of "Suc j" s'] Suc.hyps(2) j by simp
  show ?case
  proof (cases "U (i * 64 + j)")
    case True
    with U IH [OF scan_used [OF Suc.prems(2) [unfolded s] True]] show ?thesis
      by (simp add: upt s)
  next
    case False
    note step = scan_free [OF Suc.prems(2) [unfolded s] False refl]
      and found = scan_found [OF Suc.prems(2) [unfolded s] False refl]
    show ?thesis
    proof (cases "Suc hc = n")
      case True
      with found U False j show ?thesis by (simp add: upt s)
    next
      case neq: False
      with IH [OF step [OF neq]] U False show ?thesis by (simp add: upt s)
    qed
  qed
qed

lemma find_hole_cells_scan:
  assumes "\<And>c j. c < length ws \<Longrightarrow> j < 64 \<Longrightarrow> U ((i + c) * 64 + j) \<longleftrightarrow> bit (ws ! c) j"
    and "scan_inv U n (i * 64) s"
  shows "case find_hole_cells n i ws s of
      Inl p \<Rightarrow> first_hole U n p \<and> p + n \<le> (i + length ws) * 64
    | Inr s' \<Rightarrow> scan_inv U n ((i + length ws) * 64) s'"
  using assms
proof (induction ws arbitrary: i s)
  case Nil
  then show ?case by simp
next
  case (Cons w ws)
  have U: "U (i * 64 + j) \<longleftrightarrow> bit w j" if "j < 64" for j
    using Cons.prems(1) [of 0 j] that by simp
  have U': "U ((i + 1 + c) * 64 + j) \<longleftrightarrow> bit (ws ! c) j" if "c < length ws" "j < 64" for c j
    using Cons.prems(1) [of "Suc c" j] that by simp
  note bits = find_hole_bits_scan [of U i w 0 n s, OF U]
  show ?case
  proof (cases "find_hole_bits n i w [0..<64] s")
    case (Inl p)
    with bits Cons.prems(2) show ?thesis by simp
  next
    case (Inr s')
    with bits Cons.prems(2) have "scan_inv U n ((i + 1) * 64) s'" by (simp add: algebra_simps)
    from Cons.IH [OF U' this] have "case find_hole_cells n (i + 1) ws s' of
        Inl p \<Rightarrow> first_hole U n p \<and> p + n \<le> (i + length (w # ws)) * 64
      | Inr s' \<Rightarrow> scan_inv U n ((i + length (w # ws)) * 64) s'"
      by (auto split: sum.splits)
    with Inr show ?thesis by simp
  qed
qed

lemma find_hole_bits_zero: "\<exists>s'. find_hole_bits 0 i w js s = Inr s'"
  by (induction js arbitrary: s) (auto simp: Let_def split: prod.splits)

lemma find_hole_cells_zero: "\<exists>s'. find_hole_cells 0 i ws s = Inr s'"
proof (induction ws arbitrary: i s)
  case (Cons w ws)
  then show ?case using find_hole_bits_zero [of i w "[0..<64]" s] by auto
qed simp

definition is_hole :: "Bitmap \<Rightarrow> nat \<Rightarrow> nat \<Rightarrow> bool" where
  "is_hole bm p n \<longleftrightarrow> p + n \<le> bit_capacity bm \<and> used bm \<inter> {p..<p + n} = {}"

lemma find_hole_scan:
  assumes "0 < n"
  shows "case bitmap_find_hole bm n of
      Some p \<Rightarrow> is_hole bm p n \<and> (\<forall>q < p. \<not> is_hole bm q n)
    | None \<Rightarrow> \<forall>q. \<not> is_hole bm q n"
proof -
  have eq: "(\<exists>i. q \<le> i \<and> i < q + n \<and> page_used bm i) \<longleftrightarrow> \<not> is_hole bm q n"
    if "q + n \<le> bit_capacity bm" for q
    using that by (auto simp: is_hole_def used_def disjoint_iff) (meson less_le_trans)
  have "case find_hole_cells n 0 (bitmap bm) (0, 0) of
      Inl p \<Rightarrow> first_hole (page_used bm) n p \<and> p + n \<le> bit_capacity bm
    | Inr s' \<Rightarrow> scan_inv (page_used bm) n (bit_capacity bm) s'"
    using find_hole_cells_scan [of "bitmap bm" "page_used bm" 0 n "(0, 0)"] scan_inv_start [OF assms]
    by (auto simp: bit_capacity_def page_used_def split: sum.splits)
  then show ?thesis
    using eq by (auto simp: bitmap_find_hole_def first_hole_def scan_inv_def is_hole_def
        split: sum.splits)
qed

lemma find_hole_zero: "bitmap_find_hole bm 0 = None"
  using find_hole_cells_zero [of 0 "bitmap bm" "(0, 0)"] by (auto simp: bitmap_find_hole_def)

section \<open>Clearing a range\<close>

lemma page_le_iff: "i \<le> k \<longleftrightarrow> i div 64 < k div 64 \<or> i div 64 = k div 64 \<and> i mod 64 \<le> k mod 64"
  for i k :: nat
  using div_mult_mod_eq [of i 64] div_mult_mod_eq [of k 64] mod_less_divisor [of 64 i]
    mod_less_divisor [of 64 k] by linarith

lemma page_less_iff: "k < e \<longleftrightarrow> k div 64 < e div 64 \<or> k div 64 = e div 64 \<and> k mod 64 < e mod 64"
  for k e :: nat
  using page_le_iff [of e k] by linarith

lemma bit_prefix_mask: "bit (shl1 k - 1 :: u64) j \<longleftrightarrow> j < 64 \<and> j < k" if "k < 64"
  using that by (simp add: shl1_def bit_mask_iff flip: mask_eq_exp_minus_1)

lemma and_cell_pages:
  assumes "c < length (bitmap bm)"
  shows "\<exists>bm'. and_cell m c bm = Inr bm' \<and> bit_capacity bm' = bit_capacity bm \<and>
    used bm' = {k \<in> used bm. k div 64 = c \<longrightarrow> bit m (k mod 64)}"
  using assms
  by (auto simp: and_cell_def used_def page_used_def nth_list_update bit_and_iff split: if_splits)

lemma zero_cell_pages:
  assumes "c < length (bitmap bm)"
  shows "\<exists>bm'. zero_cell c bm = Inr bm' \<and> bit_capacity bm' = bit_capacity bm \<and>
    used bm' = {k \<in> used bm. k div 64 \<noteq> c}"
  using assms
  by (auto simp: zero_cell_def used_def page_used_def nth_list_update split: if_splits)

lemma zero_cells_pages:
  assumes "hi \<le> length (bitmap bm)"
  shows "\<exists>bm'. foldM zero_cell [lo..<hi] bm = Inr bm' \<and> bit_capacity bm' = bit_capacity bm \<and>
    used bm' = {k \<in> used bm. \<not> (lo \<le> k div 64 \<and> k div 64 < hi)}"
  using assms
proof (induction hi)
  case (Suc hi)
  show ?case
  proof (cases "lo \<le> hi")
    case True
    from Suc obtain m where m: "foldM zero_cell [lo..<hi] bm = Inr m"
      "bit_capacity m = bit_capacity bm" "used m = {k \<in> used bm. \<not> (lo \<le> k div 64 \<and> k div 64 < hi)}"
      by auto
    from m(2) Suc.prems have "hi < length (bitmap m)" by (simp add: bit_capacity_def)
    then obtain m' where "zero_cell hi m = Inr m'" "bit_capacity m' = bit_capacity m"
      "used m' = {k \<in> used m. k div 64 \<noteq> hi}"
      using zero_cell_pages by blast
    with m True show ?thesis by (auto simp: foldM_append less_Suc_eq)
  next
    case False
    then show ?thesis by auto
  qed
qed auto

lemma zero_bit_range_same_cell:
  assumes "0 < n" "i + n \<le> bit_capacity bm" "i + n < 2 ^ 64" "i div 64 = (i + n) div 64"
  shows "\<exists>bm'. zero_bit_range b bm i n = Inr bm' \<and> bit_capacity bm' = bit_capacity bm \<and>
    used bm' = used bm - {i..<i + n}"
proof -
  have "i div 64 < length (bitmap bm)" using assms(1,2) cell_index_iff [of i bm] by linarith
  from and_cell_pages [OF this] obtain bm' where bm':
    "and_cell ((shl1 (i mod 64) - 1) OR NOT (shl1 ((i + n) mod 64) - 1)) (i div 64) bm = Inr bm'"
    "bit_capacity bm' = bit_capacity bm"
    "used bm' = {k \<in> used bm. k div 64 = i div 64 \<longrightarrow>
      bit ((shl1 (i mod 64) - 1) OR NOT (shl1 ((i + n) mod 64) - 1) :: u64) (k mod 64)}"
    by blast
  have "used bm' = used bm - {i..<i + n}"
    unfolding bm'(3) using assms(4)
    by (auto simp: bit_or_iff bit_not_iff bit_prefix_mask page_le_iff [of i]
        page_less_iff [of _ "i + n"])
  with bm' assms show ?thesis
    by (simp add: zero_bit_range_def usize_simps)
qed

lemma zero_bit_range_cells:
  assumes "0 < n" "i + n \<le> bit_capacity bm" "i + n < 2 ^ 64" "i div 64 \<noteq> (i + n) div 64"
  shows "\<exists>bm'. zero_bit_range b bm i n = Inr bm' \<and> bit_capacity bm' = bit_capacity bm \<and>
    used bm' = used bm - {i..<i + n}"
proof -
  let ?e = "i + n"
  define pre where "pre = (if i mod 64 \<noteq> 0 then and_cell (shl1 (i mod 64) - 1) (i div 64) bm else Inr bm)"
  have lt: "i div 64 < ?e div 64" using assms(4) by (metis div_le_mono le_add1 le_neq_implies_less)
  have len: "?e div 64 \<le> length (bitmap bm)"
    using assms(2) by (simp add: bit_capacity_def)
  obtain m1 where m1: "pre = Inr m1" "bit_capacity m1 = bit_capacity bm"
    "used m1 = {k \<in> used bm. k div 64 = i div 64 \<longrightarrow> i mod 64 = 0 \<or> k mod 64 < i mod 64}"
    using and_cell_pages [of "i div 64" bm "shl1 (i mod 64) - 1"] lt len
    by (cases "i mod 64 = 0") (auto simp: pre_def bit_prefix_mask)
  obtain m2 where m2: "foldM zero_cell [div_ceil i 64..<?e div 64] m1 = Inr m2"
    "bit_capacity m2 = bit_capacity bm"
    "used m2 = {k \<in> used m1. \<not> (div_ceil i 64 \<le> k div 64 \<and> k div 64 < ?e div 64)}"
    using zero_cells_pages [of "?e div 64" m1 "div_ceil i 64"] len m1(2)
    by (auto simp: bit_capacity_def)
  obtain m3 where m3: "(if ?e mod 64 \<noteq> 0 then and_cell (NOT (shl1 (?e mod 64) - 1)) (?e div 64) m2
      else Inr m2) = Inr m3" "bit_capacity m3 = bit_capacity bm"
    "used m3 = {k \<in> used m2. k div 64 = ?e div 64 \<longrightarrow> \<not> k mod 64 < ?e mod 64}"
  proof (cases "?e mod 64 = 0")
    case False
    then have "?e < bit_capacity bm"
      using assms(2) by (auto simp: bit_capacity_def le_less)
    then have "?e div 64 < length (bitmap m2)"
      using m2(2) by (metis cell_index_iff)
    from and_cell_pages [OF this, of "NOT (shl1 (?e mod 64) - 1)"] False m2(2) that show ?thesis
      by (auto simp: bit_not_iff bit_prefix_mask)
  qed (use m2 that in auto)
  have "used m3 = used bm - {i..<?e}"
    unfolding m3(3) m2(3) m1(3) using lt
    by (auto simp: page_le_iff [of i] page_less_iff [of _ ?e] div_ceil_def split: if_splits)
  moreover have "zero_bit_range b bm i n = bnd pre (\<lambda>self.
      bnd (foldM zero_cell [div_ceil i 64..<?e div 64] self) (\<lambda>self.
      if ?e mod 64 \<noteq> 0 then and_cell (NOT (shl1 (?e mod 64) - 1)) (?e div 64) self else Inr self))"
    using assms by (simp add: zero_bit_range_def usize_simps pre_def)
  ultimately show ?thesis
    using m1(1) m2(1) m3(1,2) by auto
qed

lemma zero_bit_range_ok:
  assumes "i + n \<le> bit_capacity bm" "i + n < 2 ^ 64"
  shows "\<exists>bm'. zero_bit_range b bm i n = Inr bm' \<and> bit_capacity bm' = bit_capacity bm \<and>
    used bm' = used bm - {i..<i + n}"
proof (cases "n = 0")
  case True
  then show ?thesis by (simp add: zero_bit_range_def)
next
  case False
  then show ?thesis
    using assms zero_bit_range_same_cell [of n i bm b] zero_bit_range_cells [of n i bm b] by blast
qed

section \<open>Moving a range\<close>

lemma move_bits_step:
  assumes "src \<le> dst" "dst + n \<le> bit_capacity bm" "dst + n < 2 ^ 64"
  shows "\<exists>bm'. foldM (\<lambda>i self. bnd (usize_add b dst i) (\<lambda>d. bnd (usize_add b src i) (\<lambda>s.
      bnd (bitmap_get self s) (\<lambda>v. bitmap_set self d v)))) (rev [0..<n]) bm = Inr bm' \<and>
    bit_capacity bm' = bit_capacity bm \<and>
    used bm' = (used bm - {dst..<dst + n}) \<union> {k \<in> {dst..<dst + n}. src + (k - dst) \<in> used bm}"
  using assms(2,3)
proof (induction n arbitrary: bm)
  case (Suc n)
  define m where "m = put_bit bm (dst + n) (src + n \<in> used bm)"
  have m: "bit_capacity m = bit_capacity bm"
    "used m = (if src + n \<in> used bm then insert (dst + n) (used bm) else used bm - {dst + n})"
    using Suc.prems by (simp_all add: m_def used_put_bit)
  have step: "bnd (usize_add b dst n) (\<lambda>d. bnd (usize_add b src n) (\<lambda>s.
      bnd (bitmap_get bm s) (\<lambda>v. bitmap_set bm d v))) = Inr m"
    using Suc.prems assms(1) by (simp add: usize_simps bitmap_get_eq bitmap_set_eq m_def)
  from Suc.IH [of m] Suc.prems m(1) obtain bm' where bm':
    "foldM (\<lambda>i self. bnd (usize_add b dst i) (\<lambda>d. bnd (usize_add b src i) (\<lambda>s.
      bnd (bitmap_get self s) (\<lambda>v. bitmap_set self d v)))) (rev [0..<n]) m = Inr bm'"
    "bit_capacity bm' = bit_capacity bm"
    "used bm' = (used m - {dst..<dst + n}) \<union> {k \<in> {dst..<dst + n}. src + (k - dst) \<in> used m}"
    by auto
  have "used bm' = (used bm - {dst..<dst + Suc n}) \<union>
      {k \<in> {dst..<dst + Suc n}. src + (k - dst) \<in> used bm}"
    unfolding bm'(3) m(2) using assms(1) by (auto simp: less_Suc_eq)
  with bm' step show ?case by simp
qed auto

lemma move_bit_range_forward_ok:
  assumes "src \<le> dst" "dst + n \<le> bit_capacity bm" "dst + n < 2 ^ 64"
  shows "\<exists>bm'. move_bit_range_forward b bm src dst n = Inr bm' \<and>
    bit_capacity bm' = bit_capacity bm \<and>
    used bm' = (used bm - {dst..<dst + n}) \<union> {k \<in> {dst..<dst + n}. src + (k - dst) \<in> used bm}"
proof (cases "src = dst")
  case True
  then show ?thesis by (auto simp: move_bit_range_forward_def)
next
  case False
  with move_bits_step [OF assms, of b] assms(1) show ?thesis
    by (simp add: move_bit_range_forward_def)
qed

section \<open>The bitmap as a store of pages\<close>

lemma mark_allocated_ok:
  assumes "p + n \<le> bit_capacity bm" and "b = Release \<or> used bm \<inter> {p..<p + n} = {}"
  shows "bitmap_mark_allocated b bm p n = Inr (put_range bm p n True)"
  using assms mark_pages_ok [of p n bm b] by (cases b) (auto simp: bitmap_mark_allocated_pages)

lemma free_ok:
  assumes "p + n \<le> bit_capacity bm" and "b = Release \<or> {p..<p + n} \<subseteq> used bm"
  shows "bitmap_free b bm p n = Inr (put_range bm p n False)"
  using assms free_pages_ok [of p n bm b] by (cases b) (auto simp: bitmap_free_pages)

lemma range_op_empty:
  "bitmap_mark_allocated b bm p 0 = Inr bm" "bitmap_free b bm p 0 = Inr bm"
  by (simp_all add: bitmap_mark_allocated_pages bitmap_free_pages)

lemma mark_allocated_returns_iff [returns_iff]:
  "bitmap_mark_allocated b bm p n = Inr bm' \<longleftrightarrow>
     (n = 0 \<or> p + n \<le> bit_capacity bm) \<and> (b = Release \<or> used bm \<inter> {p..<p + n} = {}) \<and>
     bm' = put_range bm p n True"
proof (cases "n = 0 \<or> p + n \<le> bit_capacity bm")
  case True
  then show ?thesis
    using mark_allocated_ok [of p n bm b] mark_pages_overlap [of p n bm]
    by (cases "b = Release \<or> used bm \<inter> {p..<p + n} = {}"; cases b)
      (auto simp: bitmap_mark_allocated_pages range_op_empty)
next
  case False
  then show ?thesis
    using pages_out_of_range [of bm p n "mark_page b" b] by (auto simp: bitmap_mark_allocated_pages)
qed

lemma free_returns_iff [returns_iff]:
  "bitmap_free b bm p n = Inr bm' \<longleftrightarrow>
     (n = 0 \<or> p + n \<le> bit_capacity bm) \<and> (b = Release \<or> {p..<p + n} \<subseteq> used bm) \<and>
     bm' = put_range bm p n False"
proof (cases "n = 0 \<or> p + n \<le> bit_capacity bm")
  case True
  then show ?thesis
    using free_ok [of p n bm b] free_pages_unused [of p n bm]
    by (cases "b = Release \<or> {p..<p + n} \<subseteq> used bm"; cases b)
      (auto simp: bitmap_free_pages range_op_empty)
next
  case False
  then show ?thesis
    using pages_out_of_range [of bm p n "free_page b" b] by (auto simp: bitmap_free_pages)
qed

lemma alloc_pages_eq:
  "bitmap_alloc_pages b bm n = Inr (case bitmap_find_hole bm n of
     Some p \<Rightarrow> (Some p, put_range bm p n True) | None \<Rightarrow> (None, bm))"
proof (cases "bitmap_find_hole bm n")
  case (Some p)
  then have "is_hole bm p n"
    using find_hole_scan [of n bm] by (cases "n = 0") (auto simp: find_hole_zero)
  with Some show ?thesis
    by (simp add: bitmap_alloc_pages_def is_hole_def mark_allocated_ok)
qed (simp add: bitmap_alloc_pages_def)

text \<open>
  What a client of the bitmap relies on: \<open>taken\<close> is the set of allocated pages; allocation takes a
  free range and changes nothing else, and fails only when no range is free.
\<close>

locale page_store =
  fixes capacity :: "'m \<Rightarrow> nat" and taken :: "'m \<Rightarrow> nat set"
    and alloc :: "'m \<Rightarrow> nat \<Rightarrow> (nat option \<times> 'm) res"
    and mark release :: "'m \<Rightarrow> nat \<Rightarrow> nat \<Rightarrow> 'm res"
  assumes taken_bound: "taken m \<subseteq> {..<capacity m}"
    and alloc_total: "\<exists>r. alloc m n = Inr r"
    and alloc_Some: "alloc m n = Inr (Some p, m') \<Longrightarrow>
      0 < n \<and> p + n \<le> capacity m \<and> taken m \<inter> {p..<p + n} = {} \<and>
      capacity m' = capacity m \<and> taken m' = taken m \<union> {p..<p + n}"
    and alloc_None: "alloc m n = Inr (None, m') \<Longrightarrow>
      m' = m \<and> (n = 0 \<or> (\<forall>p. p + n \<le> capacity m \<longrightarrow> taken m \<inter> {p..<p + n} \<noteq> {}))"
    and mark_ok: "p + n \<le> capacity m \<Longrightarrow> taken m \<inter> {p..<p + n} = {} \<Longrightarrow>
      \<exists>m'. mark m p n = Inr m' \<and> capacity m' = capacity m \<and> taken m' = taken m \<union> {p..<p + n}"
    and release_ok: "p + n \<le> capacity m \<Longrightarrow> {p..<p + n} \<subseteq> taken m \<Longrightarrow>
      \<exists>m'. release m p n = Inr m' \<and> capacity m' = capacity m \<and> taken m' = taken m - {p..<p + n}"
begin

lemma alloc_succeeds_iff:
  "(\<exists>p m'. alloc m n = Inr (Some p, m')) \<longleftrightarrow>
   0 < n \<and> (\<exists>p. p + n \<le> capacity m \<and> taken m \<inter> {p..<p + n} = {})"
proof -
  obtain r m' where r: "alloc m n = Inr (r, m')" using alloc_total [of m n] by auto
  then show ?thesis using alloc_Some [of m n] alloc_None [of m n] by (cases r) auto
qed

lemma alloc_twice_disjoint:
  assumes "alloc m n = Inr (Some p, m1)" and "alloc m1 k = Inr (Some q, m2)"
  shows "{p..<p + n} \<inter> {q..<q + k} = {}"
  using alloc_Some [OF assms(1)] alloc_Some [OF assms(2)] by blast

lemma alloc_release:
  assumes "alloc m n = Inr (Some p, m1)"
  shows "\<exists>m2. release m1 p n = Inr m2 \<and> capacity m2 = capacity m \<and> taken m2 = taken m"
proof -
  note a = alloc_Some [OF assms]
  then obtain m2 where "release m1 p n = Inr m2" "capacity m2 = capacity m1"
    "taken m2 = taken m1 - {p..<p + n}"
    using release_ok [of p n m1] by auto
  with a show ?thesis by auto
qed

lemma release_alloc:
  assumes "release m p n = Inr m1" "0 < n" "p + n \<le> capacity m" "{p..<p + n} \<subseteq> taken m"
  shows "\<exists>q m2. alloc m1 n = Inr (Some q, m2)"
proof -
  from release_ok [OF assms(3,4)] assms(1) have "capacity m1 = capacity m" "taken m1 \<inter> {p..<p + n} = {}"
    by auto
  with assms show ?thesis unfolding alloc_succeeds_iff by auto
qed

end

lemma used_mark_range:
  "p + n \<le> bit_capacity bm \<Longrightarrow> used (put_range bm p n True) = used bm \<union> {p..<p + n}"
  by (simp add: used_put_range)

interpretation bm: page_store bit_capacity used
  "bitmap_alloc_pages b" "bitmap_mark_allocated b" "bitmap_free b" for b
proof
  show "used m \<subseteq> {..<bit_capacity m}" for m by (rule used_subset)
  show "\<exists>r. bitmap_alloc_pages b m n = Inr r" for m n by (simp add: alloc_pages_eq)
  show "0 < n \<and> p + n \<le> bit_capacity m \<and> used m \<inter> {p..<p + n} = {} \<and>
      bit_capacity m' = bit_capacity m \<and> used m' = used m \<union> {p..<p + n}"
    if "bitmap_alloc_pages b m n = Inr (Some p, m')" for m n p m'
    using that find_hole_scan [of n m]
    by (cases "n = 0")
      (auto simp: alloc_pages_eq find_hole_zero is_hole_def used_put_range split: option.splits)
  show "m' = m \<and> (n = 0 \<or> (\<forall>p. p + n \<le> bit_capacity m \<longrightarrow> used m \<inter> {p..<p + n} \<noteq> {}))"
    if "bitmap_alloc_pages b m n = Inr (None, m')" for m n m'
    using that find_hole_scan [of n m]
    by (cases "n = 0") (auto simp: alloc_pages_eq is_hole_def split: option.splits)
qed (auto simp: mark_allocated_ok free_ok used_put_range)

section \<open>Iterating\<close>

text \<open>Running the iterator to its end.\<close>

function iterator_collect :: "BitmapIterator \<Rightarrow> bool list" where
  "iterator_collect it = (case iterator_next it of
     (None, _) \<Rightarrow> [] | (Some b, it') \<Rightarrow> b # iterator_collect it')"
  by pat_completeness auto
termination
  by (relation "measure (\<lambda>it. length (it_bitmap it) * 64 - it_idx it)")
    (auto simp: iterator_next_def Let_def split: if_splits)

declare iterator_collect.simps [simp del]

lemma iterator_collect_from:
  "it_bitmap it = bitmap bm \<Longrightarrow>
   iterator_collect it = map (page_used bm) [it_idx it..<bit_capacity bm]"
proof (induction it rule: iterator_collect.induct)
  case (1 it)
  show ?case
  proof (cases "it_idx it < bit_capacity bm")
    case True
    let ?it = "it\<lparr>it_idx := it_idx it + 1\<rparr>"
    have nxt: "iterator_next it = (Some (page_used bm (it_idx it)), ?it)"
      using True "1.prems"
      by (simp add: iterator_next_def bit_capacity_def page_used_def and_shl1_eq_0_iff)
    with 1 have "iterator_collect ?it = map (page_used bm) [Suc (it_idx it)..<bit_capacity bm]"
      by simp
    with True nxt show ?thesis
      by (subst iterator_collect.simps) (simp add: upt_rec)
  next
    case False
    with "1.prems" show ?thesis
      by (subst iterator_collect.simps) (simp add: iterator_next_def bit_capacity_def)
  qed
qed

section \<open>Properties\<close>

text \<open>
  C12: \<open>find_hole\<close> returns the lowest run of \<open>page_count\<close> free pages of the bitmap, across cell
  boundaries and for any run length, and \<open>None\<close> exactly when there is none. A request for zero
  pages is never served.
\<close>

theorem find_hole_lowest:
  "bitmap_find_hole bm n =
     (if n \<noteq> 0 \<and> (\<exists>p. is_hole bm p n) then Some (LEAST p. is_hole bm p n) else None)"
proof (cases "n = 0")
  case True
  then show ?thesis by (simp add: find_hole_zero)
next
  case False
  have "(LEAST p. is_hole bm p n) = p"
    if "is_hole bm p n" "\<forall>q < p. \<not> is_hole bm q n" for p
    using that by (intro Least_equality) (auto simp: not_less [symmetric])
  with False show ?thesis
    using find_hole_scan [of n bm] by (auto split: option.splits)
qed

text \<open>
  C10: \<open>mark_allocated\<close>, with its word-at-a-time inner loop, sets exactly the bits of the requested
  range. It returns precisely when the range is empty or inside the bitmap and, in the dev
  profile, when none of the pages was allocated before; then it is the page-by-page loop.
\<close>

theorem mark_allocated_refines:
  "bitmap_mark_allocated b bm p n = foldM (mark_page b) [p..<p + n] bm \<and>
   (bitmap_mark_allocated b bm p n = Inr bm' \<longleftrightarrow>
     (n = 0 \<or> p + n \<le> bit_capacity bm) \<and> (b = Release \<or> used bm \<inter> {p..<p + n} = {}) \<and>
     bit_capacity bm' = bit_capacity bm \<and> used bm' = used bm \<union> {p..<p + n})"
  by (auto simp: mark_allocated_returns_iff used_put_range bitmap_mark_allocated_pages [symmetric]
      intro: Bitmap_eqI)

text \<open>
  C11: \<open>free\<close> clears exactly the bits of the requested range, and returns precisely when the range
  is empty or inside the bitmap and, in the dev profile, all of its pages were allocated.
\<close>

theorem free_refines:
  "bitmap_free b bm p n = foldM (free_page b) [p..<p + n] bm \<and>
   (bitmap_free b bm p n = Inr bm' \<longleftrightarrow>
     (n = 0 \<or> p + n \<le> bit_capacity bm) \<and> (b = Release \<or> {p..<p + n} \<subseteq> used bm) \<and>
     bit_capacity bm' = bit_capacity bm \<and> used bm' = used bm - {p..<p + n})"
  by (auto simp: free_returns_iff used_put_range bitmap_free_pages [symmetric]
      intro: Bitmap_eqI)

text \<open>
  In the dev profile, marking a range that holds an allocated page and freeing a range that
  holds a free page panic with the double-alloc and double-free messages.
\<close>

theorem double_alloc_and_free_panic:
  assumes "p + n \<le> bit_capacity bm"
  shows "(used bm \<inter> {p..<p + n} \<noteq> {} \<longrightarrow>
      bitmap_mark_allocated Dev bm p n = Inl (AssertFailed ''double alloc'')) \<and>
    (\<not> {p..<p + n} \<subseteq> used bm \<longrightarrow>
      bitmap_free Dev bm p n = Inl (AssertFailed ''double free''))"
  using mark_pages_overlap [OF assms] free_pages_unused [OF assms]
  by (simp add: bitmap_mark_allocated_pages bitmap_free_pages)

theorem double_alloc_and_free_panic_witness:
  "bitmap_mark_allocated Dev \<lparr>bitmap = [4]\<rparr> 1 2 = Inl (AssertFailed ''double alloc'') \<and>
   bitmap_free Dev \<lparr>bitmap = [4]\<rparr> 1 2 = Inl (AssertFailed ''double free'')"
proof -
  have "2 \<in> used \<lparr>bitmap = [4]\<rparr>" "1 \<notin> used \<lparr>bitmap = [4]\<rparr>"
    by (simp_all add: used_def page_used_def bit_capacity_def)
  then have "used \<lparr>bitmap = [4]\<rparr> \<inter> {1..<1 + 2} \<noteq> {}" "\<not> {1..<1 + 2} \<subseteq> used \<lparr>bitmap = [4]\<rparr>"
    by auto
  then show ?thesis
    using double_alloc_and_free_panic [of 1 2 "\<lparr>bitmap = [4]\<rparr>"] by (simp add: bit_capacity_def)
qed

text \<open>
  \<open>Bitmap::alloc\<close> hands out the hole \<open>find_hole\<close> found and marks exactly that range; when
  there is no hole it changes nothing. It never panics.
\<close>

theorem bitmap_alloc_spec:
  "\<exists>r bm'. bitmap_alloc_pages b bm n = Inr (r, bm') \<and> r = bitmap_find_hole bm n \<and>
     bit_capacity bm' = bit_capacity bm \<and>
     (case r of None \<Rightarrow> bm' = bm
      | Some p \<Rightarrow> is_hole bm p n \<and> used bm' = used bm \<union> {p..<p + n})"
proof (cases "bitmap_find_hole bm n")
  case None
  then show ?thesis by (simp add: alloc_pages_eq)
next
  case (Some p)
  then have "bitmap_alloc_pages b bm n = Inr (Some p, put_range bm p n True)"
    by (simp add: alloc_pages_eq)
  with bm.alloc_Some [OF this] Some show ?thesis by (simp add: is_hole_def)
qed

text \<open>
  \<open>zero_bit_range\<close>, with its prefix and suffix masks, clears exactly the bits of the range and
  keeps all others, for every alignment of the two ends.
\<close>

theorem zero_bit_range_clears:
  assumes "i + n \<le> bit_capacity bm" and "i + n < 2 ^ 64"
  shows "\<exists>bm'. zero_bit_range b bm i n = Inr bm' \<and> bit_capacity bm' = bit_capacity bm \<and>
    used bm' = used bm - {i..<i + n}"
  using assms by (rule zero_bit_range_ok)

theorem zero_bit_range_clears_witness:
  "\<exists>bm'. zero_bit_range Dev \<lparr>bitmap = [-1, -1, 7]\<rparr> 60 70 = Inr bm' \<and> bit_capacity bm' = 192 \<and>
    used bm' = used \<lparr>bitmap = [-1, -1, 7]\<rparr> - {60..<130}"
  using zero_bit_range_clears [of 60 70 "\<lparr>bitmap = [-1, -1, 7]\<rparr>" Dev] by (simp add: bit_capacity_def)

text \<open>
  \<open>move_bit_range_forward\<close> copies the source bits to the destination as they were before the
  move, also when the two ranges overlap, and touches no bit outside the destination range.
\<close>

theorem move_bit_range_forward_moves:
  assumes "src \<le> dst" and "dst + n \<le> bit_capacity bm" and "dst + n < 2 ^ 64"
  shows "\<exists>bm'. move_bit_range_forward b bm src dst n = Inr bm' \<and>
    bit_capacity bm' = bit_capacity bm \<and>
    (\<forall>k. k \<in> used bm' \<longleftrightarrow>
       (if dst \<le> k \<and> k < dst + n then src + (k - dst) \<in> used bm else k \<in> used bm))"
  using move_bit_range_forward_ok [OF assms, of b] by auto

theorem move_bit_range_forward_moves_witness:
  "\<exists>bm'. move_bit_range_forward Dev \<lparr>bitmap = [7, 0]\<rparr> 0 2 4 = Inr bm' \<and> bit_capacity bm' = 128 \<and>
    (\<forall>k. k \<in> used bm' \<longleftrightarrow>
       (if 2 \<le> k \<and> k < 6 then 0 + (k - 2) \<in> used \<lparr>bitmap = [7, 0]\<rparr> else k \<in> used \<lparr>bitmap = [7, 0]\<rparr>))"
  using move_bit_range_forward_moves [of 0 2 4 "\<lparr>bitmap = [7, 0]\<rparr>" Dev] by (simp add: bit_capacity_def)

text \<open>
  The iterator yields one item per page of the bitmap, in order, true exactly for the
  allocated pages, and then ends.
\<close>

theorem iterator_yields_bits:
  "iterator_collect (bitmap_iter bm) = map (\<lambda>i. i \<in> used bm) [0..<bit_capacity bm]"
  by (subst iterator_collect_from [of _ bm]) (simp_all add: bitmap_iter_def in_used_iff)

end
