(* ===== verification/Phys_Addr.thy ===== *)
theory Phys_Addr
  imports Prelude
begin

text \<open>
  Physical addresses and their windows in the kernel's address space: \<open>PhyAddr\<close> and \<open>PhySlice\<close> of
  \<open>src/kernel/src/page_alloc.rs\<close>. The kernel reaches physical address \<open>p\<close> as ordinary memory at
  \<open>virt p\<close> and as device memory at \<open>virt_dev p\<close>. A \<open>PhyAddr\<close> is the address it wraps; a slice
  reference is the pair of its start and its length.
\<close>

section \<open>Definitions\<close>

definition PAGE_SIZE :: usize where
  "PAGE_SIZE = 4096"

type_synonym PhyAddr = usize

definition from_virt :: "usize \<Rightarrow> PhyAddr" where
  "from_virt addr = addr AND 0x000000ffffffffff"

definition virt :: "PhyAddr \<Rightarrow> usize" where
  "virt self = self OR 0xffffff0000000000"

definition virt_mut :: "PhyAddr \<Rightarrow> usize" where
  "virt_mut self = self OR 0xffffff0000000000"

definition virt_dev :: "PhyAddr \<Rightarrow> usize" where
  "virt_dev self = self OR 0xffffff8000000000"

definition virt_dev_mut :: "PhyAddr \<Rightarrow> usize" where
  "virt_dev_mut self = self OR 0xffffff8000000000"

record PhySlice =
  base :: PhyAddr
  slice_len :: usize

definition slice_virt :: "PhySlice \<Rightarrow> usize \<times> usize" where
  "slice_virt self = (virt (base self), slice_len self)"

definition slice_virt_mut :: "PhySlice \<Rightarrow> usize \<times> usize" where
  "slice_virt_mut self = (virt_mut (base self), slice_len self)"

definition slice_virt_dev :: "PhySlice \<Rightarrow> usize \<times> usize" where
  "slice_virt_dev self = (virt_dev (base self), slice_len self)"

definition slice_virt_dev_mut :: "PhySlice \<Rightarrow> usize \<times> usize" where
  "slice_virt_dev_mut self = (virt_dev_mut (base self), slice_len self)"

section \<open>The windows as arithmetic\<close>

lemma from_virt_mod: "from_virt a = a mod 2 ^ 40"
proof -
  have "(0x000000ffffffffff :: nat) = mask 40" by (simp add: mask_numeral)
  then show ?thesis
    unfolding from_virt_def by (simp only: take_bit_eq_mod flip: take_bit_eq_mask)
qed

text \<open>Setting the bits of a window \<open>w * 2 ^ n\<close> on an address below \<open>2 ^ n\<close> adds the window.\<close>

lemma or_window:
  fixes p w :: nat
  assumes "p < 2 ^ n"
  shows "p OR push_bit n w = p + push_bit n w"
proof -
  have "p AND push_bit n w = 0"
    using assms by (auto simp: bit_eq_iff bit_and_iff bit_push_bit_iff)
      (metis bit_take_bit_iff linorder_not_less take_bit_nat_eq_self)
  then show ?thesis by (simp add: disjunctive_add_eq_or)
qed

lemma window_consts:
  "(0xffffff0000000000 :: nat) = push_bit 40 0xffffff"
  "(0xffffff8000000000 :: nat) = push_bit 39 0x1ffffff"
  by simp_all

lemma virt_add: "p < 2 ^ 40 \<Longrightarrow> virt p = p + 0xffffff0000000000"
  using or_window [of p 40 "0xffffff"] by (simp add: virt_def)

lemma virt_dev_add: "p < 2 ^ 39 \<Longrightarrow> virt_dev p = p + 0xffffff8000000000"
  using or_window [of p 39 "0x1ffffff"] by (simp add: virt_dev_def)

lemma virt_mut_eq [simp]: "virt_mut = virt" "virt_dev_mut = virt_dev"
  by (simp_all add: fun_eq_iff virt_def virt_mut_def virt_dev_def virt_dev_mut_def)

lemma window_mod:
  fixes p q :: nat
  shows "p < 2 ^ 40 \<Longrightarrow> (p + 0xffffff0000000000) mod 2 ^ 40 = p"
    and "q < 2 ^ 39 \<Longrightarrow> (q + 0xffffff8000000000) mod 2 ^ 40 = q + 2 ^ 39"
  using mod_mult_self1 [of p "0xffffff" "2 ^ 40"] mod_mult_self1 [of "q + 2 ^ 39" "0xffffff" "2 ^ 40"]
  by (simp_all add: add.commute)

lemma from_virt_virt: "p < 2 ^ 40 \<Longrightarrow> from_virt (virt p) = p"
  by (simp only: virt_add from_virt_mod window_mod)

lemma virt_from_virt:
  "0xffffff0000000000 \<le> a \<Longrightarrow> a < 2 ^ 64 \<Longrightarrow> virt (from_virt a) = a"
proof -
  assume a: "0xffffff0000000000 \<le> a" "a < 2 ^ 64"
  define p where "p = a - 0xffffff0000000000"
  have "a = p + 0xffffff0000000000" "p < 2 ^ 40" using a by (simp_all add: p_def)
  then show ?thesis by (simp only: from_virt_mod virt_add window_mod)
qed

section \<open>Properties\<close>

text \<open>
  The two conversions between kernel pointers and physical addresses are inverse: every
  physical address below 1 TiB is recovered from its ordinary window, every pointer into that
  window from its physical address, and both windows keep distinct addresses distinct. The device
  window of an address below 512 GiB never coincides with the ordinary window of another.
\<close>

theorem phys_virt_roundtrip:
  assumes "p < 2 ^ 40" and "0xffffff0000000000 \<le> a" and "a < 2 ^ 64"
    and "q < 2 ^ 39" and "r < 2 ^ 39"
  shows "from_virt (virt p) = p \<and> virt (from_virt a) = a \<and> from_virt a < 2 ^ 40 \<and>
    virt p < 2 ^ 64 \<and> from_virt (virt_dev q) = q + 2 ^ 39 \<and> virt_dev q \<noteq> virt r"
proof (intro conjI)
  show "from_virt (virt p) = p" "virt (from_virt a) = a"
    using assms(1-3) by (simp_all only: from_virt_virt virt_from_virt)
  show "from_virt a < 2 ^ 40" by (simp add: from_virt_mod)
  show "virt p < 2 ^ 64" using assms(1) by (simp add: virt_add)
  show "from_virt (virt_dev q) = q + 2 ^ 39"
    using assms(4) by (simp only: virt_dev_add from_virt_mod window_mod)
  show "virt_dev q \<noteq> virt r" using assms(4,5) by (simp add: virt_dev_add virt_add)
qed

theorem phys_virt_roundtrip_witness:
  "from_virt (virt 0x40100000) = 0x40100000 \<and>
   virt (from_virt 0xffffff0040000000) = 0xffffff0040000000 \<and>
   virt_dev 0x8000000 \<noteq> virt 0x40100000"
  using phys_virt_roundtrip [of "0x40100000" "0xffffff0040000000" "0x8000000" "0x40100000"] by simp

end
