(* ===== verification/Page_Alloc.thy ===== *)
theory Page_Alloc
  imports Page_Bitmap Phys_Addr
begin

text \<open>
  The page allocator \<open>BitmapPageAlloc<SIZE>\<close> of \<open>src/kernel/src/page_alloc.rs\<close>: a bitmap and the
  address of the page its bit 0 stands for. The log lines of the \<open>log_alloc\<close> feature, which is off
  by default, are not modelled.
\<close>

section \<open>The allocator\<close>

definition PAGE_ALLOC_CELLS :: usize where
  "PAGE_ALLOC_CELLS = 1024"

definition PAGE_ALLOC_PAGES :: usize where
  "PAGE_ALLOC_PAGES = PAGE_ALLOC_CELLS * 64"

record PageSlice =
  buf :: usize
  len :: usize

record BitmapPageAlloc =
  bitmap_alloc :: Bitmap
  ram_base :: usize

definition page_alloc_new :: "nat \<Rightarrow> usize \<Rightarrow> BitmapPageAlloc" where
  "page_alloc_new SIZE base_addr = \<lparr>bitmap_alloc = bitmap_new SIZE, ram_base = base_addr\<rparr>"

definition pa_alloc ::
  "profile \<Rightarrow> BitmapPageAlloc \<Rightarrow> usize \<Rightarrow> (PageSlice option \<times> BitmapPageAlloc) res" where
  "pa_alloc b self page_count =
     bnd (bitmap_alloc_pages b (bitmap_alloc self) page_count) (\<lambda>(r, bm).
     let self = self\<lparr>bitmap_alloc := bm\<rparr> in
     case r of
       Some page_num \<Rightarrow>
         bnd (usize_mul b page_num PAGE_SIZE) (\<lambda>off.
         bnd (usize_add b (ram_base self) off) (\<lambda>addr.
         bnd (usize_mul b page_count PAGE_SIZE) (\<lambda>size.
         Inr (Some \<lparr>buf = addr, len = size\<rparr>, self))))
     | None \<Rightarrow> Inr (None, self))"

text \<open>
  The three \<open>debug_assert!\<close>s \<open>mark_allocated\<close> and \<open>free\<close> open with. The sums of the third are
  evaluated only where the assertion is.
\<close>

definition addr_checks :: "profile \<Rightarrow> BitmapPageAlloc \<Rightarrow> usize \<Rightarrow> usize \<Rightarrow> unit res" where
  "addr_checks b self addr page_count =
     bnd (debug_assert b (addr mod PAGE_SIZE = 0) ''addr must be page-aligned'') (\<lambda>_.
     bnd (debug_assert b (addr \<ge> ram_base self) ''addr was before RAM'') (\<lambda>_.
     if b = Dev then
       bnd (usize_mul b page_count PAGE_SIZE) (\<lambda>size.
       bnd (usize_add b addr size) (\<lambda>end_addr.
       bnd (usize_mul b (bit_capacity (bitmap_alloc self)) PAGE_SIZE) (\<lambda>ram_size.
       bnd (usize_add b (ram_base self) ram_size) (\<lambda>ram_end.
       debug_assert b (end_addr \<le> ram_end) ''(addr + count) was after RAM''))))
     else Inr ()))"

definition pa_mark_allocated ::
  "profile \<Rightarrow> BitmapPageAlloc \<Rightarrow> usize \<Rightarrow> usize \<Rightarrow> BitmapPageAlloc res" where
  "pa_mark_allocated b self addr page_count =
     bnd (addr_checks b self addr page_count) (\<lambda>_.
     bnd (usize_sub b addr (ram_base self)) (\<lambda>d.
     bnd (bitmap_mark_allocated b (bitmap_alloc self) (d div 4096) page_count) (\<lambda>bm.
     Inr (self\<lparr>bitmap_alloc := bm\<rparr>))))"

definition pa_free ::
  "profile \<Rightarrow> BitmapPageAlloc \<Rightarrow> usize \<Rightarrow> usize \<Rightarrow> BitmapPageAlloc res" where
  "pa_free b self addr page_count =
     bnd (addr_checks b self addr page_count) (\<lambda>_.
     bnd (usize_sub b addr (ram_base self)) (\<lambda>d.
     bnd (bitmap_free b (bitmap_alloc self) (d div 4096) page_count) (\<lambda>bm.
     Inr (self\<lparr>bitmap_alloc := bm\<rparr>))))"

definition rebase :: "usize \<Rightarrow> BitmapPageAlloc \<Rightarrow> BitmapPageAlloc" where
  "rebase new_base self = self\<lparr>ram_base := new_base\<rparr>"

definition expand_to ::
  "profile \<Rightarrow> BitmapPageAlloc \<Rightarrow> usize \<Rightarrow> usize \<Rightarrow> usize \<Rightarrow> BitmapPageAlloc res" where
  "expand_to b self new_base new_len prev_len =
     bnd (assert (ram_base self mod PAGE_SIZE = 0) ''ram_base is not aligned'') (\<lambda>_.
     bnd (assert (new_base mod PAGE_SIZE = 0) ''new_base is not aligned'') (\<lambda>_.
     bnd (assert (new_len mod PAGE_SIZE = 0) ''new_len is not aligned'') (\<lambda>_.
     bnd (assert (prev_len mod PAGE_SIZE = 0) ''prev_len is not aligned'') (\<lambda>_.
     bnd (assert (new_base \<le> ram_base self) ''new ram region must contain old ram region'') (\<lambda>_.
     bnd (usize_add b new_base new_len) (\<lambda>new_end.
     bnd (usize_add b (ram_base self) prev_len) (\<lambda>prev_end.
     bnd (assert (new_end \<ge> prev_end) ''new ram region must contain old ram region'') (\<lambda>_.
     bnd (usize_sub b (ram_base self) new_base) (\<lambda>addr_delta.
     bnd (move_bit_range_forward b (bitmap_alloc self) 0 (addr_delta div PAGE_SIZE)
            (prev_len div PAGE_SIZE)) (\<lambda>bm.
     bnd (zero_bit_range b bm 0 (addr_delta div PAGE_SIZE)) (\<lambda>bm.
     bnd (usize_add b addr_delta prev_len) (\<lambda>tail_start.
     bnd (usize_sub b new_len prev_len) (\<lambda>l.
     bnd (usize_sub b l addr_delta) (\<lambda>tail_len.
     bnd (zero_bit_range b bm (tail_start div PAGE_SIZE) (tail_len div PAGE_SIZE)) (\<lambda>bm.
     Inr (rebase new_base (self\<lparr>bitmap_alloc := bm\<rparr>)))))))))))))))))"

section \<open>Abstraction: allocated page addresses\<close>

definition page_addr :: "BitmapPageAlloc \<Rightarrow> nat \<Rightarrow> usize" where
  "page_addr pa i = ram_base pa + i * 4096"

definition taken :: "BitmapPageAlloc \<Rightarrow> usize set" where
  "taken pa = page_addr pa ` used (bitmap_alloc pa)"

definition pa_capacity :: "BitmapPageAlloc \<Rightarrow> nat" where
  "pa_capacity pa = bit_capacity (bitmap_alloc pa)"

text \<open>The window of the allocator is page-aligned and ends below the top of the address space.\<close>

definition pa_inv :: "BitmapPageAlloc \<Rightarrow> bool" where
  "pa_inv pa \<longleftrightarrow> ram_base pa mod 4096 = 0 \<and> ram_base pa + pa_capacity pa * 4096 < 2 ^ 64"

text \<open>The page addresses of a run of \<open>n\<close> pages.\<close>

definition pages_at :: "usize \<Rightarrow> nat \<Rightarrow> usize set" where
  "pages_at addr n = (\<lambda>i. addr + i * 4096) ` {..<n}"

definition in_window :: "BitmapPageAlloc \<Rightarrow> usize \<Rightarrow> nat \<Rightarrow> bool" where
  "in_window pa addr n \<longleftrightarrow> addr mod 4096 = 0 \<and> ram_base pa \<le> addr \<and>
     addr + n * 4096 \<le> ram_base pa + pa_capacity pa * 4096"

definition slice_pages :: "PageSlice \<Rightarrow> usize set" where
  "slice_pages sl = pages_at (buf sl) (len sl div 4096)"

definition apart :: "PageSlice \<Rightarrow> PageSlice \<Rightarrow> bool" where
  "apart s t \<longleftrightarrow> slice_pages s \<inter> slice_pages t = {}"

text \<open>
  The life of the allocator: slices are allocated and dropped in any order. The state is the
  allocator and the slices alive; dropping a slice frees \<open>len / 4096\<close> pages from its address on,
  as \<open>PageSlice::drop\<close> does.
\<close>

inductive heap_step ::
  "profile \<Rightarrow> BitmapPageAlloc \<times> PageSlice list \<Rightarrow> BitmapPageAlloc \<times> PageSlice list \<Rightarrow> bool" for b where
  step_alloc: "pa_alloc b pa n = Inr (Some sl, pa') \<Longrightarrow> heap_step b (pa, live) (pa', sl # live)"
| step_oom: "pa_alloc b pa n = Inr (None, pa') \<Longrightarrow> heap_step b (pa, live) (pa', live)"
| step_drop: "pa_free b pa (buf sl) (len sl div 4096) = Inr pa' \<Longrightarrow>
    heap_step b (pa, xs @ sl # ys) (pa', xs @ ys)"

section \<open>Addresses and page numbers\<close>

lemma page_addr_inj: "page_addr pa i = page_addr pa j \<longleftrightarrow> i = j"
  by (simp add: page_addr_def)

lemma page_addr_image_int: "page_addr pa ` A \<inter> page_addr pa ` B = page_addr pa ` (A \<inter> B)"
  by (auto simp: page_addr_inj)

lemma pages_at_page_addr: "pages_at (page_addr pa p) n = page_addr pa ` {p..<p + n}"
proof -
  have "{p..<p + n} = (\<lambda>i. p + i) ` {..<n}"
    by (auto simp: image_iff) (metis add.commute add_less_cancel_left le_iff_add lessThan_iff)
  then show ?thesis
    by (simp only: pages_at_def page_addr_def image_image) (simp add: algebra_simps)
qed

lemma in_pages_at: "x \<in> pages_at a n \<longleftrightarrow> (\<exists>i < n. x = a + i * 4096)"
  by (auto simp: pages_at_def)

lemma in_window_page:
  assumes "pa_inv pa" "in_window pa addr n"
  obtains p where "addr = page_addr pa p" "p + n \<le> pa_capacity pa"
    "(addr - ram_base pa) div 4096 = p"
proof -
  have "(addr - ram_base pa) mod 4096 = 0"
    using assms by (auto simp: pa_inv_def in_window_def mod_eq_0_iff_dvd)
  then obtain p where p: "addr - ram_base pa = 4096 * p" by (rule mod_eq_0E)
  with assms have "addr = page_addr pa p" by (auto simp: page_addr_def in_window_def)
  moreover from this assms have "p + n \<le> pa_capacity pa"
    by (auto simp: in_window_def page_addr_def)
  ultimately show ?thesis using p that by simp
qed

lemma page_in_window: "pa_inv pa \<Longrightarrow> p + n \<le> pa_capacity pa \<Longrightarrow> in_window pa (page_addr pa p) n"
  by (auto simp: in_window_def page_addr_def pa_inv_def mod_eq_0_iff_dvd)

lemma taken_disjoint_iff:
  "taken pa \<inter> pages_at (page_addr pa p) n = {} \<longleftrightarrow> used (bitmap_alloc pa) \<inter> {p..<p + n} = {}"
  by (simp add: taken_def pages_at_page_addr page_addr_image_int)

lemma pages_subset_iff:
  "pages_at (page_addr pa p) n \<subseteq> taken pa \<longleftrightarrow> {p..<p + n} \<subseteq> used (bitmap_alloc pa)"
  unfolding taken_def pages_at_page_addr by (auto simp: image_subset_iff image_iff page_addr_inj)

lemma update_bitmap_simps [simp]:
  "page_addr (pa\<lparr>bitmap_alloc := bm\<rparr>) = page_addr pa"
  "pa_capacity (pa\<lparr>bitmap_alloc := bm\<rparr>) = bit_capacity bm"
  by (auto simp: page_addr_def pa_capacity_def)

lemma pa_inv_update: "bit_capacity bm = pa_capacity pa \<Longrightarrow> pa_inv (pa\<lparr>bitmap_alloc := bm\<rparr>) \<longleftrightarrow> pa_inv pa"
  by (simp add: pa_inv_def)

text \<open>Two page runs that share no page share no byte.\<close>

lemma pages_disjoint_bytes:
  assumes "a mod 4096 = 0" "c mod 4096 = 0" "pages_at a n \<inter> pages_at c k = {}"
  shows "{a..<a + n * 4096} \<inter> {c..<c + k * 4096} = {}"
proof -
  from assms(1,2) obtain p q where p: "a = 4096 * p" and q: "c = 4096 * q" by (elim mod_eq_0E)
  have "False" if x: "x \<in> {a..<a + n * 4096} \<inter> {c..<c + k * 4096}" for x
  proof -
    define y where "y = x div 4096"
    have "p \<le> y" "y < p + n" "q \<le> y" "y < q + k"
      using x unfolding p q y_def
      by (auto simp: less_eq_div_iff_mult_less_eq div_less_iff_less_mult algebra_simps)
    then have "y - p < n \<and> 4096 * y = a + (y - p) * 4096" "y - q < k \<and> 4096 * y = c + (y - q) * 4096"
      by (auto simp: p q diff_mult_distrib)
    then have "4096 * y \<in> pages_at a n" "4096 * y \<in> pages_at c k"
      unfolding in_pages_at by blast+
    with assms(3) show False by blast
  qed
  then show ?thesis by blast
qed

section \<open>Allocation and release by address\<close>

lemma addr_checks_ok: "pa_inv pa \<Longrightarrow> in_window pa addr n \<Longrightarrow> addr_checks b pa addr n = Inr ()"
  by (cases b)
    (auto simp: addr_checks_def pa_inv_def in_window_def PAGE_SIZE_def pa_capacity_def usize_simps)

lemma pa_mark_allocated_ok:
  assumes inv: "pa_inv pa" and win: "in_window pa addr n"
    and free: "b = Release \<or> taken pa \<inter> pages_at addr n = {}"
  shows "\<exists>pa'. pa_mark_allocated b pa addr n = Inr pa' \<and> pa_inv pa' \<and> ram_base pa' = ram_base pa \<and>
    pa_capacity pa' = pa_capacity pa \<and> taken pa' = taken pa \<union> pages_at addr n"
proof -
  from in_window_page [OF inv win] obtain p where
    p: "addr = page_addr pa p" "p + n \<le> pa_capacity pa" "(addr - ram_base pa) div 4096 = p" .
  let ?bm = "put_range (bitmap_alloc pa) p n True"
  have "bitmap_mark_allocated b (bitmap_alloc pa) p n = Inr ?bm"
    using p(2) free by (intro mark_allocated_ok) (auto simp: pa_capacity_def p(1) taken_disjoint_iff)
  then have "pa_mark_allocated b pa addr n = Inr (pa\<lparr>bitmap_alloc := ?bm\<rparr>)"
    using win p(3) by (simp add: pa_mark_allocated_def addr_checks_ok [OF inv win] usize_simps in_window_def)
  moreover have "taken (pa\<lparr>bitmap_alloc := ?bm\<rparr>) = taken pa \<union> pages_at addr n"
    using p by (simp add: taken_def used_put_range pa_capacity_def pages_at_page_addr image_Un)
  ultimately show ?thesis using inv by (simp add: pa_inv_update pa_capacity_def)
qed

lemma pa_free_ok:
  assumes inv: "pa_inv pa" and win: "in_window pa addr n"
    and owned: "b = Release \<or> pages_at addr n \<subseteq> taken pa"
  shows "\<exists>pa'. pa_free b pa addr n = Inr pa' \<and> pa_inv pa' \<and> ram_base pa' = ram_base pa \<and>
    pa_capacity pa' = pa_capacity pa \<and> taken pa' = taken pa - pages_at addr n"
proof -
  from in_window_page [OF inv win] obtain p where
    p: "addr = page_addr pa p" "p + n \<le> pa_capacity pa" "(addr - ram_base pa) div 4096 = p" .
  let ?bm = "put_range (bitmap_alloc pa) p n False"
  have "bitmap_free b (bitmap_alloc pa) p n = Inr ?bm"
    using p(2) owned by (intro free_ok) (auto simp: pa_capacity_def p(1) pages_subset_iff)
  then have "pa_free b pa addr n = Inr (pa\<lparr>bitmap_alloc := ?bm\<rparr>)"
    using win p(3) by (simp add: pa_free_def addr_checks_ok [OF inv win] usize_simps in_window_def)
  moreover have "taken (pa\<lparr>bitmap_alloc := ?bm\<rparr>) = taken pa - pages_at addr n"
    using p by (simp add: taken_def used_put_range pa_capacity_def pages_at_page_addr
        image_set_diff inj_def page_addr_inj)
  ultimately show ?thesis using inv by (simp add: pa_inv_update pa_capacity_def)
qed

lemma pa_alloc_cases:
  assumes inv: "pa_inv pa"
  shows "\<exists>r pa'. pa_alloc b pa n = Inr (r, pa') \<and> pa_inv pa' \<and> ram_base pa' = ram_base pa \<and>
    pa_capacity pa' = pa_capacity pa \<and>
    (case r of
       None \<Rightarrow> pa' = pa \<and> (n = 0 \<or> (\<forall>a. in_window pa a n \<longrightarrow> taken pa \<inter> pages_at a n \<noteq> {}))
     | Some sl \<Rightarrow> 0 < n \<and> len sl = n * 4096 \<and> in_window pa (buf sl) n \<and>
         taken pa \<inter> pages_at (buf sl) n = {} \<and> taken pa' = taken pa \<union> pages_at (buf sl) n)"
proof -
  obtain r bm' where r: "bitmap_alloc_pages b (bitmap_alloc pa) n = Inr (r, bm')"
    using bm.alloc_total [of b "bitmap_alloc pa" n] by auto
  show ?thesis
  proof (cases r)
    case None
    with r have bm': "bm' = bitmap_alloc pa"
      and no: "n = 0 \<or> (\<forall>p. p + n \<le> pa_capacity pa \<longrightarrow> used (bitmap_alloc pa) \<inter> {p..<p + n} \<noteq> {})"
      using bm.alloc_None by (auto simp: pa_capacity_def)
    have "taken pa \<inter> pages_at a n \<noteq> {}" if "n \<noteq> 0" "in_window pa a n" for a
      using in_window_page [OF inv that(2)] no that(1) by (metis taken_disjoint_iff)
    with None r bm' inv show ?thesis by (auto simp: pa_alloc_def)
  next
    case (Some p)
    with r have a: "0 < n" "p + n \<le> pa_capacity pa" "used (bitmap_alloc pa) \<inter> {p..<p + n} = {}"
      "bit_capacity bm' = pa_capacity pa" "used bm' = used (bitmap_alloc pa) \<union> {p..<p + n}"
      using bm.alloc_Some [of b "bitmap_alloc pa" n p bm'] by (simp_all add: pa_capacity_def)
    have "p * 4096 < 2 ^ 64" "ram_base pa + p * 4096 < 2 ^ 64" "n * 4096 < 2 ^ 64"
      using inv a(1,2) by (auto simp: pa_inv_def)
    then have "pa_alloc b pa n =
        Inr (Some \<lparr>buf = page_addr pa p, len = n * 4096\<rparr>, pa\<lparr>bitmap_alloc := bm'\<rparr>)"
      using r Some by (simp add: pa_alloc_def usize_simps PAGE_SIZE_def page_addr_def)
    with a inv show ?thesis
      by (simp add: pa_inv_update page_in_window taken_disjoint_iff)
        (simp add: taken_def pages_at_page_addr image_Un)
  qed
qed

text \<open>Allocation takes the lowest pages it can.\<close>

lemma pa_alloc_lowest:
  assumes inv: "pa_inv pa" and ret: "pa_alloc b pa n = Inr (Some sl, pa')"
    and a: "in_window pa a n" "taken pa \<inter> pages_at a n = {}"
  shows "buf sl \<le> a"
proof -
  from in_window_page [OF inv a(1)] obtain q where q: "a = page_addr pa q" "q + n \<le> pa_capacity pa" .
  from ret obtain p bm' where p: "bitmap_alloc_pages b (bitmap_alloc pa) n = Inr (Some p, bm')"
    by (auto simp: pa_alloc_def returns_iff Let_def split: option.splits)
  have n: "0 < n" "p + n \<le> pa_capacity pa" using bm.alloc_Some [OF p] by (simp_all add: pa_capacity_def)
  have "p * 4096 < 2 ^ 64" "ram_base pa + p * 4096 < 2 ^ 64" "n * 4096 < 2 ^ 64"
    using inv n by (auto simp: pa_inv_def)
  then have "buf sl = page_addr pa p"
    using ret p by (auto simp: pa_alloc_def usize_simps PAGE_SIZE_def page_addr_def)
  moreover have "bitmap_find_hole (bitmap_alloc pa) n = Some p"
    using p by (auto simp: alloc_pages_eq split: option.splits)
  with find_hole_scan [OF n(1), of "bitmap_alloc pa"] have "\<forall>r < p. \<not> is_hole (bitmap_alloc pa) r n" by simp
  then have "p \<le> q" using q a(2) by (auto simp: is_hole_def pa_capacity_def taken_disjoint_iff not_le [symmetric])
  ultimately show ?thesis using q(1) by (simp add: page_addr_def)
qed

section \<open>Owning page slices\<close>

text \<open>
  The contract of a page allocator towards the owners of its slices: allocation hands out pages
  nobody owns, and a release of owned pages goes through and gives back just them.
\<close>

locale page_allocator =
  fixes inv :: "'h \<Rightarrow> bool" and owned :: "'h \<Rightarrow> usize set"
    and alloc :: "'h \<Rightarrow> nat \<Rightarrow> (PageSlice option \<times> 'h) res"
    and release :: "'h \<Rightarrow> usize \<Rightarrow> nat \<Rightarrow> 'h res"
    and inside :: "'h \<Rightarrow> usize \<Rightarrow> nat \<Rightarrow> bool"
  assumes alloc_gives: "inv h \<Longrightarrow> alloc h n = Inr (Some sl, h') \<Longrightarrow>
      inv h' \<and> len sl = n * 4096 \<and> buf sl mod 4096 = 0 \<and> inside h' (buf sl) n \<and>
      owned h \<inter> pages_at (buf sl) n = {} \<and> owned h' = owned h \<union> pages_at (buf sl) n"
    and alloc_keeps_inside: "alloc h n = Inr (r, h') \<Longrightarrow> inv h \<Longrightarrow> inside h a k \<Longrightarrow> inside h' a k"
    and release_takes: "inv h \<Longrightarrow> inside h a n \<Longrightarrow> pages_at a n \<subseteq> owned h \<Longrightarrow>
      \<exists>h'. release h a n = Inr h' \<and> inv h' \<and> owned h' = owned h - pages_at a n \<and>
        (\<forall>c k. inside h c k \<longrightarrow> inside h' c k)"
begin

text \<open>What holds of the slices that are alive: they are owned, inside, and share no page.\<close>

definition live_ok :: "'h \<Rightarrow> PageSlice list \<Rightarrow> bool" where
  "live_ok h live \<longleftrightarrow> inv h \<and> sorted_wrt apart live \<and>
     (\<forall>sl \<in> set live. buf sl mod 4096 = 0 \<and> len sl mod 4096 = 0 \<and>
        inside h (buf sl) (len sl div 4096) \<and> slice_pages sl \<subseteq> owned h)"

lemma live_ok_alloc:
  assumes "live_ok h live" and "alloc h n = Inr (Some sl, h')"
  shows "live_ok h' (sl # live)"
proof -
  from assms(1) have "inv h" by (simp add: live_ok_def)
  note a = alloc_gives [OF this assms(2)] and k = alloc_keeps_inside [OF assms(2) \<open>inv h\<close>]
  show ?thesis
    using assms(1) a k unfolding live_ok_def by (fastforce simp: slice_pages_def apart_def)
qed

lemma live_ok_release:
  assumes "live_ok h (xs @ sl # ys)" and "release h (buf sl) (len sl div 4096) = Inr h'"
  shows "live_ok h' (xs @ ys)"
proof -
  from assms(1) have sl: "inv h" "inside h (buf sl) (len sl div 4096)"
    "pages_at (buf sl) (len sl div 4096) \<subseteq> owned h"
    by (simp_all add: live_ok_def slice_pages_def)
  from release_takes [OF this] assms(2) have h': "inv h'" "owned h' = owned h - slice_pages sl"
    "\<forall>c k. inside h c k \<longrightarrow> inside h' c k"
    by (auto simp: slice_pages_def)
  have "apart t sl" if "t \<in> set (xs @ ys)" for t
    using assms(1) that by (auto simp: live_ok_def sorted_wrt_append apart_def)
  moreover from this assms(1) h'(2) have "slice_pages t \<subseteq> owned h'" if "t \<in> set (xs @ ys)" for t
    using that by (auto simp: live_ok_def apart_def disjoint_iff)
  ultimately show ?thesis
    using assms(1) h' by (auto simp: live_ok_def sorted_wrt_append)
qed

lemma live_release_succeeds:
  assumes "live_ok h live" and "sl \<in> set live"
  shows "\<exists>h'. release h (buf sl) (len sl div 4096) = Inr h'"
  using assms release_takes by (fastforce simp: live_ok_def slice_pages_def)

lemma live_disjoint_bytes:
  assumes "live_ok h live" and "i < j" and "j < length live"
  shows "{buf (live ! i)..<buf (live ! i) + len (live ! i)} \<inter>
    {buf (live ! j)..<buf (live ! j) + len (live ! j)} = {}"
proof -
  have "apart (live ! i) (live ! j)"
    using assms by (auto simp: live_ok_def sorted_wrt_iff_nth_less)
  moreover have "live ! i \<in> set live" "live ! j \<in> set live" using assms by auto
  ultimately show ?thesis
    using assms(1) pages_disjoint_bytes [of "buf (live ! i)" "buf (live ! j)"
        "len (live ! i) div 4096" "len (live ! j) div 4096"]
    by (auto simp: live_ok_def apart_def slice_pages_def minus_mod_eq_div_mult [symmetric])
qed

end

lemma in_window_same:
  "ram_base pa' = ram_base pa \<Longrightarrow> pa_capacity pa' = pa_capacity pa \<Longrightarrow> in_window pa' = in_window pa"
  by (auto simp: fun_eq_iff in_window_def)

interpretation pages: page_allocator pa_inv taken "pa_alloc b" "pa_free b" in_window for b
proof
  show "pa_inv h' \<and> len sl = n * 4096 \<and> buf sl mod 4096 = 0 \<and> in_window h' (buf sl) n \<and>
      taken h \<inter> pages_at (buf sl) n = {} \<and> taken h' = taken h \<union> pages_at (buf sl) n"
    if "pa_inv h" "pa_alloc b h n = Inr (Some sl, h')" for h n sl h'
    using pa_alloc_cases [OF that(1), of b n] that(2) by (auto simp: in_window_def)
  show "in_window h' a k"
    if "pa_alloc b h n = Inr (r, h')" "pa_inv h" "in_window h a k" for h n r h' a k
    using pa_alloc_cases [OF that(2), of b n] that(1,3) in_window_same [of h' h] by auto
  show "\<exists>h'. pa_free b h a n = Inr h' \<and> pa_inv h' \<and> taken h' = taken h - pages_at a n \<and>
      (\<forall>c k. in_window h c k \<longrightarrow> in_window h' c k)"
    if "pa_inv h" "in_window h a n" "pages_at a n \<subseteq> taken h" for h a n
    using pa_free_ok [OF that(1,2), of b] that(3) in_window_same by metis
qed

lemma heap_step_live_ok:
  assumes "heap_step b c d" and "pages.live_ok (fst c) (snd c)"
  shows "pages.live_ok (fst d) (snd d)"
  using assms
proof (induction rule: heap_step.induct)
  case (step_oom pa n pa' live)
  then have "pa' = pa"
    using pa_alloc_cases [of pa b n] by (auto simp: pages.live_ok_def)
  with step_oom show ?case by simp
qed (auto intro: pages.live_ok_alloc pages.live_ok_release)

lemma heap_run_live_ok:
  assumes "(heap_step b)\<^sup>*\<^sup>* c d" and "pages.live_ok (fst c) (snd c)"
  shows "pages.live_ok (fst d) (snd d)"
  using assms by (induction rule: rtranclp_induct) (auto intro: heap_step_live_ok)

section \<open>Growing the window\<close>

text \<open>The pages of the old region keep their state; the rest of the new region becomes free.\<close>

lemma expand_to_ok:
  assumes inv: "pa_inv pa" and base: "new_base = ram_base pa - delta * 4096" "delta * 4096 \<le> ram_base pa"
    and fits: "delta + P \<le> L" "L \<le> pa_capacity pa"
  shows "\<exists>bm'. expand_to b pa new_base (L * 4096) (P * 4096) =
      Inr \<lparr>bitmap_alloc = bm', ram_base = new_base\<rparr> \<and> bit_capacity bm' = pa_capacity pa \<and>
    used bm' = (\<lambda>i. i + delta) ` (used (bitmap_alloc pa) \<inter> {..<P}) \<union>
      (used (bitmap_alloc pa) \<inter> {L..})"
proof -
  let ?bm = "bitmap_alloc pa"
  have nums: "new_base mod 4096 = 0" "ram_base pa mod 4096 = 0" "new_base + L * 4096 < 2 ^ 64"
    "ram_base pa + P * 4096 < 2 ^ 64" "ram_base pa - new_base = delta * 4096" "new_base \<le> ram_base pa"
    "ram_base pa + P * 4096 \<le> new_base + L * 4096" "delta * 4096 + P * 4096 < 2 ^ 64"
    "P * 4096 \<le> L * 4096" "delta * 4096 \<le> L * 4096 - P * 4096" "L < 2 ^ 64"
    using inv base fits by (auto simp: pa_inv_def mod_eq_0_iff_dvd dvd_diff_nat)
  have cap: "L \<le> bit_capacity ?bm" using fits by (simp add: pa_capacity_def)
  obtain m1 where m1: "move_bit_range_forward b ?bm 0 delta P = Inr m1"
    "bit_capacity m1 = bit_capacity ?bm"
    "used m1 = (used ?bm - {delta..<delta + P}) \<union> {k \<in> {delta..<delta + P}. k - delta \<in> used ?bm}"
    using move_bit_range_forward_ok [of 0 delta P ?bm b] fits(1) cap nums(11) by auto
  obtain m2 where m2: "zero_bit_range b m1 0 delta = Inr m2" "bit_capacity m2 = bit_capacity ?bm"
    "used m2 = used m1 - {0..<delta}"
    using zero_bit_range_ok [of 0 delta m1 b] fits(1) cap nums(11) m1(2) by auto
  obtain m3 where m3: "zero_bit_range b m2 (delta + P) (L - P - delta) = Inr m3"
    "bit_capacity m3 = bit_capacity ?bm" "used m3 = used m2 - {delta + P..<L}"
    using zero_bit_range_ok [of "delta + P" "L - P - delta" m2 b] fits(1) cap nums(11) m2(2) by auto
  have divs: "(delta * 4096 + P * 4096) div 4096 = delta + P"
    "(L * 4096 - (P * 4096 + delta * 4096)) div 4096 = L - (P + delta)"
    using div_mult_self_is_m [of 4096 "delta + P"] div_mult_self_is_m [of 4096 "L - (P + delta)"]
    by (simp_all add: add_mult_distrib diff_mult_distrib)
  have "expand_to b pa new_base (L * 4096) (P * 4096) = Inr \<lparr>bitmap_alloc = m3, ram_base = new_base\<rparr>"
    using m1(1) m2(1) m3(1) nums(1,2,5-7)
    by (simp add: expand_to_def PAGE_SIZE_def usize_add_in_range [OF nums(3)] rebase_def
        usize_add_in_range [OF nums(4)] usize_add_in_range [OF nums(8)] usize_sub_in_range [OF nums(6)]
        usize_sub_in_range [OF nums(9)] usize_sub_in_range [OF nums(10)] divs)
  moreover have "used m3 = (\<lambda>i. i + delta) ` (used ?bm \<inter> {..<P}) \<union> (used ?bm \<inter> {L..})"
  proof -
    have "{k \<in> {delta..<delta + P}. k - delta \<in> used ?bm} = (\<lambda>i. i + delta) ` (used ?bm \<inter> {..<P})"
      by (rule set_eqI) (auto simp: image_iff intro!: bexI [of _ "_ - delta"])
    then show ?thesis unfolding m3(3) m2(3) m1(3) using fits(1) by auto
  qed
  ultimately show ?thesis using m3(2) by (auto simp: pa_capacity_def)
qed

lemma bitmap_alloc_eqI:
  assumes "pa_capacity pa = pa_capacity pa'" "ram_base pa = ram_base pa'" "taken pa = taken pa'"
  shows "pa = (pa' :: BitmapPageAlloc)"
proof -
  have "page_addr pa = page_addr pa'" using assms(2) by (simp add: fun_eq_iff page_addr_def)
  with assms(3) have "used (bitmap_alloc pa) = used (bitmap_alloc pa')"
    by (auto simp: taken_def inj_image_eq_iff inj_def page_addr_inj)
  with assms(1) have "bitmap_alloc pa = bitmap_alloc pa'"
    by (auto simp: pa_capacity_def intro: Bitmap_eqI)
  with assms(2) show ?thesis by (cases pa; cases pa') simp
qed

text \<open>A release right after the allocation undoes it.\<close>

lemma pa_free_alloc:
  assumes "pa_inv pa" and "pa_alloc b pa n = Inr (Some sl, pa')"
  shows "pa_free b pa' (buf sl) (len sl div 4096) = Inr pa"
proof -
  from pa_alloc_cases [OF assms(1), of b n] assms(2) have a: "pa_inv pa'" "ram_base pa' = ram_base pa"
    "pa_capacity pa' = pa_capacity pa" "len sl div 4096 = n" "in_window pa (buf sl) n"
    "taken pa \<inter> pages_at (buf sl) n = {}" "taken pa' = taken pa \<union> pages_at (buf sl) n"
    by auto
  from a(5) have "in_window pa' (buf sl) n" using in_window_same [OF a(2,3)] by simp
  from pa_free_ok [OF a(1) this, of b] a(7) obtain pa'' where f: "pa_free b pa' (buf sl) n = Inr pa''"
    "ram_base pa'' = ram_base pa'" "pa_capacity pa'' = pa_capacity pa'"
    "taken pa'' = taken pa' - pages_at (buf sl) n"
    by auto
  with a have "pa'' = pa" by (intro bitmap_alloc_eqI) auto
  with f a(4) show ?thesis by simp
qed

lemma page_in_taken_iff: "page_addr pa i \<in> taken pa \<longleftrightarrow> i \<in> used (bitmap_alloc pa)"
  by (auto simp: taken_def page_addr_inj)

text \<open>The same by address.\<close>

lemma expand_to_taken:
  assumes inv: "pa_inv pa" and "new_base mod 4096 = 0" "new_base \<le> ram_base pa"
    and "ram_base pa + P * 4096 \<le> new_base + L * 4096" "L \<le> pa_capacity pa"
  shows "\<exists>pa'. expand_to b pa new_base (L * 4096) (P * 4096) = Inr pa' \<and> pa_inv pa' \<and>
    ram_base pa' = new_base \<and> pa_capacity pa' = pa_capacity pa \<and>
    taken pa' = (taken pa \<inter> {ram_base pa..<ram_base pa + P * 4096}) \<union>
      (\<lambda>i. new_base + i * 4096) ` (used (bitmap_alloc pa) \<inter> {L..})"
proof -
  have "(ram_base pa - new_base) mod 4096 = 0"
    using assms(1,2) by (auto simp: pa_inv_def mod_eq_0_iff_dvd dvd_diff_nat)
  then obtain delta where d: "ram_base pa - new_base = 4096 * delta" by (rule mod_eq_0E)
  then have rb: "ram_base pa = new_base + delta * 4096" using assms(3) by simp
  with expand_to_ok [OF inv, of new_base delta P L b] assms(4,5) obtain bm' where bm':
    "expand_to b pa new_base (L * 4096) (P * 4096) = Inr \<lparr>bitmap_alloc = bm', ram_base = new_base\<rparr>"
    "bit_capacity bm' = pa_capacity pa" and used': "used bm' =
      (\<lambda>i. i + delta) ` (used (bitmap_alloc pa) \<inter> {..<P}) \<union> (used (bitmap_alloc pa) \<inter> {L..})"
    by auto
  let ?pa' = "\<lparr>bitmap_alloc = bm', ram_base = new_base\<rparr>"
  have "page_addr ?pa' (i + delta) = page_addr pa i" for i by (simp add: page_addr_def rb)
  then have "page_addr ?pa' ` (\<lambda>i. i + delta) ` (used (bitmap_alloc pa) \<inter> {..<P}) =
      page_addr pa ` (used (bitmap_alloc pa) \<inter> {..<P})"
    by (simp add: image_image)
  also have "\<dots> = taken pa \<inter> {ram_base pa..<ram_base pa + P * 4096}"
    by (auto simp: taken_def page_addr_def)
  finally have "taken ?pa' = (taken pa \<inter> {ram_base pa..<ram_base pa + P * 4096}) \<union>
      (\<lambda>i. new_base + i * 4096) ` (used (bitmap_alloc pa) \<inter> {L..})"
    by (simp add: taken_def used' image_Un) (simp add: page_addr_def)
  moreover have "pa_inv ?pa'" "pa_capacity ?pa' = pa_capacity pa"
    using inv assms(2) rb bm'(2) by (auto simp: pa_inv_def pa_capacity_def)
  ultimately show ?thesis using bm'(1) by auto
qed

section \<open>Properties\<close>

text \<open>
  C3: page ownership is safe. Whatever sequence of allocations and drops is run, the slices alive
  never overlap in a single byte, each lies page-aligned inside the allocator's window, and
  dropping any of them succeeds: the double-free and range checks cannot fire on an owned slice.
\<close>

theorem live_slices_never_overlap:
  assumes "pa_inv pa" and "(heap_step b)\<^sup>*\<^sup>* (pa, []) (pa', live)"
  shows "(\<forall>j < length live. \<forall>i < j.
       {buf (live ! i)..<buf (live ! i) + len (live ! i)} \<inter>
       {buf (live ! j)..<buf (live ! j) + len (live ! j)} = {}) \<and>
     (\<forall>sl \<in> set live. in_window pa' (buf sl) (len sl div 4096) \<and>
       (\<exists>pa''. pa_free b pa' (buf sl) (len sl div 4096) = Inr pa''))"
proof -
  have "pages.live_ok pa []" using assms(1) by (simp add: pages.live_ok_def)
  with heap_run_live_ok [OF assms(2)] have ok: "pages.live_ok pa' live" by simp
  then show ?thesis
    using pages.live_disjoint_bytes [OF ok] pages.live_release_succeeds [OF ok]
    by (auto simp: pages.live_ok_def)
qed

theorem live_slices_never_overlap_witness:
  "\<exists>pa' s t. (heap_step Dev)\<^sup>*\<^sup>* (page_alloc_new 1 8192, []) (pa', [t, s]) \<and> len s = 8192 \<and> len t = 12288 \<and>
     {buf t..<buf t + len t} \<inter> {buf s..<buf s + len s} = {} \<and> in_window pa' (buf t) 3"
proof -
  let ?pa1 = "\<lparr>bitmap_alloc = \<lparr>bitmap = [3]\<rparr>, ram_base = 8192\<rparr>"
  let ?pa2 = "\<lparr>bitmap_alloc = \<lparr>bitmap = [31]\<rparr>, ram_base = 8192\<rparr>"
  let ?s = "\<lparr>buf = 8192, len = 8192\<rparr>" and ?t = "\<lparr>buf = 16384, len = 12288\<rparr>"
  have "pa_alloc Dev (page_alloc_new 1 8192) 2 = Inr (Some ?s, ?pa1)" by code_simp
  then have s1: "heap_step Dev (page_alloc_new 1 8192, []) (?pa1, [?s])" by (rule step_alloc)
  have "pa_alloc Dev ?pa1 3 = Inr (Some ?t, ?pa2)" by code_simp
  then have "heap_step Dev (?pa1, [?s]) (?pa2, [?t, ?s])" by (rule step_alloc)
  with s1 have run: "(heap_step Dev)\<^sup>*\<^sup>* (page_alloc_new 1 8192, []) (?pa2, [?t, ?s])"
    by (meson rtranclp.rtrancl_into_rtrancl rtranclp.rtrancl_refl)
  have "pa_inv (page_alloc_new 1 8192)" by code_simp
  from live_slices_never_overlap [OF this run] run show ?thesis
    by (intro exI [of _ ?pa2] exI [of _ ?s] exI [of _ ?t]) simp
qed

text \<open>
  C13: \<open>BitmapPageAlloc::alloc\<close> serves a request exactly when some page-aligned run of that many
  free pages lies in the window, hands out such a run and takes just those pages; it never
  panics, whichever the profile.
\<close>

theorem page_alloc_serves:
  assumes "pa_inv pa"
  shows "\<exists>r pa'. pa_alloc b pa n = Inr (r, pa') \<and> pa_inv pa' \<and>
    (r = None \<longleftrightarrow> n = 0 \<or> (\<forall>a. in_window pa a n \<longrightarrow> taken pa \<inter> pages_at a n \<noteq> {})) \<and>
    (case r of None \<Rightarrow> pa' = pa
     | Some sl \<Rightarrow> len sl = n * 4096 \<and> in_window pa (buf sl) n \<and>
         taken pa \<inter> pages_at (buf sl) n = {} \<and> taken pa' = taken pa \<union> pages_at (buf sl) n)"
proof -
  from pa_alloc_cases [OF assms, of b n] obtain r pa' where "pa_alloc b pa n = Inr (r, pa')" "pa_inv pa'"
    and "case r of
       None \<Rightarrow> pa' = pa \<and> (n = 0 \<or> (\<forall>a. in_window pa a n \<longrightarrow> taken pa \<inter> pages_at a n \<noteq> {}))
     | Some sl \<Rightarrow> 0 < n \<and> len sl = n * 4096 \<and> in_window pa (buf sl) n \<and>
         taken pa \<inter> pages_at (buf sl) n = {} \<and> taken pa' = taken pa \<union> pages_at (buf sl) n"
    by blast
  then show ?thesis by (cases r) auto
qed

theorem page_alloc_serves_witness:
  "\<exists>r pa'. pa_alloc Release (page_alloc_new 1 8192) 3 = Inr (r, pa') \<and> pa_inv pa' \<and>
    (case r of None \<Rightarrow> pa' = page_alloc_new 1 8192 | Some sl \<Rightarrow> len sl = 3 * 4096)"
proof -
  have "pa_inv (page_alloc_new 1 8192)" by code_simp
  from page_alloc_serves [OF this, of Release 3] show ?thesis by (fastforce split: option.splits)
qed

text \<open>
  Freeing a slice right after it was allocated restores the allocator to the state it had
  before, bit for bit.
\<close>

theorem alloc_free_roundtrip:
  assumes "pa_inv pa" and "pa_alloc b pa n = Inr (Some sl, pa')"
  shows "pa_free b pa' (buf sl) (len sl div 4096) = Inr pa"
  using assms by (rule pa_free_alloc)

theorem alloc_free_roundtrip_witness:
  "pa_free Dev \<lparr>bitmap_alloc = \<lparr>bitmap = [3]\<rparr>, ram_base = 8192\<rparr> 8192 2 = Inr (page_alloc_new 1 8192)"
proof -
  have "pa_alloc Dev (page_alloc_new 1 8192) 2 =
      Inr (Some \<lparr>buf = 8192, len = 8192\<rparr>, \<lparr>bitmap_alloc = \<lparr>bitmap = [3]\<rparr>, ram_base = 8192\<rparr>)"
    and "pa_inv (page_alloc_new 1 8192)"
    by code_simp+
  from alloc_free_roundtrip [OF this(2,1)] show ?thesis by simp
qed

text \<open>
  C14: \<open>expand_to\<close> grows the window to a region that contains the old one: a page of the old region
  keeps its state under its address, every other page of the new region becomes free, and the
  pages the bitmap covers beyond the new region keep the state of their bit.
\<close>

theorem expand_to_keeps_old_region:
  assumes "pa_inv pa" and "new_base mod 4096 = 0" and "new_len mod 4096 = 0" and "prev_len mod 4096 = 0"
    and "new_base \<le> ram_base pa" and "ram_base pa + prev_len \<le> new_base + new_len"
    and "new_len \<le> pa_capacity pa * 4096"
  shows "\<exists>pa'. expand_to b pa new_base new_len prev_len = Inr pa' \<and> pa_inv pa' \<and>
    ram_base pa' = new_base \<and> pa_capacity pa' = pa_capacity pa \<and>
    (\<forall>i < pa_capacity pa. page_addr pa' i \<in> taken pa' \<longleftrightarrow>
       (if ram_base pa \<le> page_addr pa' i \<and> page_addr pa' i < ram_base pa + prev_len
        then page_addr pa' i \<in> taken pa
        else new_base + new_len \<le> page_addr pa' i \<and> i \<in> used (bitmap_alloc pa)))"
proof -
  from assms(3,4) obtain L P where LP: "new_len = 4096 * L" "prev_len = 4096 * P" by (elim mod_eq_0E)
  have "L \<le> pa_capacity pa" "ram_base pa + P * 4096 \<le> new_base + L * 4096" using assms(6,7) LP by auto
  with expand_to_taken [OF assms(1,2,5), of P L b] obtain pa' where
    pa': "expand_to b pa new_base new_len prev_len = Inr pa'" "pa_inv pa'" "ram_base pa' = new_base"
    "pa_capacity pa' = pa_capacity pa" and tk: "taken pa' = (taken pa \<inter> {ram_base pa..<ram_base pa + prev_len}) \<union>
      (\<lambda>i. new_base + i * 4096) ` (used (bitmap_alloc pa) \<inter> {L..})"
    by (auto simp: LP mult.commute)
  have "page_addr pa' i \<in> (\<lambda>i. new_base + i * 4096) ` (used (bitmap_alloc pa) \<inter> {L..}) \<longleftrightarrow>
      new_base + new_len \<le> page_addr pa' i \<and> i \<in> used (bitmap_alloc pa)" for i
    by (auto simp: page_addr_def pa'(3) LP)
  moreover have "ram_base pa + prev_len \<le> new_base + new_len" by (rule assms(6))
  ultimately show ?thesis using pa' by (auto simp: tk)
qed

theorem expand_to_keeps_old_region_witness:
  "\<exists>pa'. expand_to Dev \<lparr>bitmap_alloc = \<lparr>bitmap = [0xfffffffffffffffd]\<rparr>, ram_base = 0x3000\<rparr> 0x1000 0x6000 0x2000 =
      Inr pa' \<and> ram_base pa' = 0x1000 \<and> page_addr pa' 2 \<in> taken pa' \<and> page_addr pa' 3 \<notin> taken pa' \<and>
      page_addr pa' 4 \<notin> taken pa' \<and> page_addr pa' 6 \<in> taken pa'"
proof -
  let ?pa = "\<lparr>bitmap_alloc = \<lparr>bitmap = [0xfffffffffffffffd]\<rparr>, ram_base = 0x3000\<rparr>"
  have "pa_inv ?pa" "pa_capacity ?pa = 64" by code_simp+
  with expand_to_keeps_old_region [of ?pa "0x1000" "0x6000" "0x2000" Dev] obtain pa' where
    pa': "expand_to Dev ?pa 0x1000 0x6000 0x2000 = Inr pa'" "ram_base pa' = 0x1000"
    "\<forall>i < 64. page_addr pa' i \<in> taken pa' \<longleftrightarrow>
       (if 0x3000 \<le> page_addr pa' i \<and> page_addr pa' i < 0x5000 then page_addr pa' i \<in> taken ?pa
        else 0x7000 \<le> page_addr pa' i \<and> i \<in> used (bitmap_alloc ?pa))"
    by auto
  have "0 \<in> used (bitmap_alloc ?pa)" "1 \<notin> used (bitmap_alloc ?pa)" "6 \<in> used (bitmap_alloc ?pa)"
    by (simp_all add: used_def page_used_def bit_capacity_def)
  moreover from this have "0x3000 \<in> taken ?pa" "0x4000 \<notin> taken ?pa"
    by (auto simp: taken_def page_addr_def image_iff)
  moreover have "page_addr pa' i = 0x1000 + i * 4096" for i using pa'(2) by (simp add: page_addr_def)
  ultimately show ?thesis
    using pa'(1,2) pa'(3) [rule_format, of 2] pa'(3) [rule_format, of 3] pa'(3) [rule_format, of 4]
      pa'(3) [rule_format, of 6] by simp
qed

text \<open>Moving and clearing bits keeps the number of cells, whatever the arguments.\<close>

lemma move_bit_range_capacity:
  assumes "move_bit_range_forward b bm i j n = Inr bm'"
  shows "bit_capacity bm' = bit_capacity bm"
proof (cases "i = j")
  case False
  from assms False have "foldM (\<lambda>k bm. bnd (usize_add b j k) (\<lambda>d. bnd (usize_add b i k) (\<lambda>s.
      bnd (bitmap_get bm s) (\<lambda>v. bitmap_set bm d v)))) (rev [0..<n]) bm = Inr bm'"
    by (auto simp: move_bit_range_forward_def returns_iff)
  then show ?thesis
    by (rule foldM_invariant [where P = "\<lambda>m. bit_capacity m = bit_capacity bm"]) (auto simp: returns_iff bitmap_set_def)
qed (use assms in \<open>simp add: move_bit_range_forward_def\<close>)

lemma zero_bit_range_capacity:
  assumes "zero_bit_range b bm i n = Inr bm'"
  shows "bit_capacity bm' = bit_capacity bm"
proof -
  have cell: "and_cell w c m = Inr m' \<Longrightarrow> bit_capacity m' = bit_capacity m" for w c m m' by (auto simp: and_cell_def returns_iff)
  have cells: "foldM zero_cell cs m = Inr m' \<Longrightarrow> bit_capacity m' = bit_capacity m" for cs m m'
    by (erule foldM_invariant [where P = "\<lambda>x. bit_capacity x = bit_capacity m"]) (auto simp: zero_cell_def returns_iff)
  show ?thesis using assms by (auto simp: zero_bit_range_def returns_iff Let_def split: if_splits dest!: cell cells)
qed



end
