(* ===== verification/Machine.thy ===== *)
theory Machine
  imports Prelude
begin

text \<open>
  The machine the kernel runs on, as far as the kernel code reads and writes it directly: memory
  through raw pointers, device registers, the interrupt mask register \<open>DAIF\<close>, and the base register
  and translation cache of the MMU; with it the lock built on that register, \<open>IrqMutex\<close> of \<open>src/kernel/src/aarch64/interrupts.rs\<close>.

  Memory is indexed by the pointers the kernel uses, that is by addresses in the kernel's linear
  window (theory \<open>Phys_Addr\<close>); a byte per address, words little-endian.
\<close>

section \<open>State\<close>

type_synonym memory = "usize \<Rightarrow> u8"

text \<open>An access to a device register: the address used and, for a store, the value.\<close>

datatype dev_access = W8 usize u8 | W32 usize u32 | R32 usize

record machine =
  mem :: memory
  daif :: u64
  uart0_addr :: usize \<comment> \<open>the static \<open>UART0_ADDR\<close>\<close>
  dev_writes :: "dev_access list" \<comment> \<open>all accesses to devices, oldest first\<close>
  ttbr0 :: u64 \<comment> \<open>base of the translation tables of user addresses\<close>
  tlb :: "usize \<Rightarrow> u64 option" \<comment> \<open>cached translations: user page to table entry\<close>

section \<open>Memory\<close>

text \<open>\<open>ptr.write_bytes(val, count)\<close> for a pointee type of \<open>sz\<close> bytes.\<close>

definition write_bytes :: "memory \<Rightarrow> usize \<Rightarrow> usize \<Rightarrow> u8 \<Rightarrow> usize \<Rightarrow> memory" where
  "write_bytes m dst sz val count = (\<lambda>x. if dst \<le> x \<and> x < dst + count * sz then val else m x)"

primrec read_le :: "nat \<Rightarrow> memory \<Rightarrow> usize \<Rightarrow> u64" where
  "read_le 0 m a = 0"
| "read_le (Suc k) m a = ucast (m a) OR push_bit 8 (read_le k m (a + 1))"

definition read_u64 :: "memory \<Rightarrow> usize \<Rightarrow> u64" where
  "read_u64 m a = read_le 8 m a"

definition write_u64 :: "memory \<Rightarrow> usize \<Rightarrow> u64 \<Rightarrow> memory" where
  "write_u64 m a v = (\<lambda>x. if a \<le> x \<and> x < a + 8 then ucast (drop_bit (8 * (x - a)) v) else m x)"

text \<open>\<open>copy_from_slice\<close>: the bytes \<open>bs\<close> from address \<open>a\<close> on.\<close>

definition write_slice :: "memory \<Rightarrow> usize \<Rightarrow> u8 list \<Rightarrow> memory" where
  "write_slice m a bs = (\<lambda>x. if a \<le> x \<and> x < a + length bs then bs ! (x - a) else m x)"

section \<open>The interrupt mask and the lock\<close>

text \<open>
  \<open>msr daifset, #imm\<close> and \<open>msr daifclr, #imm\<close>: the four immediate bits are the masks D, A, I, F,
  bits 9 to 6 of the register.
\<close>

definition msr_daifset :: "u64 \<Rightarrow> 'z machine_scheme \<Rightarrow> 'z machine_scheme" where
  "msr_daifset imm s = s\<lparr>daif := daif s OR push_bit 6 imm\<rparr>"

definition msr_daifclr :: "u64 \<Rightarrow> 'z machine_scheme \<Rightarrow> 'z machine_scheme" where
  "msr_daifclr imm s = s\<lparr>daif := daif s AND NOT (push_bit 6 imm)\<rparr>"

definition irq_enable :: "'z machine_scheme \<Rightarrow> 'z machine_scheme" where
  "irq_enable = msr_daifclr 2"

definition irq_disable :: "'z machine_scheme \<Rightarrow> 'z machine_scheme" where
  "irq_disable = msr_daifset 2"

record IrqGuard =
  prev_state :: u64

definition irq_lock :: "'z machine_scheme \<Rightarrow> IrqGuard \<times> 'z machine_scheme" where
  "irq_lock s = (let g = \<lparr>prev_state = daif s\<rparr> in (g, irq_disable s))"

definition guard_drop :: "IrqGuard \<Rightarrow> 'z machine_scheme \<Rightarrow> 'z machine_scheme" where
  "guard_drop self s = s\<lparr>daif := prev_state self\<rparr>"

text \<open>
  \<open>M.lock().op(...)\<close>: the guard is a temporary, so it is dropped at the end of the statement. A
  panic in \<open>op\<close> never returns (the panic handler loops), so the guard is then never dropped.
\<close>

definition with_guard ::
  "('z machine_scheme \<Rightarrow> ('a \<times> 'z machine_scheme) res) \<Rightarrow>
   'z machine_scheme \<Rightarrow> ('a \<times> 'z machine_scheme) res" where
  "with_guard op s = (let (g, s) = irq_lock s in bnd (op s) (\<lambda>(x, s). Inr (x, guard_drop g s)))"

definition irq_masked :: "'z machine_scheme \<Rightarrow> bool" where
  "irq_masked s \<longleftrightarrow> bit (daif s) 7"

text \<open>Guards taken and dropped in the order of Rust's scopes: the last one taken is dropped first.\<close>

datatype guard_op = Lock | DropGuard

primrec guard_run :: "guard_op list \<Rightarrow> machine \<times> IrqGuard list \<Rightarrow> machine \<times> IrqGuard list" where
  "guard_run [] c = c"
| "guard_run (x # xs) c = guard_run xs (case c of (s, gs) \<Rightarrow>
     (case x of
        Lock \<Rightarrow> let (g, s) = irq_lock s in (s, g # gs)
      | DropGuard \<Rightarrow> (case gs of [] \<Rightarrow> (s, []) | g # gs \<Rightarrow> (guard_drop g s, gs))))"

section \<open>Memory laws\<close>

lemma bit_read_le:
  "bit (read_le k m a) n \<longleftrightarrow> n < 64 \<and> n < 8 * k \<and> bit (m (a + n div 8)) (n mod 8)"
proof (induction k arbitrary: a n)
  case (Suc k)
  show ?case
  proof (cases "n < 8")
    case True
    then show ?thesis by (simp add: bit_or_iff bit_push_bit_iff bit_unsigned_iff)
  next
    case False
    then obtain d where n: "n = d + 8" by (metis le_add_diff_inverse2 not_less)
    have "(d + 8) div 8 = Suc (d div 8)" by simp
    then show ?thesis
      by (auto simp: n bit_or_iff bit_push_bit_iff bit_unsigned_iff Suc dest: bit_imp_le_length)
  qed
qed simp

lemma bit_read_u64: "bit (read_u64 m a) n \<longleftrightarrow> n < 64 \<and> bit (m (a + n div 8)) (n mod 8)"
  by (auto simp: read_u64_def bit_read_le)

lemma read_u64_cong: "(\<And>x. a \<le> x \<Longrightarrow> x < a + 8 \<Longrightarrow> m x = m' x) \<Longrightarrow> read_u64 m a = read_u64 m' a"
  by (rule bit_word_eqI) (simp add: bit_read_u64 less_mult_imp_div_less)

lemma read_write_same: "read_u64 (write_u64 m a v) a = v"
  by (rule bit_word_eqI)
    (simp add: bit_read_u64 write_u64_def bit_unsigned_iff bit_drop_bit_eq less_mult_imp_div_less)

lemma read_write_other:
  "a + 8 \<le> c \<or> c + 8 \<le> a \<Longrightarrow> read_u64 (write_u64 m a v) c = read_u64 m c"
  by (rule read_u64_cong) (auto simp: write_u64_def)

lemma read_zeroed:
  "dst \<le> a \<Longrightarrow> a + 8 \<le> dst + count * sz \<Longrightarrow> read_u64 (write_bytes m dst sz 0 count) a = 0"
  by (rule bit_word_eqI) (auto simp: bit_read_u64 write_bytes_def)

lemma read_fill_other:
  "dst + count * sz \<le> a \<or> a + 8 \<le> dst \<Longrightarrow>
   read_u64 (write_bytes m dst sz v count) a = read_u64 m a"
  by (rule read_u64_cong) (auto simp: write_bytes_def)

text \<open>
  The interface the page tables are built on: words in memory that do not overlap are independent.
\<close>

locale word_store =
  fixes rd :: "'m \<Rightarrow> usize \<Rightarrow> u64" and wr :: "'m \<Rightarrow> usize \<Rightarrow> u64 \<Rightarrow> 'm"
  assumes rd_wr_same: "rd (wr m a v) a = v"
    and rd_wr_other: "a + 8 \<le> c \<or> c + 8 \<le> a \<Longrightarrow> rd (wr m a v) c = rd m c"
begin

text \<open>Writing entry \<open>i\<close> of the array of words at \<open>t\<close> leaves its other entries alone.\<close>

lemma array_entry: "rd (wr m (t + 8 * i) v) (t + 8 * j) = (if j = i then v else rd m (t + 8 * j))"
proof (cases "j = i")
  case False
  then have "t + 8 * i + 8 \<le> t + 8 * j \<or> t + 8 * j + 8 \<le> t + 8 * i" by linarith
  with False show ?thesis by (simp add: rd_wr_other)
qed (simp add: rd_wr_same)

text \<open>Arrays of 512 words at different page-aligned addresses do not overlap.\<close>

lemma other_page:
  assumes "t mod 4096 = 0" "u mod 4096 = 0" "t \<noteq> u" "i < 512" "j < 512"
  shows "rd (wr m (t + 8 * i) v) (u + 8 * j) = rd m (u + 8 * j)"
proof -
  from assms(1,2) obtain p q where "t = 4096 * p" "u = 4096 * q" by (elim mod_eq_0E)
  with assms have "t + 8 * i + 8 \<le> u + 8 * j \<or> u + 8 * j + 8 \<le> t + 8 * i" by auto
  then show ?thesis by (rule rd_wr_other)
qed

end

interpretation words: word_store read_u64 write_u64
  by unfold_locales (simp_all add: read_write_same read_write_other)

section \<open>Lock laws\<close>

lemma irq_lock_daif: "snd (irq_lock s) = s\<lparr>daif := daif s OR 128\<rparr>" "prev_state (fst (irq_lock s)) = daif s"
  by (simp_all add: irq_lock_def irq_disable_def msr_daifset_def)

lemma bit_or_128: "bit (w OR 128 :: u64) 7"
  by (simp add: bit_or_iff)

text \<open>A guarded operation runs with interrupts masked, and the mask is restored.\<close>

lemma with_guard_returns_iff [returns_iff]:
  "with_guard op s = Inr (x, s') \<longleftrightarrow>
   (\<exists>t. op (s\<lparr>daif := daif s OR 128\<rparr>) = Inr (x, t) \<and> s' = t\<lparr>daif := daif s\<rparr>)"
  by (auto simp: with_guard_def irq_lock_def irq_disable_def msr_daifset_def guard_drop_def returns_iff)

lemma with_guard_eq:
  "with_guard op s = bnd (op (s\<lparr>daif := daif s OR 128\<rparr>)) (\<lambda>(x, t). Inr (x, t\<lparr>daif := daif s\<rparr>))"
  by (simp add: with_guard_def irq_lock_def irq_disable_def msr_daifset_def guard_drop_def)

text \<open>
  The guards outstanding in a run started with mask \<open>d0\<close>: the oldest restores \<open>d0\<close>, the others a
  masked state.
\<close>

definition guards_ok :: "u64 \<Rightarrow> machine \<times> IrqGuard list \<Rightarrow> bool" where
  "guards_ok d0 c \<longleftrightarrow> (case c of (s, gs) \<Rightarrow>
     (gs = [] \<longrightarrow> daif s = d0) \<and> (gs \<noteq> [] \<longrightarrow> irq_masked s \<and> prev_state (last gs) = d0) \<and>
     (\<forall>g \<in> set (butlast gs). bit (prev_state g) 7))"

lemma guards_ok_lock:
  "guards_ok d0 (s, gs) \<Longrightarrow> guards_ok d0 (snd (irq_lock s), fst (irq_lock s) # gs)"
  by (auto simp: guards_ok_def irq_lock_daif irq_masked_def bit_or_128)

lemma guards_ok_drop: "guards_ok d0 (s, g # gs) \<Longrightarrow> guards_ok d0 (guard_drop g s, gs)"
  by (cases gs) (auto simp: guards_ok_def guard_drop_def irq_masked_def)

lemma guard_run_ok: "guards_ok d0 c \<Longrightarrow> guards_ok d0 (guard_run xs c)"
proof (induction xs arbitrary: c)
  case (Cons x xs)
  obtain s gs where c: "c = (s, gs)" by (cases c)
  show ?case
  proof (cases x)
    case Lock
    with Cons c show ?thesis by (simp add: guards_ok_lock split: prod.splits) (metis fst_conv guards_ok_lock snd_conv)
  next
    case DropGuard
    with Cons c show ?thesis by (auto simp: guards_ok_drop split: list.splits)
  qed
qed simp

section \<open>Properties\<close>

text \<open>
  C33: \<open>IrqMutex\<close> masks interrupts for as long as any guard is held and restores the mask of before
  the first lock when the last guard is dropped, for every nesting of locks.
\<close>

theorem irq_mutex_masks_and_restores:
  "case guard_run xs (s, []) of (s', gs) \<Rightarrow>
     if gs = [] then daif s' = daif s else irq_masked s' \<and> prev_state (last gs) = daif s"
proof -
  have "guards_ok (daif s) (s, [])" by (simp add: guards_ok_def)
  from guard_run_ok [OF this, of xs] show ?thesis
    by (auto simp: guards_ok_def split: prod.splits)
qed

end
