(* ===== verification/Console.thy ===== *)
theory Console
  imports Machine
begin

text \<open>
  The UART console, \<open>src/kernel/src/drv/qemu_console.rs\<close>, and the number formats the kernel's log
  lines use. Every byte is a volatile store to \<open>UART0_ADDR\<close>. A formatted print hands the console
  its pieces one after the other, so it is the print of their concatenation.
\<close>

section \<open>Number formats\<close>

definition digit :: "nat \<Rightarrow> char" where
  "digit d = char_of (if d < 10 then 48 + d else 87 + d)"

text \<open>\<open>{}\<close> is \<open>radix 10\<close> and \<open>{:x}\<close> is \<open>radix 16\<close>.\<close>

function radix :: "nat \<Rightarrow> nat \<Rightarrow> string" where
  "radix r n = (if n < r \<or> r < 2 then [digit n] else radix r (n div r) @ [digit (n mod r)])"
  by pat_completeness auto
termination by (relation "measure snd") auto

declare radix.simps [simp del]

text \<open>\<open>{:0wx}\<close>: lower-case hexadecimal, padded with zeros to width \<open>w\<close>.\<close>

definition hex_pad :: "nat \<Rightarrow> nat \<Rightarrow> string" where
  "hex_pad w n = (let s = radix 16 n in replicate (w - length s) (CHR ''0'') @ s)"

definition hex2 :: "u8 \<Rightarrow> string" where
  "hex2 x = hex_pad 2 (unat x)"

definition as_bytes :: "string \<Rightarrow> u8 list" where
  "as_bytes s = map of_char s"

section \<open>The console\<close>

definition putc :: "u8 \<Rightarrow> 'z machine_scheme \<Rightarrow> 'z machine_scheme" where
  "putc ch s = s\<lparr>dev_writes := dev_writes s @ [W8 (uart0_addr s) ch]\<rparr>"

primrec puts :: "u8 list \<Rightarrow> 'z machine_scheme \<Rightarrow> 'z machine_scheme" where
  "puts [] s = s"
| "puts (ch # chs) s = puts chs (putc ch s)"

definition console_print :: "string \<Rightarrow> 'z machine_scheme \<Rightarrow> 'z machine_scheme" where
  "console_print str s = puts (as_bytes str) s"

definition console_println :: "string \<Rightarrow> 'z machine_scheme \<Rightarrow> 'z machine_scheme" where
  "console_println str s = console_print (str @ [CHR 0x0A]) s"

text \<open>\<open>dump_hex_slice\<close>: the loop over the bytes from index \<open>i\<close> on.\<close>

primrec dump_hex_from :: "nat \<Rightarrow> u8 list \<Rightarrow> 'z machine_scheme \<Rightarrow> 'z machine_scheme" where
  "dump_hex_from i [] s = s"
| "dump_hex_from i (byte # bytes) s =
     (let s = console_print (hex2 byte) s;
          s = (if i mod 4 = 3 then console_print '' '' s else s);
          s = (if i mod 32 = 31 then console_println '''' s else s)
      in dump_hex_from (i + 1) bytes s)"

definition dump_hex_slice :: "u8 list \<Rightarrow> 'z machine_scheme \<Rightarrow> 'z machine_scheme" where
  "dump_hex_slice val s = console_println '''' (dump_hex_from 0 val s)"

text \<open>\<open>dump_hex\<close> of a value of \<open>sz\<close> bytes at address \<open>val\<close>.\<close>

definition dump_hex :: "usize \<Rightarrow> nat \<Rightarrow> 'z machine_scheme \<Rightarrow> 'z machine_scheme" where
  "dump_hex val sz s =
     console_println '''' (dump_hex_from 0 (map (\<lambda>i. mem s (val + i)) [0..<sz]) s)"

definition console_eject_lowmem :: "'z machine_scheme \<Rightarrow> 'z machine_scheme" where
  "console_eject_lowmem s = s\<lparr>uart0_addr := uart0_addr s OR 0xffffff0000000000\<rparr>"

section \<open>What is printed\<close>

lemma puts_writes: "puts bs s = s\<lparr>dev_writes := dev_writes s @ map (W8 (uart0_addr s)) bs\<rparr>"
  by (induction bs arbitrary: s) (simp_all add: putc_def)

lemma print_writes:
  "console_print str s = s\<lparr>dev_writes := dev_writes s @ map (W8 (uart0_addr s)) (as_bytes str)\<rparr>"
  by (simp add: console_print_def puts_writes)

lemma print_frame [simp]:
  "mem (console_print str s) = mem s" "daif (console_print str s) = daif s"
  "uart0_addr (console_print str s) = uart0_addr s"
  "machine.more (console_print str s) = machine.more s"
  by (simp_all add: print_writes)

lemma as_bytes_append [simp]: "as_bytes (xs @ ys) = as_bytes xs @ as_bytes ys" "as_bytes [] = []"
  by (simp_all add: as_bytes_def)

lemma print_print: "console_print ys (console_print xs s) = console_print (xs @ ys) s"
  by (simp add: print_writes)

lemma print_Nil [simp]: "console_print [] s = s"
  by (simp add: console_print_def)

text \<open>The text of a hex dump.\<close>

primrec hex_text :: "nat \<Rightarrow> u8 list \<Rightarrow> string" where
  "hex_text i [] = []"
| "hex_text i (byte # bytes) = hex2 byte @ (if i mod 4 = 3 then '' '' else []) @
     (if i mod 32 = 31 then [CHR 0x0A] else []) @ hex_text (i + 1) bytes"

lemma dump_hex_from_text: "dump_hex_from i bs s = console_print (hex_text i bs) s"
proof (induction bs arbitrary: i s)
  case (Cons b bs)
  then show ?case by (simp add: Let_def console_println_def print_print)
qed simp

lemma of_digit_inj: "of_char (digit d) = (of_char (digit e) :: nat) \<Longrightarrow> d < 16 \<Longrightarrow> e < 16 \<Longrightarrow> d = e"
  by (auto simp: digit_def split: if_splits)

lemma digit_inj: "digit d = digit e \<Longrightarrow> d < 16 \<Longrightarrow> e < 16 \<Longrightarrow> d = e"
  by (rule of_digit_inj) auto

lemma digit_no_space: "d < 16 \<Longrightarrow> digit d \<noteq> CHR '' '' \<and> digit d \<noteq> CHR 0x0A"
proof -
  assume "d < 16"
  then have "of_char (digit d) \<notin> {32, 10 :: nat}" by (auto simp: digit_def)
  then show ?thesis by auto
qed

text \<open>A byte prints as its two hexadecimal digits.\<close>

lemma hex2_digits: "hex2 x = [digit (unat x div 16), digit (unat x mod 16)]"
proof -
  have x: "unat x < 256" using unat_bound [of x] by simp
  have d: "radix 16 n = [digit n]" if "n < 16" for n using that by (subst radix.simps) simp
  have zero: "char_of (48 :: nat) = CHR ''0''" by code_simp
  show ?thesis
  proof (cases "unat x < 16")
    case True
    then show ?thesis by (simp add: hex2_def hex_pad_def d digit_def zero)
  next
    case False
    with x have "radix 16 (unat x) = [digit (unat x div 16), digit (unat x mod 16)]"
      by (subst radix.simps) (simp add: d)
    then show ?thesis by (simp add: hex2_def hex_pad_def)
  qed
qed

lemma hex2_inj: "hex2 x = hex2 y \<longleftrightarrow> x = y"
proof
  assume "hex2 x = hex2 y"
  moreover have "unat x div 16 < 16" "unat y div 16 < 16"
    using unat_bound [of x] unat_bound [of y] by simp_all
  ultimately have "unat x div 16 = unat y div 16" "unat x mod 16 = unat y mod 16"
    by (auto simp: hex2_digits dest: digit_inj)
  then have "unat x = unat y" by (metis div_mult_mod_eq)
  then show "x = y" by (simp add: word_unat_eq_iff)
qed simp

lemma hex2_no_space: "c \<in> set (hex2 x) \<Longrightarrow> c \<noteq> CHR '' '' \<and> c \<noteq> CHR 0x0A"
  using unat_bound [of x] by (auto simp: hex2_digits digit_no_space)

lemma hex_text_digits:
  "filter (\<lambda>c. c \<noteq> CHR '' '' \<and> c \<noteq> CHR 0x0A) (hex_text i bs) = concat (map hex2 bs)"
proof (induction bs arbitrary: i)
  case (Cons b bs)
  have "filter (\<lambda>c. c \<noteq> CHR '' '' \<and> c \<noteq> CHR 0x0A) (hex2 b) = hex2 b"
    using hex2_no_space by (simp add: filter_id_conv)
  with Cons show ?case by simp
qed simp

lemma concat_hex2_inj: "concat (map hex2 xs) = concat (map hex2 ys) \<longleftrightarrow> xs = ys"
proof (induction xs arbitrary: ys)
  case Nil
  then show ?case by (cases ys) (auto simp: hex2_digits)
next
  case (Cons x xs)
  show ?case
  proof (cases ys)
    case (Cons y ys')
    have "length (hex2 x) = length (hex2 y)" by (simp add: hex2_digits)
    with Cons Cons.IH [of ys'] show ?thesis by (auto simp: hex2_inj)
  qed (auto simp: hex2_digits)
qed

section \<open>Properties\<close>

text \<open>
  The hex dump prints every byte, in order, as two hexadecimal digits: up to the blanks and
  newlines between groups the output is the concatenated hexadecimal bytes, so two dumps agree
  only if the dumped bytes do. It only writes to the console.
\<close>

theorem dump_hex_slice_faithful:
  "\<exists>txt. dump_hex_slice bs s = console_print txt s \<and>
     filter (\<lambda>c. c \<noteq> CHR '' '' \<and> c \<noteq> CHR 0x0A) txt = concat (map hex2 bs) \<and>
     (\<forall>cs. concat (map hex2 cs) = concat (map hex2 bs) \<longleftrightarrow> cs = bs)"
  by (rule exI [of _ "hex_text 0 bs @ [CHR 0x0A]"])
    (simp add: dump_hex_slice_def dump_hex_from_text console_println_def print_print
      hex_text_digits concat_hex2_inj)

end
