(* ===== verification/Kernel_Heap.thy ===== *)
theory Kernel_Heap
  imports Page_Alloc Machine Console
begin

text \<open>
  The page allocator in use: the static \<open>PAGE_ALLOC\<close> behind its \<open>IrqMutex\<close>, the owning types
  \<open>PageSlice\<close> and \<open>PageBox\<close>, the early heap and the hand-over of RAM found at run time
  (\<open>src/kernel/src/page_alloc.rs\<close>, lines 269 to 571).

  A value of the type \<open>T\<close> of a \<open>PageBox<T>\<close> is the list of its bytes; what dropping such a value
  does is the parameter \<open>drop_T\<close>, a function of the address it is dropped at. The addresses the
  linker chooses are the record \<open>layout\<close>.
\<close>

section \<open>State\<close>

record kernel = machine +
  PAGE_ALLOC :: BitmapPageAlloc

section \<open>PageSlice\<close>

definition slice_as_ptr :: "PageSlice \<Rightarrow> usize" where
  "slice_as_ptr self = buf self"

definition slice_as_slice :: "PageSlice \<Rightarrow> usize \<times> usize" where
  "slice_as_slice self = (slice_as_ptr self, len self)"

definition slice_zero :: "PageSlice \<Rightarrow> 'z kernel_scheme \<Rightarrow> 'z kernel_scheme" where
  "slice_zero self s = s\<lparr>mem := write_bytes (mem s) (slice_as_ptr self) 8 0 (PAGE_SIZE div 8)\<rparr>"

text \<open>Operations of the allocator behind the lock.\<close>

definition locked_free :: "profile \<Rightarrow> usize \<Rightarrow> usize \<Rightarrow> 'z kernel_scheme \<Rightarrow> (unit \<times> 'z kernel_scheme) res" where
  "locked_free b addr page_count = with_guard (\<lambda>s.
     bnd (pa_free b (PAGE_ALLOC s) addr page_count) (\<lambda>pa. Inr ((), s\<lparr>PAGE_ALLOC := pa\<rparr>)))"

definition slice_drop :: "profile \<Rightarrow> PageSlice \<Rightarrow> 'z kernel_scheme \<Rightarrow> (unit \<times> 'z kernel_scheme) res" where
  "slice_drop b self s =
     (let s = (if b = Dev then s\<lparr>mem := write_bytes (mem s) (buf self) 1 0xa1 (len self)\<rparr> else s)
      in locked_free b (buf self) (len self div 4096) s)"

definition kalloc_zeroed ::
  "profile \<Rightarrow> usize \<Rightarrow> 'z kernel_scheme \<Rightarrow> (PageSlice option \<times> 'z kernel_scheme) res" where
  "kalloc_zeroed b page_count s =
     bnd (pa_alloc b (PAGE_ALLOC s) page_count) (\<lambda>(slice, pa).
     let s = s\<lparr>PAGE_ALLOC := pa\<rparr> in
     case slice of Some sl \<Rightarrow> Inr (Some sl, slice_zero sl s) | None \<Rightarrow> Inr (None, s))"

text \<open>The free function \<open>alloc\<close>.\<close>

definition kalloc :: "profile \<Rightarrow> usize \<Rightarrow> 'z kernel_scheme \<Rightarrow> (PageSlice \<times> 'z kernel_scheme) res" where
  "kalloc b page_count = with_guard (\<lambda>s.
     bnd (pa_alloc b (PAGE_ALLOC s) page_count) (\<lambda>(slice, pa).
     bnd (expect slice ''OOM'') (\<lambda>sl. Inr (sl, s\<lparr>PAGE_ALLOC := pa\<rparr>))))"

text \<open>\<open>overwrite_free_pages\<close>, its loop body first.\<close>

definition overwrite_page ::
  "profile \<Rightarrow> BitmapPageAlloc \<Rightarrow> nat \<times> bool \<Rightarrow> nat \<times> 'z kernel_scheme \<Rightarrow> (nat \<times> 'z kernel_scheme) res" where
  "overwrite_page b self = (\<lambda>(i, bit) (counter, s).
     if \<not> bit then
       let s = (if counter mod 2048 = 0 then console_print ''.'' s else s) in
       bnd (usize_mul b i PAGE_SIZE) (\<lambda>off.
       bnd (usize_add b (ram_base self) off) (\<lambda>addr.
       Inr (counter + 1, s\<lparr>mem := write_bytes (mem s) addr 8 0xb4 (PAGE_SIZE div 8)\<rparr>)))
     else Inr (counter, s))"

definition overwrite_free_pages :: "profile \<Rightarrow> 'z kernel_scheme \<Rightarrow> 'z kernel_scheme res" where
  "overwrite_free_pages b s =
     (let self = PAGE_ALLOC s; s = console_print ''Cleaning RAM: '' s in
      bnd (foldM (overwrite_page b self)
             (enumerate 0 (iterator_collect (bitmap_iter (bitmap_alloc self)))) (0, s))
        (\<lambda>(_, s). Inr (console_println '''' s)))"

section \<open>PageBox\<close>

record PageBox =
  slice :: PageSlice

definition pagebox_new ::
  "profile \<Rightarrow> u8 list \<Rightarrow> 'z kernel_scheme \<Rightarrow> (PageBox \<times> 'z kernel_scheme) res" where
  "pagebox_new b val s =
     (let page_count = div_ceil (length val) PAGE_SIZE in
      bnd (kalloc b page_count s) (\<lambda>(sl, s).
      Inr (\<lparr>slice = sl\<rparr>, s\<lparr>mem := write_slice (mem s) (slice_as_ptr sl) val\<rparr>)))"

definition pagebox_new_zeroed ::
  "profile \<Rightarrow> usize \<Rightarrow> 'z kernel_scheme \<Rightarrow> (PageBox \<times> 'z kernel_scheme) res" where
  "pagebox_new_zeroed b size_of =
     (let page_count = div_ceil size_of PAGE_SIZE in
      with_guard (\<lambda>s. bnd (kalloc_zeroed b page_count s) (\<lambda>(r, s).
        bnd (expect r ''OOM'') (\<lambda>sl. Inr (\<lparr>slice = sl\<rparr>, s)))))"

definition pagebox_as_ref :: "PageBox \<Rightarrow> usize" where
  "pagebox_as_ref self = slice_as_ptr (slice self)"

definition pagebox_leak :: "PageBox \<Rightarrow> usize" where
  "pagebox_leak self = slice_as_ptr (slice self)"

text \<open>\<open>Drop for PageBox\<close>, then the drop of its field \<open>slice\<close>.\<close>

definition pagebox_drop ::
  "profile \<Rightarrow> (usize \<Rightarrow> 'z kernel_scheme \<Rightarrow> 'z kernel_scheme res) \<Rightarrow> PageBox \<Rightarrow>
   'z kernel_scheme \<Rightarrow> (unit \<times> 'z kernel_scheme) res" where
  "pagebox_drop b drop_T self s =
     bnd (drop_T (slice_as_ptr (slice self)) s) (slice_drop b (slice self))"

text \<open>\<open>into_inner\<close> reads the value out; \<open>self\<close> is dropped when the function returns.\<close>

definition pagebox_into_inner ::
  "profile \<Rightarrow> (usize \<Rightarrow> 'z kernel_scheme \<Rightarrow> 'z kernel_scheme res) \<Rightarrow> nat \<Rightarrow> PageBox \<Rightarrow>
   'z kernel_scheme \<Rightarrow> (u8 list \<times> 'z kernel_scheme) res" where
  "pagebox_into_inner b drop_T size_of self s =
     (let val = map (\<lambda>i. mem s (slice_as_ptr (slice self) + i)) [0..<size_of] in
      bnd (pagebox_drop b drop_T self s) (\<lambda>(_, s). Inr (val, s)))"

section \<open>The early heap and the RAM region\<close>

definition EARLY_HEAP_SIZE :: usize where
  "EARLY_HEAP_SIZE = 1024 * 1024"

record layout =
  text_start :: usize
  kernel_end :: usize
  dtb_start :: usize
  EARLY_HEAP :: usize

definition init_early_heap :: "profile \<Rightarrow> layout \<Rightarrow> 'z kernel_scheme \<Rightarrow> (unit \<times> 'z kernel_scheme) res" where
  "init_early_heap b ly = with_guard (\<lambda>s.
     let heap_base = EARLY_HEAP ly;
         pa = rebase heap_base (PAGE_ALLOC s) in
     bnd (pa_mark_allocated b pa heap_base PAGE_ALLOC_PAGES) (\<lambda>pa.
     bnd (pa_free b pa heap_base (EARLY_HEAP_SIZE div PAGE_SIZE)) (\<lambda>pa.
     Inr ((), s\<lparr>PAGE_ALLOC := pa\<rparr>))))"

definition add_memory_node ::
  "profile \<Rightarrow> layout \<Rightarrow> PhyAddr \<Rightarrow> usize \<Rightarrow> 'z kernel_scheme \<Rightarrow> (unit \<times> 'z kernel_scheme) res" where
  "add_memory_node b ly phy_addr l = with_guard (\<lambda>s.
     bnd (expand_to b (PAGE_ALLOC s) (virt phy_addr) l EARLY_HEAP_SIZE) (\<lambda>pa.
     bnd (usize_add b (dtb_start ly) 0x10000) (\<lambda>dtb_end.
     bnd (usize_add b (EARLY_HEAP ly) EARLY_HEAP_SIZE) (\<lambda>heap_end.
     let kernel_region = (text_start ly, kernel_end ly);
         dtb_region = (dtb_start ly, dtb_end);
         early_heap_region = (EARLY_HEAP ly, heap_end) in
     bnd (assert (fst early_heap_region \<ge> fst kernel_region) ''early_heap_region.0 >= kernel_region.0'') (\<lambda>_.
     bnd (assert (snd early_heap_region \<le> snd kernel_region) ''early_heap_region.1 <= kernel_region.1'') (\<lambda>_.
     bnd (usize_sub b (fst early_heap_region) (fst kernel_region)) (\<lambda>below.
     bnd (pa_mark_allocated b pa (fst kernel_region) (below div PAGE_SIZE)) (\<lambda>pa.
     bnd (usize_sub b (snd kernel_region) (fst early_heap_region)) (\<lambda>above.
     bnd (pa_mark_allocated b pa (snd early_heap_region) (above div PAGE_SIZE)) (\<lambda>pa.
     bnd (usize_sub b (snd dtb_region) (fst dtb_region)) (\<lambda>dtb_len.
     bnd (pa_mark_allocated b pa (fst dtb_region) (dtb_len div PAGE_SIZE)) (\<lambda>pa.
     Inr ((), s\<lparr>PAGE_ALLOC := pa\<rparr>)))))))))))))"

section \<open>The locked operations\<close>

lemma kalloc_ok:
  assumes "pa_inv (PAGE_ALLOC s)"
  shows "case pa_alloc b (PAGE_ALLOC s) n of
      Inr (Some sl, pa) \<Rightarrow> kalloc b n s = Inr (sl, s\<lparr>PAGE_ALLOC := pa\<rparr>)
    | Inr (None, pa) \<Rightarrow> kalloc b n s = Inl (ExpectFailed ''OOM'')
    | Inl e \<Rightarrow> False"
  using pa_alloc_cases [OF assms, of b n]
  by (auto simp: kalloc_def with_guard_eq split: option.splits)

lemma new_zeroed_ok:
  assumes "pa_inv (PAGE_ALLOC s)"
  shows "case pa_alloc b (PAGE_ALLOC s) (div_ceil sz 4096) of
      Inr (Some sl, pa) \<Rightarrow> pagebox_new_zeroed b sz s = Inr (\<lparr>slice = sl\<rparr>, slice_zero sl (s\<lparr>PAGE_ALLOC := pa\<rparr>))
    | Inr (None, pa) \<Rightarrow> pagebox_new_zeroed b sz s = Inl (ExpectFailed ''OOM'')
    | Inl e \<Rightarrow> False"
  using pa_alloc_cases [OF assms, of b "div_ceil sz 4096"]
  by (auto simp: pagebox_new_zeroed_def with_guard_eq kalloc_zeroed_def PAGE_SIZE_def slice_zero_def
      split: option.splits)

lemma slice_drop_ok:
  assumes "pa_free b (PAGE_ALLOC s) (buf sl) (len sl div 4096) = Inr pa"
  shows "slice_drop b sl s = Inr ((), s\<lparr>mem := (if b = Dev
     then write_bytes (mem s) (buf sl) 1 0xa1 (len sl) else mem s), PAGE_ALLOC := pa\<rparr>)"
  using assms by (cases b) (simp_all add: slice_drop_def locked_free_def with_guard_eq)

section \<open>Booting the heap\<close>

text \<open>
  What the linker script and the alignment of \<open>EARLY_HEAP\<close> fix: the device tree, then the kernel
  image with the early heap inside, all page-aligned but for the end of the image.
\<close>

definition layout_ok :: "layout \<Rightarrow> bool" where
  "layout_ok ly \<longleftrightarrow> dtb_start ly mod 4096 = 0 \<and> text_start ly mod 4096 = 0 \<and> EARLY_HEAP ly mod 4096 = 0 \<and>
     dtb_start ly + 0x10000 \<le> text_start ly \<and> text_start ly \<le> EARLY_HEAP ly \<and>
     EARLY_HEAP ly + EARLY_HEAP_SIZE \<le> kernel_end ly \<and>
     kernel_end ly + 2 ^ 29 < 2 ^ 64"

text \<open>The number of pages \<open>add_memory_node\<close> marks from the end of the early heap on.\<close>

definition above_pages :: "layout \<Rightarrow> nat" where
  "above_pages ly = (kernel_end ly - EARLY_HEAP ly) div 4096"

text \<open>A RAM region that holds the image, the device tree and what is marked behind them.\<close>

definition ram_ok :: "layout \<Rightarrow> PhyAddr \<Rightarrow> usize \<Rightarrow> bool" where
  "ram_ok ly phy l \<longleftrightarrow> virt phy mod 4096 = 0 \<and> l mod 4096 = 0 \<and> l \<le> PAGE_ALLOC_PAGES * 4096 \<and>
     virt phy \<le> dtb_start ly \<and>
     EARLY_HEAP ly + EARLY_HEAP_SIZE + above_pages ly * 4096 \<le> virt phy + l"

text \<open>An allocator that still serves the early heap only.\<close>

definition early_heap_pa :: "layout \<Rightarrow> BitmapPageAlloc \<Rightarrow> bool" where
  "early_heap_pa ly pa \<longleftrightarrow> pa_inv pa \<and> ram_base pa = EARLY_HEAP ly \<and> pa_capacity pa = PAGE_ALLOC_PAGES \<and>
     {EARLY_HEAP_SIZE div PAGE_SIZE..<PAGE_ALLOC_PAGES} \<subseteq> used (bitmap_alloc pa)"

lemmas heap_consts = PAGE_ALLOC_PAGES_def PAGE_ALLOC_CELLS_def EARLY_HEAP_SIZE_def PAGE_SIZE_def

lemma page_alloc_new_capacity: "pa_capacity (page_alloc_new n a) = n * 64" "ram_base (page_alloc_new n a) = a"
  by (simp_all add: page_alloc_new_def pa_capacity_def bit_capacity_def bitmap_new_def)

lemma used_bitmap_new: "used (bitmap_new n) = {}"
  by (auto simp: used_def page_used_def bitmap_new_def bit_capacity_def)

lemma taken_new: "taken (page_alloc_new n a) = {}"
  by (simp add: taken_def page_alloc_new_def used_bitmap_new)

lemma rebase_new: "rebase a (page_alloc_new n c) = page_alloc_new n a"
  by (simp add: rebase_def page_alloc_new_def)

lemma init_early_heap_pa:
  assumes ly: "layout_ok ly" and new: "PAGE_ALLOC s = page_alloc_new PAGE_ALLOC_CELLS 0"
  shows "\<exists>pa. init_early_heap b ly s = Inr ((), s\<lparr>PAGE_ALLOC := pa\<rparr>) \<and> pa_inv pa \<and>
    ram_base pa = EARLY_HEAP ly \<and> pa_capacity pa = PAGE_ALLOC_PAGES \<and>
    taken pa = pages_at (EARLY_HEAP ly) PAGE_ALLOC_PAGES - pages_at (EARLY_HEAP ly) (EARLY_HEAP_SIZE div PAGE_SIZE)"
proof -
  let ?h = "EARLY_HEAP ly" and ?pa = "page_alloc_new PAGE_ALLOC_CELLS (EARLY_HEAP ly)"
  have inv: "pa_inv ?pa" and cap: "pa_capacity ?pa = PAGE_ALLOC_PAGES"
    using ly by (auto simp: pa_inv_def page_alloc_new_capacity layout_ok_def heap_consts)
  have "in_window ?pa ?h PAGE_ALLOC_PAGES"
    using ly cap by (simp add: in_window_def page_alloc_new_capacity layout_ok_def)
  from pa_mark_allocated_ok [OF inv this, of b] obtain pa1 where
    pa1: "pa_mark_allocated b ?pa ?h PAGE_ALLOC_PAGES = Inr pa1" "pa_inv pa1" "ram_base pa1 = ?h"
    "pa_capacity pa1 = PAGE_ALLOC_PAGES" "taken pa1 = pages_at ?h PAGE_ALLOC_PAGES"
    by (auto simp: taken_new page_alloc_new_capacity PAGE_ALLOC_PAGES_def)
  have "in_window pa1 ?h (EARLY_HEAP_SIZE div PAGE_SIZE)"
    using ly pa1 by (simp add: in_window_def layout_ok_def heap_consts)
  moreover have "pages_at ?h (EARLY_HEAP_SIZE div PAGE_SIZE) \<subseteq> taken pa1"
    by (auto simp: pa1 in_pages_at heap_consts)
  ultimately obtain pa2 where "pa_free b pa1 ?h (EARLY_HEAP_SIZE div PAGE_SIZE) = Inr pa2" "pa_inv pa2"
    "ram_base pa2 = ?h" "pa_capacity pa2 = PAGE_ALLOC_PAGES"
    "taken pa2 = pages_at ?h PAGE_ALLOC_PAGES - pages_at ?h (EARLY_HEAP_SIZE div PAGE_SIZE)"
    using pa_free_ok [OF pa1(2), of ?h "EARLY_HEAP_SIZE div PAGE_SIZE" b] pa1 by auto
  with pa1(1) new show ?thesis
    by (auto simp: init_early_heap_def with_guard_eq rebase_new)
qed

lemma early_heap_paI:
  assumes "pa_inv pa" "ram_base pa = EARLY_HEAP ly" "pa_capacity pa = PAGE_ALLOC_PAGES"
    and "taken pa = pages_at (EARLY_HEAP ly) PAGE_ALLOC_PAGES - pages_at (EARLY_HEAP ly) (EARLY_HEAP_SIZE div PAGE_SIZE)"
  shows "early_heap_pa ly pa"
proof -
  have "i \<in> used (bitmap_alloc pa)" if "EARLY_HEAP_SIZE div PAGE_SIZE \<le> i" "i < PAGE_ALLOC_PAGES" for i
  proof -
    have "page_addr pa i \<in> taken pa"
      using that by (auto simp: assms(4) in_pages_at page_addr_def assms(2))
    then show ?thesis by (simp add: page_in_taken_iff)
  qed
  with assms show ?thesis by (auto simp: early_heap_pa_def)
qed

text \<open>Marking a run of pages in \<open>add_memory_node\<close>: the run lies in the window and is free.\<close>

lemma mark_run:
  assumes "pa_inv pa" "addr mod 4096 = 0" "ram_base pa \<le> addr"
    and "addr + n * 4096 \<le> ram_base pa + pa_capacity pa * 4096"
    and "b = Release \<or> taken pa \<inter> pages_at addr n = {}"
  obtains pa' where "pa_mark_allocated b pa addr n = Inr pa'" "pa_inv pa'" "ram_base pa' = ram_base pa"
    "pa_capacity pa' = pa_capacity pa" "taken pa' = taken pa \<union> pages_at addr n"
  using pa_mark_allocated_ok [OF assms(1), of addr n b] assms that by (auto simp: in_window_def)

text \<open>
  The pages \<open>add_memory_node\<close> marks: the image below and above the early heap, and the device tree.
\<close>

definition reserved_pages :: "layout \<Rightarrow> usize set" where
  "reserved_pages ly =
     pages_at (text_start ly) ((EARLY_HEAP ly - text_start ly) div 4096) \<union>
     pages_at (EARLY_HEAP ly + EARLY_HEAP_SIZE) (above_pages ly) \<union>
     pages_at (dtb_start ly) 16"

lemma layout_facts:
  assumes "layout_ok ly"
  shows "dtb_start ly mod 4096 = 0" "text_start ly mod 4096 = 0" "EARLY_HEAP ly mod 4096 = 0"
    "dtb_start ly + 65536 \<le> text_start ly" "text_start ly \<le> EARLY_HEAP ly"
    "EARLY_HEAP ly + 1048576 \<le> kernel_end ly" "kernel_end ly + 536870912 < 2 ^ 64"
    "(EARLY_HEAP ly - text_start ly) div 4096 * 4096 = EARLY_HEAP ly - text_start ly"
    "kernel_end ly \<le> EARLY_HEAP ly + 1048576 + above_pages ly * 4096"
proof -
  show "kernel_end ly \<le> EARLY_HEAP ly + 1048576 + above_pages ly * 4096"
    using div_mult_mod_eq [of "kernel_end ly - EARLY_HEAP ly" 4096]
      mod_less_divisor [of 4096 "kernel_end ly - EARLY_HEAP ly"]
    unfolding above_pages_def by linarith
qed (use assms in \<open>auto simp: layout_ok_def EARLY_HEAP_SIZE_def dvd_diff_nat dvd_div_mult_self mod_eq_0_iff_dvd\<close>)

lemma add_memory_node_marks:
  assumes ly: "layout_ok ly" and ram: "ram_ok ly phy l"
    and pa1: "expand_to b (PAGE_ALLOC s) (virt phy) l EARLY_HEAP_SIZE = Inr pa1" "pa_inv pa1"
      "ram_base pa1 = virt phy" "pa_capacity pa1 = PAGE_ALLOC_PAGES"
    and free: "b = Release \<or> taken pa1 \<inter> reserved_pages ly = {}"
  shows "\<exists>pa. add_memory_node b ly phy l s = Inr ((), s\<lparr>PAGE_ALLOC := pa\<rparr>) \<and> pa_inv pa \<and>
    ram_base pa = virt phy \<and> pa_capacity pa = PAGE_ALLOC_PAGES \<and>
    taken pa = taken pa1 \<union> reserved_pages ly"
proof -
  let ?R = "virt phy" and ?h = "EARLY_HEAP ly" and ?t = "text_start ly" and ?d = "dtb_start ly"
    and ?e = "kernel_end ly"
  note lf = layout_facts [OF ly]
  from ram have R: "?R \<le> ?d" "?h + 1048576 + above_pages ly * 4096 \<le> ?R + 65536 * 4096"
    by (auto simp: ram_ok_def heap_consts)
  note sets = reserved_pages_def in_pages_at EARLY_HEAP_SIZE_def disjoint_iff
  obtain pa2 where pa2: "pa_mark_allocated b pa1 ?t ((?h - ?t) div 4096) = Inr pa2" "pa_inv pa2"
    "ram_base pa2 = ?R" "pa_capacity pa2 = 65536" "taken pa2 = taken pa1 \<union> pages_at ?t ((?h - ?t) div 4096)"
  proof (rule mark_run [OF pa1(2) lf(2), of "(?h - ?t) div 4096" b])
    show "b = Release \<or> taken pa1 \<inter> pages_at ?t ((?h - ?t) div 4096) = {}"
      using free by (auto simp: reserved_pages_def)
  qed (use pa1 R lf that in \<open>auto simp: heap_consts\<close>)
  obtain pa3 where pa3: "pa_mark_allocated b pa2 (?h + 1048576) (above_pages ly) = Inr pa3" "pa_inv pa3"
    "ram_base pa3 = ?R" "pa_capacity pa3 = 65536"
    "taken pa3 = taken pa2 \<union> pages_at (?h + 1048576) (above_pages ly)"
  proof (rule mark_run [OF pa2(2), of "?h + 1048576" "above_pages ly" b])
    show "b = Release \<or> taken pa2 \<inter> pages_at (?h + 1048576) (above_pages ly) = {}"
      using free lf(5,8) by (fastforce simp: pa2(5) sets)
  qed (use pa2 R lf that in \<open>auto simp: mod_eq_0_iff_dvd\<close>)
  obtain pa4 where pa4: "pa_mark_allocated b pa3 ?d 16 = Inr pa4" "pa_inv pa4"
    "ram_base pa4 = ?R" "pa_capacity pa4 = 65536" "taken pa4 = taken pa3 \<union> pages_at ?d 16"
  proof (rule mark_run [OF pa3(2) lf(1), of 16 b])
    show "b = Release \<or> taken pa3 \<inter> pages_at ?d 16 = {}"
      using free lf(4,5) by (fastforce simp: pa3(5) pa2(5) sets)
  qed (use pa3 R lf that in auto)
  have "usize_add b ?d 65536 = Inr (?d + 65536)" "usize_add b ?h 1048576 = Inr (?h + 1048576)"
    "usize_sub b ?h ?t = Inr (?h - ?t)" "usize_sub b ?e ?h = Inr (?e - ?h)"
    "usize_sub b (?d + 65536) ?d = Inr 65536"
    using lf by (auto simp: usize_simps)
  then have "add_memory_node b ly phy l s = Inr ((), s\<lparr>PAGE_ALLOC := pa4\<rparr>)"
    using pa1(1) pa2(1) pa3(1) pa4(1) lf
    by (simp add: add_memory_node_def with_guard_eq EARLY_HEAP_SIZE_def PAGE_SIZE_def above_pages_def)
  moreover have "taken pa4 = taken pa1 \<union> reserved_pages ly"
    by (auto simp: pa4(5) pa3(5) pa2(5) reserved_pages_def EARLY_HEAP_SIZE_def)
  ultimately show ?thesis using pa4 by (auto simp: heap_consts)
qed

lemma ram_ok_pages:
  assumes "layout_ok ly" "ram_ok ly phy l"
  obtains L where "l = L * 4096" "256 \<le> L" "L \<le> 65536" "virt phy mod 4096 = 0"
    "virt phy \<le> EARLY_HEAP ly" "EARLY_HEAP ly + 256 * 4096 \<le> virt phy + L * 4096"
proof -
  from assms(2) obtain L where L: "l = L * 4096" by (metis mod_eq_0E mult.commute ram_ok_def)
  with assms layout_facts [OF assms(1)] show ?thesis
    by (intro that [of L]) (auto simp: ram_ok_def heap_consts)
qed

text \<open>The first hand-over: from the early heap to the RAM region.\<close>

lemma add_memory_node_taken:
  assumes ly: "layout_ok ly" and ram: "ram_ok ly phy l" and heap: "early_heap_pa ly (PAGE_ALLOC s)"
  shows "\<exists>pa. add_memory_node b ly phy l s = Inr ((), s\<lparr>PAGE_ALLOC := pa\<rparr>) \<and> pa_inv pa \<and>
    ram_base pa = virt phy \<and> pa_capacity pa = PAGE_ALLOC_PAGES \<and>
    taken pa = (taken (PAGE_ALLOC s) \<inter> {EARLY_HEAP ly..<EARLY_HEAP ly + EARLY_HEAP_SIZE}) \<union>
      pages_at (virt phy + l) (PAGE_ALLOC_PAGES - l div 4096) \<union> reserved_pages ly"
proof -
  let ?pa = "PAGE_ALLOC s" and ?h = "EARLY_HEAP ly"
  from ram_ok_pages [OF ly ram] obtain L where L: "l = L * 4096" "256 \<le> L" "L \<le> 65536"
    "virt phy mod 4096 = 0" "virt phy \<le> ?h" "?h + 256 * 4096 \<le> virt phy + L * 4096" .
  from heap have hp: "pa_inv ?pa" "ram_base ?pa = ?h" "pa_capacity ?pa = 65536"
    and out: "{256..<65536} \<subseteq> used (bitmap_alloc ?pa)"
    by (auto simp: early_heap_pa_def heap_consts)
  obtain pa1 where pa1: "expand_to b ?pa (virt phy) l EARLY_HEAP_SIZE = Inr pa1" "pa_inv pa1"
    "ram_base pa1 = virt phy" "pa_capacity pa1 = PAGE_ALLOC_PAGES"
    and tk1: "taken pa1 = (taken ?pa \<inter> {?h..<?h + 1048576}) \<union>
      (\<lambda>i. virt phy + i * 4096) ` (used (bitmap_alloc ?pa) \<inter> {L..})"
    using expand_to_taken [OF hp(1), of "virt phy" 256 L b] L hp(2,3) by (auto simp: heap_consts)
  have beyond: "(\<lambda>i. virt phy + i * 4096) ` {L..<65536} = pages_at (virt phy + l) (65536 - L)"
    using pages_at_page_addr [of pa1 L "65536 - L"] L(1,3) by (simp add: page_addr_def pa1(3) cong: image_cong_simp)
  have "used (bitmap_alloc ?pa) \<inter> {L..} = {L..<65536}"
    using out L(2) used_subset [of "bitmap_alloc ?pa"] hp(3) by (auto simp: pa_capacity_def)
  with tk1 beyond have tk1: "taken pa1 = (taken ?pa \<inter> {?h..<?h + 1048576}) \<union> pages_at (virt phy + l) (65536 - L)"
    by simp
  have "taken pa1 \<inter> reserved_pages ly = {}"
    using layout_facts [OF ly] ram by (auto simp: tk1 reserved_pages_def in_pages_at heap_consts ram_ok_def)
  with add_memory_node_marks [OF ly ram pa1] show ?thesis
    by (simp add: tk1 heap_consts L(1))
qed

lemma byte_not_taken:
  assumes "pa_inv pa" "in_window pa x n" "taken pa \<inter> pages_at x n = {}" "a \<in> {x..<x + n * 4096}"
    and "c mod 4096 = 0" "pages_at c k \<subseteq> taken pa"
  shows "a \<notin> {c..<c + k * 4096}"
proof -
  have "pages_at x n \<inter> pages_at c k = {}" using assms(3,6) by blast
  with pages_disjoint_bytes [of x c n k] assms(2,4,5) show ?thesis
    by (auto simp: in_window_def)
qed

lemma kalloc_slice:
  assumes inv: "pa_inv (PAGE_ALLOC s)" and al: "kalloc b n s = Inr (sl, s')"
  obtains pa where "pa_alloc b (PAGE_ALLOC s) n = Inr (Some sl, pa)" "s' = s\<lparr>PAGE_ALLOC := pa\<rparr>"
    "in_window (PAGE_ALLOC s) (buf sl) n" "taken (PAGE_ALLOC s) \<inter> pages_at (buf sl) n = {}"
    "len sl = n * 4096" "taken pa = taken (PAGE_ALLOC s) \<union> pages_at (buf sl) n"
proof -
  from pa_alloc_cases [OF inv, of b n] obtain r pa where r: "pa_alloc b (PAGE_ALLOC s) n = Inr (r, pa)" by blast
  with kalloc_ok [OF inv, of b n] al have "r = Some sl" "s' = s\<lparr>PAGE_ALLOC := pa\<rparr>"
    by (auto split: option.splits)
  with r pa_alloc_cases [OF inv, of b n] show ?thesis by (intro that [of pa]) auto
qed

lemma taken_page_aligned: "pa_inv pa \<Longrightarrow> p \<in> taken pa \<Longrightarrow> p mod 4096 = 0"
  by (auto simp: taken_def page_addr_def pa_inv_def mod_eq_0_iff_dvd)

text \<open>Where an allocation made after the hand-over cannot lie.\<close>

lemma handover_alloc:
  assumes ly: "layout_ok ly" and ram: "ram_ok ly phy l" and heap: "early_heap_pa ly (PAGE_ALLOC s)"
    and node: "add_memory_node b ly phy l s = Inr ((), s1)" and al: "kalloc b n s1 = Inr (sl, s2)"
    and a: "a \<in> {buf sl..<buf sl + len sl}"
  shows "virt phy \<le> a \<and> a < virt phy + l" and "a \<notin> {dtb_start ly..<dtb_start ly + 0x10000}"
    and "a \<notin> {text_start ly..<EARLY_HEAP ly}" and "a \<notin> {EARLY_HEAP ly + EARLY_HEAP_SIZE..<kernel_end ly}"
    and "p \<in> taken (PAGE_ALLOC s) \<inter> {EARLY_HEAP ly..<EARLY_HEAP ly + EARLY_HEAP_SIZE} \<Longrightarrow> a \<notin> {p..<p + 4096}"
proof -
  from add_memory_node_taken [OF ly ram heap, of b] node obtain pa where
    pa: "s1 = s\<lparr>PAGE_ALLOC := pa\<rparr>" "pa_inv pa" "ram_base pa = virt phy" "pa_capacity pa = PAGE_ALLOC_PAGES"
    and tk: "taken pa = (taken (PAGE_ALLOC s) \<inter> {EARLY_HEAP ly..<EARLY_HEAP ly + EARLY_HEAP_SIZE}) \<union>
      pages_at (virt phy + l) (PAGE_ALLOC_PAGES - l div 4096) \<union> reserved_pages ly"
    by auto
  from kalloc_slice [OF _ al] pa(1,2) have sl: "in_window pa (buf sl) n" "taken pa \<inter> pages_at (buf sl) n = {}"
    "len sl = n * 4096"
    by auto
  note out = byte_not_taken [OF pa(2) sl(1,2) a [unfolded sl(3)]] and lf = layout_facts [OF ly]
  from ram_ok_pages [OF ly ram] obtain L where L: "l = L * 4096" "L \<le> 65536" "virt phy mod 4096 = 0" .
  have "a \<notin> {virt phy + l..<virt phy + l + (65536 - L) * 4096}"
    using out [of "virt phy + l" "65536 - L"] L by (auto simp: tk heap_consts mod_eq_0_iff_dvd)
  moreover have "virt phy + l + (65536 - L) * 4096 = virt phy + 65536 * 4096"
    using L by (simp add: diff_mult_distrib)
  moreover have "virt phy \<le> a" "a < virt phy + 65536 * 4096"
    using sl a pa(3,4) by (auto simp: in_window_def heap_consts)
  ultimately show "virt phy \<le> a \<and> a < virt phy + l" by auto
  show "a \<notin> {dtb_start ly..<dtb_start ly + 0x10000}"
    using out [OF lf(1), of 16] by (auto simp: tk reserved_pages_def)
  show "a \<notin> {text_start ly..<EARLY_HEAP ly}"
    using out [OF lf(2), of "(EARLY_HEAP ly - text_start ly) div 4096"] lf(5,8) by (auto simp: tk reserved_pages_def)
  have "(EARLY_HEAP ly + EARLY_HEAP_SIZE) mod 4096 = 0"
    using lf(3) by (simp add: EARLY_HEAP_SIZE_def mod_eq_0_iff_dvd)
  moreover have "pages_at (EARLY_HEAP ly + EARLY_HEAP_SIZE) (above_pages ly) \<subseteq> taken pa"
    by (auto simp: tk reserved_pages_def)
  ultimately show "a \<notin> {EARLY_HEAP ly + EARLY_HEAP_SIZE..<kernel_end ly}"
    using out [of "EARLY_HEAP ly + EARLY_HEAP_SIZE" "above_pages ly"] lf(9) by (auto simp: EARLY_HEAP_SIZE_def)
  show "a \<notin> {p..<p + 4096}"
    if "p \<in> taken (PAGE_ALLOC s) \<inter> {EARLY_HEAP ly..<EARLY_HEAP ly + EARLY_HEAP_SIZE}"
  proof -
    from heap have "pa_inv (PAGE_ALLOC s)" by (simp add: early_heap_pa_def)
    from taken_page_aligned [OF this] that have "p mod 4096 = 0" by simp
    moreover have "pages_at p 1 \<subseteq> taken pa" using that by (auto simp: tk in_pages_at)
    ultimately show ?thesis using out [of p 1] by simp
  qed
qed

text \<open>The loop of \<open>overwrite_free_pages\<close> over the pages from \<open>i\<close> on.\<close>

definition free_bytes :: "BitmapPageAlloc \<Rightarrow> nat set \<Rightarrow> usize set" where
  "free_bytes pa I = (\<Union>i \<in> I - used (bitmap_alloc pa). {page_addr pa i..<page_addr pa i + 4096})"

lemma overwrite_page_eq:
  assumes "pa_inv pa" "i < pa_capacity pa"
  shows "\<exists>c' ws. overwrite_page b pa (i, page_used (bitmap_alloc pa) i) (c, s) =
    Inr (c', s\<lparr>mem := (\<lambda>a. if a \<in> free_bytes pa {i} then 0xb4 else mem s a), dev_writes := dev_writes s @ ws\<rparr>)"
proof (cases "page_used (bitmap_alloc pa) i")
  case True
  with assms have "free_bytes pa {i} = {}" by (simp add: free_bytes_def in_used_iff pa_capacity_def)
  with True show ?thesis by (auto simp: overwrite_page_def intro!: exI [of _ "[]"])
next
  case False
  with assms have fb: "free_bytes pa {i} = {page_addr pa i..<page_addr pa i + 4096}"
    by (auto simp: free_bytes_def in_used_iff pa_capacity_def)
  let ?s = "if c mod 2048 = 0 then console_print ''.'' s else s"
  obtain ws where ws: "?s = s\<lparr>dev_writes := dev_writes s @ ws\<rparr>"
    by (cases "c mod 2048 = 0") (auto simp: print_writes intro: that [of "[]"])
  have "i * 4096 < 2 ^ 64" "ram_base pa + i * 4096 < 2 ^ 64"
    using assms by (auto simp: pa_inv_def)
  then have "overwrite_page b pa (i, False) (c, s) =
      Inr (c + 1, ?s\<lparr>mem := write_bytes (mem ?s) (page_addr pa i) 8 0xb4 512\<rparr>)"
    by (simp add: overwrite_page_def PAGE_SIZE_def usize_simps page_addr_def)
  with False show ?thesis
    unfolding ws by (intro exI [of _ "c + 1"] exI [of _ ws]) (simp add: fb write_bytes_def)
qed

lemma overwrite_loop:
  assumes "pa_inv pa" "n \<le> pa_capacity pa"
  shows "\<exists>c' ws. foldM (overwrite_page b pa) (map (\<lambda>i. (i, page_used (bitmap_alloc pa) i)) [0..<n]) (c, s) =
    Inr (c', s\<lparr>mem := (\<lambda>a. if a \<in> free_bytes pa {..<n} then 0xb4 else mem s a), dev_writes := dev_writes s @ ws\<rparr>)"
  using assms(2)
proof (induction n)
  case 0
  then show ?case by (auto simp: free_bytes_def intro!: exI [of _ "[]"])
next
  case (Suc n)
  have fb: "free_bytes pa {..<Suc n} = free_bytes pa {n} \<union> free_bytes pa {..<n}"
    by (auto simp: free_bytes_def lessThan_Suc)
  from Suc obtain c1 ws1 where 1: "foldM (overwrite_page b pa)
      (map (\<lambda>i. (i, page_used (bitmap_alloc pa) i)) [0..<n]) (c, s) = Inr (c1,
      s\<lparr>mem := (\<lambda>a. if a \<in> free_bytes pa {..<n} then 0xb4 else mem s a), dev_writes := dev_writes s @ ws1\<rparr>)"
    (is "_ = Inr (_, ?s1)")
    by auto
  from overwrite_page_eq [OF assms(1), of n b c1 ?s1] Suc.prems obtain c2 ws2 where
    2: "overwrite_page b pa (n, page_used (bitmap_alloc pa) n) (c1, ?s1) = Inr (c2, ?s1\<lparr>mem :=
       (\<lambda>a. if a \<in> free_bytes pa {n} then 0xb4 else mem ?s1 a), dev_writes := dev_writes ?s1 @ ws2\<rparr>)"
    by auto
  have "(\<lambda>a. if a \<in> free_bytes pa {n} then 0xb4 else mem ?s1 a) =
      (\<lambda>a. if a \<in> free_bytes pa {..<Suc n} then 0xb4 else mem s a)"
    by (auto simp: fb)
  with 1 2 show ?case by (intro exI [of _ c2] exI [of _ "ws1 @ ws2"]) (simp add: foldM_append)
qed

lemma enumerate_bits:
  "enumerate 0 (iterator_collect (bitmap_iter bm)) = map (\<lambda>i. (i, page_used bm i)) [0..<bit_capacity bm]"
  by (simp add: iterator_collect_from bitmap_iter_def enumerate_eq_zip zip_map2 zip_same_conv_map)

section \<open>Properties\<close>

text \<open>
  After \<open>init_early_heap\<close> the allocator serves exactly the pages of \<open>EARLY_HEAP\<close>: they are
  free and every other page of its window is taken.
\<close>

theorem init_early_heap_serves_heap:
  assumes "layout_ok ly" and "PAGE_ALLOC s = page_alloc_new PAGE_ALLOC_CELLS 0"
  shows "\<exists>pa. init_early_heap b ly s = Inr ((), s\<lparr>PAGE_ALLOC := pa\<rparr>) \<and> early_heap_pa ly pa \<and>
    taken pa = pages_at (EARLY_HEAP ly) PAGE_ALLOC_PAGES - pages_at (EARLY_HEAP ly) (EARLY_HEAP_SIZE div PAGE_SIZE)"
  using init_early_heap_pa [OF assms, of b] early_heap_paI [of _ ly] by blast

definition virt_layout :: layout where
  "virt_layout = \<lparr>text_start = 0xffffff0040100000, kernel_end = 0xffffff0040340008,
     dtb_start = 0xffffff0040000000, EARLY_HEAP = 0xffffff0040200000\<rparr>"

definition boot_state :: kernel where
  "boot_state = \<lparr>mem = (\<lambda>_. 0), daif = 0x3c0, uart0_addr = 0x9000000, dev_writes = [], ttbr0 = 0, tlb = (\<lambda>_. None),
     PAGE_ALLOC = page_alloc_new PAGE_ALLOC_CELLS 0\<rparr>"

lemma virt_layout_ok: "layout_ok virt_layout" "ram_ok virt_layout 0x40000000 0x8000000"
  by (simp_all add: layout_ok_def ram_ok_def virt_layout_def heap_consts above_pages_def virt_def)

theorem init_early_heap_serves_heap_witness:
  "\<exists>pa. init_early_heap Dev virt_layout boot_state = Inr ((), boot_state\<lparr>PAGE_ALLOC := pa\<rparr>) \<and>
    0xffffff0040200000 \<notin> taken pa \<and> 0xffffff0040300000 \<in> taken pa"
proof -
  have "PAGE_ALLOC boot_state = page_alloc_new PAGE_ALLOC_CELLS 0" by (simp add: boot_state_def)
  from init_early_heap_serves_heap [OF virt_layout_ok(1) this, of Dev] obtain pa where
    pa: "init_early_heap Dev virt_layout boot_state = Inr ((), boot_state\<lparr>PAGE_ALLOC := pa\<rparr>)"
    "taken pa = pages_at (EARLY_HEAP virt_layout) PAGE_ALLOC_PAGES -
       pages_at (EARLY_HEAP virt_layout) (EARLY_HEAP_SIZE div PAGE_SIZE)"
    by blast
  have "0xffffff0040200000 \<in> pages_at (EARLY_HEAP virt_layout) (EARLY_HEAP_SIZE div PAGE_SIZE)"
    unfolding in_pages_at by (rule exI [of _ 0]) (simp add: virt_layout_def heap_consts)
  moreover have "0xffffff0040300000 \<in> pages_at (EARLY_HEAP virt_layout) PAGE_ALLOC_PAGES"
    unfolding in_pages_at by (rule exI [of _ 256]) (simp add: virt_layout_def heap_consts)
  moreover have "0xffffff0040300000 \<notin> pages_at (EARLY_HEAP virt_layout) (EARLY_HEAP_SIZE div PAGE_SIZE)"
    unfolding in_pages_at by (simp add: virt_layout_def heap_consts)
  ultimately show ?thesis using pa by blast
qed


lemma early_boot:
  obtains pa where "init_early_heap Dev virt_layout boot_state = Inr ((), boot_state\<lparr>PAGE_ALLOC := pa\<rparr>)"
    "early_heap_pa virt_layout pa"
proof -
  have "PAGE_ALLOC boot_state = page_alloc_new PAGE_ALLOC_CELLS 0" by (simp add: boot_state_def)
  from init_early_heap_pa [OF virt_layout_ok(1) this, of Dev] early_heap_paI that show ?thesis by blast
qed


text \<open>
  The same hand-over also withholds memory nothing uses: the count of pages marked behind the
  early heap is measured from its start and not from its end, so the 255 whole pages after the
  page the image ends in are taken for good.
\<close>

theorem ram_handover_over_reserves:
  assumes "layout_ok ly" and "ram_ok ly phy l" and "early_heap_pa ly (PAGE_ALLOC s)"
    and "add_memory_node b ly phy l s = Inr ((), s1)"
  shows "pages_at (div_ceil (kernel_end ly) 4096 * 4096) 255 \<subseteq> taken (PAGE_ALLOC s1)"
proof -
  note lf = layout_facts [OF assms(1)]
  have "pages_at (div_ceil (kernel_end ly) 4096 * 4096) 255 \<subseteq> pages_at (EARLY_HEAP ly + 1048576) (above_pages ly)"
  proof
    fix x assume "x \<in> pages_at (div_ceil (kernel_end ly) 4096 * 4096) 255"
    then obtain i where i: "i < 255" "x = div_ceil (kernel_end ly) 4096 * 4096 + i * 4096"
      by (auto simp: in_pages_at)
    from lf(3) obtain q where q: "EARLY_HEAP ly = 4096 * q" by (rule mod_eq_0E)
    define e where "e = kernel_end ly - EARLY_HEAP ly"
    have e: "kernel_end ly = 4096 * q + e" "1048576 \<le> e" using lf(6) q by (simp_all add: e_def)
    have c: "div_ceil (kernel_end ly) 4096 = q + div_ceil e 4096" by (simp add: div_ceil_def e)
    have "div_ceil e 4096 \<le> e div 4096 + 1" "256 \<le> div_ceil e 4096" using e(2) by (auto simp: div_ceil_def)
    moreover have "above_pages ly = e div 4096" by (simp add: above_pages_def e_def)
    ultimately have "div_ceil e 4096 + i - 256 < above_pages ly \<and>
        x = EARLY_HEAP ly + 1048576 + (div_ceil e 4096 + i - 256) * 4096"
      using i q c by (auto simp: diff_mult_distrib)
    then show "x \<in> pages_at (EARLY_HEAP ly + 1048576) (above_pages ly)" unfolding in_pages_at by blast
  qed
  then show ?thesis
    using add_memory_node_taken [OF assms(1-3), of b] assms(4)
    by (auto simp: reserved_pages_def EARLY_HEAP_SIZE_def)
qed

theorem ram_handover_over_reserves_witness:
  "\<exists>(s :: kernel) s1. add_memory_node Dev virt_layout 0x40000000 0x8000000 s = Inr ((), s1) \<and>
     pages_at 0xffffff0040341000 255 \<subseteq> taken (PAGE_ALLOC s1)"
proof -
  obtain pa where "early_heap_pa virt_layout pa" by (rule early_boot)
  then have eh: "early_heap_pa virt_layout (PAGE_ALLOC (boot_state\<lparr>PAGE_ALLOC := pa\<rparr>))" by simp
  from add_memory_node_taken [OF virt_layout_ok eh, of Dev] obtain s1 where
    s1: "add_memory_node Dev virt_layout 0x40000000 0x8000000 (boot_state\<lparr>PAGE_ALLOC := pa\<rparr>) = Inr ((), s1)" by blast
  from ram_handover_over_reserves [OF virt_layout_ok eh s1]
  have "pages_at 0xffffff0040341000 255 \<subseteq> taken (PAGE_ALLOC s1)" by (simp add: virt_layout_def div_ceil_def)
  with s1 show ?thesis by blast
qed

text \<open>
  C38: running \<open>add_memory_node\<close> a second time, as a second \<open>DownloadMoreRam\<close> system call does, hands
  memory in use out again: in the release profile every allocated page behind the first 1 MiB of
  RAM becomes free, unless it belongs to the kernel image or the device tree.
\<close>

theorem second_handover_forgets_allocations:
  assumes "layout_ok ly" and "ram_ok ly phy l" and "pa_inv (PAGE_ALLOC s)"
    and "ram_base (PAGE_ALLOC s) = virt phy" and "pa_capacity (PAGE_ALLOC s) = PAGE_ALLOC_PAGES"
    and "x \<in> taken (PAGE_ALLOC s)" and "virt phy + EARLY_HEAP_SIZE \<le> x" and "x < virt phy + l"
    and "x \<notin> reserved_pages ly"
  shows "\<exists>s'. add_memory_node Release ly phy l s = Inr ((), s') \<and> x \<notin> taken (PAGE_ALLOC s')"
proof -
  let ?pa = "PAGE_ALLOC s"
  from ram_ok_pages [OF assms(1,2)] obtain L where L: "l = L * 4096" "256 \<le> L" "L \<le> 65536" .
  have "ram_base ?pa mod 4096 = 0" using assms(3) by (simp add: pa_inv_def)
  then obtain pa1 where pa1: "expand_to Release ?pa (virt phy) l EARLY_HEAP_SIZE = Inr pa1" "pa_inv pa1"
    "ram_base pa1 = virt phy" "pa_capacity pa1 = PAGE_ALLOC_PAGES"
    and tk1: "taken pa1 = (taken ?pa \<inter> {virt phy..<virt phy + 1048576}) \<union>
      (\<lambda>i. virt phy + i * 4096) ` (used (bitmap_alloc ?pa) \<inter> {L..})"
    using expand_to_taken [OF assms(3), of "virt phy" 256 L Release] assms(4,5) L by (auto simp: heap_consts)
  have "x \<notin> taken pa1" using assms(7,8) L by (auto simp: tk1 EARLY_HEAP_SIZE_def)
  with add_memory_node_marks [OF assms(1,2) pa1] assms(9) show ?thesis by auto
qed

theorem second_handover_forgets_allocations_witness:
  "\<exists>(s :: kernel) s'. 0xffffff0040800000 \<in> taken (PAGE_ALLOC s) \<and>
     add_memory_node Release virt_layout 0x40000000 0x8000000 s = Inr ((), s') \<and>
     0xffffff0040800000 \<notin> taken (PAGE_ALLOC s')"
proof -
  let ?pa = "page_alloc_new PAGE_ALLOC_CELLS 0xffffff0040000000"
  have inv: "pa_inv ?pa" "in_window ?pa 0xffffff0040800000 1"
    by (simp_all add: pa_inv_def page_alloc_new_capacity heap_consts in_window_def)
  from pa_mark_allocated_ok [OF this, of Release] obtain pa where
    pa: "pa_inv pa" "ram_base pa = 0xffffff0040000000" "pa_capacity pa = PAGE_ALLOC_PAGES"
    "0xffffff0040800000 \<in> taken pa"
    by (auto simp: page_alloc_new_capacity pages_at_def heap_consts)
  have "0xffffff0040800000 \<notin> reserved_pages virt_layout"
    by (simp add: reserved_pages_def in_pages_at virt_layout_def above_pages_def heap_consts)
  with second_handover_forgets_allocations [OF virt_layout_ok, of "boot_state\<lparr>PAGE_ALLOC := pa\<rparr>" "0xffffff0040800000"] pa
  have "\<exists>s'. add_memory_node Release virt_layout 0x40000000 0x8000000 (boot_state\<lparr>PAGE_ALLOC := pa\<rparr>) = Inr ((), s') \<and>
      0xffffff0040800000 \<notin> taken (PAGE_ALLOC s')"
    by (simp add: virt_def EARLY_HEAP_SIZE_def)
  moreover have "0xffffff0040800000 \<in> taken (PAGE_ALLOC (boot_state\<lparr>PAGE_ALLOC := pa\<rparr>))" using pa(4) by simp
  ultimately show ?thesis by blast
qed

text \<open>
  C39: \<open>PageBox::new_zeroed\<close> allocates whole pages for the value, panics with \<open>OOM\<close> exactly when
  there is no room, and writes zeros to the first page of them and to nothing else. So a value of
  at most a page is zeroed, and of a larger one only the first 4096 bytes are.
\<close>

theorem new_zeroed_zeroes_first_page:
  assumes "pa_inv (PAGE_ALLOC s)"
  shows "case pagebox_new_zeroed b sz s of
      Inl e \<Rightarrow> e = ExpectFailed ''OOM'' \<and> (\<exists>pa. pa_alloc b (PAGE_ALLOC s) (div_ceil sz 4096) = Inr (None, pa))
    | Inr (bx, s') \<Rightarrow> daif s' = daif s \<and> len (slice bx) = div_ceil sz 4096 * 4096 \<and>
        taken (PAGE_ALLOC s') = taken (PAGE_ALLOC s) \<union> pages_at (pagebox_as_ref bx) (div_ceil sz 4096) \<and>
        (\<forall>a. mem s' a = (if pagebox_as_ref bx \<le> a \<and> a < pagebox_as_ref bx + 4096 then 0 else mem s a))"
proof -
  from pa_alloc_cases [OF assms, of b "div_ceil sz 4096"] obtain r pa where
    r: "pa_alloc b (PAGE_ALLOC s) (div_ceil sz 4096) = Inr (r, pa)" by blast
  with new_zeroed_ok [OF assms, of b sz] pa_alloc_cases [OF assms, of b "div_ceil sz 4096"] show ?thesis
    by (cases r) (auto simp: slice_zero_def pagebox_as_ref_def slice_as_ptr_def write_bytes_def PAGE_SIZE_def)
qed

definition small_heap :: kernel where
  "small_heap = \<lparr>mem = (\<lambda>_. 7), daif = 0, uart0_addr = 0x9000000, dev_writes = [], ttbr0 = 0, tlb = (\<lambda>_. None),
     PAGE_ALLOC = page_alloc_new 1 8192\<rparr>"

lemma small_heap_inv: "pa_inv (PAGE_ALLOC small_heap)"
  by (simp add: small_heap_def pa_inv_def page_alloc_new_capacity)

lemma small_heap_alloc:
  "pa_alloc Dev (PAGE_ALLOC small_heap) (Suc 0) =
     Inr (Some \<lparr>buf = 8192, len = 4096\<rparr>, \<lparr>bitmap_alloc = \<lparr>bitmap = [1]\<rparr>, ram_base = 8192\<rparr>)"
  "pa_alloc Dev (PAGE_ALLOC small_heap) 2 =
     Inr (Some \<lparr>buf = 8192, len = 8192\<rparr>, \<lparr>bitmap_alloc = \<lparr>bitmap = [3]\<rparr>, ram_base = 8192\<rparr>)"
  unfolding small_heap_def kernel.simps by code_simp+

theorem new_zeroed_zeroes_first_page_witness:
  "\<exists>bx s'. pagebox_new_zeroed Dev 5000 small_heap = Inr (bx, s') \<and>
     mem s' (pagebox_as_ref bx + 4095) = 0 \<and> mem s' (pagebox_as_ref bx + 4096) = 7"
proof -
  have "\<exists>bx s'. pagebox_new_zeroed Dev 5000 small_heap = Inr (bx, s')"
    using new_zeroed_ok [OF small_heap_inv, of Dev 5000]
    by (auto simp: div_ceil_def small_heap_alloc [unfolded numeral_2_eq_2])
  with new_zeroed_zeroes_first_page [OF small_heap_inv, of Dev 5000] show ?thesis
    by (auto simp: small_heap_def split: sum.splits prod.splits)
qed

text \<open>
  Dropping a \<open>PageSlice\<close> obtained from \<open>alloc\<close> gives its pages back: the allocator is as before
  the allocation, the interrupt mask is untouched, and in the dev profile the bytes of the slice,
  and only they, are poisoned with \<open>0xa1\<close>.
\<close>

theorem alloc_drop_restores:
  assumes "pa_inv (PAGE_ALLOC s)" and "kalloc b n s = Inr (sl, s1)"
  shows "\<exists>s2. slice_drop b sl s1 = Inr ((), s2) \<and> PAGE_ALLOC s2 = PAGE_ALLOC s \<and> daif s2 = daif s \<and>
    (\<forall>a. mem s2 a = (if b = Dev \<and> buf sl \<le> a \<and> a < buf sl + len sl then 0xa1 else mem s1 a))"
proof -
  from kalloc_slice [OF assms] obtain pa where
    pa: "pa_alloc b (PAGE_ALLOC s) n = Inr (Some sl, pa)" "s1 = s\<lparr>PAGE_ALLOC := pa\<rparr>" .
  from pa_free_alloc [OF assms(1) pa(1)] have
    "pa_free b (PAGE_ALLOC s1) (buf sl) (len sl div 4096) = Inr (PAGE_ALLOC s)" by (simp add: pa(2))
  from slice_drop_ok [OF this] show ?thesis by (simp add: pa(2) write_bytes_def)
qed

theorem alloc_drop_restores_witness:
  "\<exists>sl s1 s2. kalloc Dev 2 small_heap = Inr (sl, s1) \<and> slice_drop Dev sl s1 = Inr ((), s2) \<and>
     PAGE_ALLOC s2 = PAGE_ALLOC small_heap"
proof -
  have "\<exists>s1. kalloc Dev 2 small_heap = Inr (\<lparr>buf = 8192, len = 8192\<rparr>, s1)"
    using kalloc_ok [OF small_heap_inv, of Dev 2] by (auto simp: small_heap_alloc)
  with alloc_drop_restores [OF small_heap_inv, of Dev 2] show ?thesis by blast
qed

text \<open>
  C34: a value moved into a \<open>PageBox\<close> comes back unchanged from \<open>into_inner\<close>, whatever its size, and
  the pages of the box are free again. On the way out \<open>into_inner\<close> drops the box, so the destructor
  \<open>drop_T\<close> runs on the bytes the value was just moved out of.
\<close>

theorem pagebox_into_inner_roundtrip:
  assumes "pa_inv (PAGE_ALLOC s)" and "pagebox_new b val s = Inr (bx, s1)"
    and "drop_T (pagebox_as_ref bx) s1 = Inr s2" and "PAGE_ALLOC s2 = PAGE_ALLOC s1"
  shows "\<exists>s3. pagebox_into_inner b drop_T (length val) bx s1 = Inr (val, s3) \<and>
    slice_drop b (slice bx) s2 = Inr ((), s3) \<and> PAGE_ALLOC s3 = PAGE_ALLOC s"
proof -
  let ?n = "div_ceil (length val) 4096"
  from assms(2) obtain t where t: "kalloc b ?n s = Inr (slice bx, t)"
    and s1: "s1 = t\<lparr>mem := write_slice (mem t) (buf (slice bx)) val\<rparr>"
    by (auto simp: pagebox_new_def PAGE_SIZE_def slice_as_ptr_def returns_iff)
  from kalloc_slice [OF assms(1) t] obtain pa where
    pa: "pa_alloc b (PAGE_ALLOC s) ?n = Inr (Some (slice bx), pa)" "t = s\<lparr>PAGE_ALLOC := pa\<rparr>" .
  have "PAGE_ALLOC s2 = pa" by (simp add: assms(4) s1 pa(2))
  with pa_free_alloc [OF assms(1) pa(1)] have
    "pa_free b (PAGE_ALLOC s2) (buf (slice bx)) (len (slice bx) div 4096) = Inr (PAGE_ALLOC s)" by simp
  note drop = slice_drop_ok [OF this]
  have "map (\<lambda>i. mem s1 (buf (slice bx) + i)) [0..<length val] = val"
    by (rule nth_equalityI) (simp_all add: s1 write_slice_def)
  with drop assms(3) show ?thesis
    by (simp add: pagebox_into_inner_def pagebox_drop_def slice_as_ptr_def pagebox_as_ref_def)
qed

theorem pagebox_into_inner_roundtrip_witness:
  "\<exists>bx s1 s3. pagebox_new Dev [1, 2, 3] small_heap = Inr (bx, s1) \<and>
     pagebox_into_inner Dev (\<lambda>_. Inr) 3 bx s1 = Inr ([1, 2, 3], s3) \<and> PAGE_ALLOC s3 = PAGE_ALLOC small_heap"
proof -
  have "\<exists>bx s1. pagebox_new Dev [1, 2, 3] small_heap = Inr (bx, s1)"
    using kalloc_ok [OF small_heap_inv, of Dev 1]
    by (auto simp: pagebox_new_def PAGE_SIZE_def div_ceil_def small_heap_alloc)
  then obtain bx s1 where new: "pagebox_new Dev [1, 2, 3] small_heap = Inr (bx, s1)" by blast
  from pagebox_into_inner_roundtrip [OF small_heap_inv new, of "\<lambda>_. Inr" s1] new show ?thesis
    by (auto simp: eval_nat_numeral)
qed

text \<open>
  \<open>overwrite_free_pages\<close> fills every free page of the window with \<open>0xb4\<close> and changes no byte of
  a page in use, nor anything outside the window; it never panics.
\<close>

theorem overwrite_free_pages_spares_used:
  assumes "pa_inv (PAGE_ALLOC s)"
  shows "\<exists>s'. overwrite_free_pages b s = Inr s' \<and> PAGE_ALLOC s' = PAGE_ALLOC s \<and> daif s' = daif s \<and>
    (\<forall>a. mem s' a = (if a \<in> free_bytes (PAGE_ALLOC s) {..<pa_capacity (PAGE_ALLOC s)} then 0xb4 else mem s a))"
proof -
  let ?s = "console_print ''Cleaning RAM: '' s"
  have pa: "PAGE_ALLOC (console_print str t) = PAGE_ALLOC t" for str and t :: "'a kernel_scheme"
    by (simp add: print_writes)
  from overwrite_loop [OF assms order.refl, of b 0 ?s] obtain c ws where
    "foldM (overwrite_page b (PAGE_ALLOC s))
       (enumerate 0 (iterator_collect (bitmap_iter (bitmap_alloc (PAGE_ALLOC s))))) (0, ?s) =
     Inr (c, ?s\<lparr>mem := (\<lambda>a. if a \<in> free_bytes (PAGE_ALLOC s) {..<pa_capacity (PAGE_ALLOC s)} then 0xb4
       else mem ?s a), dev_writes := dev_writes ?s @ ws\<rparr>)"
    by (auto simp: enumerate_bits pa_capacity_def)
  then show ?thesis by (auto simp: overwrite_free_pages_def console_println_def pa Let_def)
qed

theorem overwrite_free_pages_spares_used_witness:
  "\<exists>s'. overwrite_free_pages Dev small_heap = Inr s' \<and> mem s' 8191 = 7 \<and> mem s' 8192 = 0xb4"
proof -
  have "8192 \<in> free_bytes (PAGE_ALLOC small_heap) {..<64}" "8191 \<notin> free_bytes (PAGE_ALLOC small_heap) {..<64}"
    by (auto simp: free_bytes_def small_heap_def page_alloc_new_def used_bitmap_new page_addr_def)
  with overwrite_free_pages_spares_used [OF small_heap_inv, of Dev] show ?thesis
    by (auto simp: small_heap_def page_alloc_new_capacity)
qed

end
