(* ===== verification/Page_Table.thy ===== *)
theory Page_Table
  imports Kernel_Heap
begin

text \<open>
  The page tables of \<open>src/kernel/src/aarch64/mmu.rs\<close>: entries, the walk that allocates missing
  tables, mapping and unmapping of pages, and the search for a free range of user addresses.

  A \<open>PageTable\<close> is 512 words in memory; a reference to one is its address, and an operation on
  \<open>&mut self\<close> works on the memory of the kernel state. The log lines of the feature \<open>log_mmu\<close>, which
  is off by default, are left out. Sums of lengths and addresses the search forms stay below
  \<open>2 ^ 41\<close> (lemma \<open>measure_bound\<close>), so they are plain sums; sums that involve an address chosen by
  the user go through \<open>usize_add\<close>.
\<close>

section \<open>Entries\<close>

definition PT_PAGE :: u64 where "PT_PAGE = 0b11"
definition PT_BLOCK :: u64 where "PT_BLOCK = 0b01"
definition PT_AF :: u64 where "PT_AF = push_bit 10 1"
definition PT_RW_EL1 :: u64 where "PT_RW_EL1 = push_bit 6 0b00"
definition PT_RW_EL0 :: u64 where "PT_RW_EL0 = push_bit 6 0b01"
definition PT_RO_EL1 :: u64 where "PT_RO_EL1 = push_bit 6 0b10"
definition PT_RO_EL0 :: u64 where "PT_RO_EL0 = push_bit 6 0b11"
definition PT_ISH :: u64 where "PT_ISH = push_bit 8 0b11"
definition PT_MEM :: u64 where "PT_MEM = push_bit 2 0"
definition PT_DEV :: u64 where "PT_DEV = push_bit 2 1"

text \<open>\<open>self.0[idx]\<close> for reading and for writing.\<close>

definition pt_entry :: "memory \<Rightarrow> usize \<Rightarrow> usize \<Rightarrow> u64 res" where
  "pt_entry m self idx = (if idx < 512 then Inr (read_u64 m (self + 8 * idx)) else Inl IndexOutOfBounds)"

definition pt_set :: "usize \<Rightarrow> usize \<Rightarrow> u64 \<Rightarrow> 'z kernel_scheme \<Rightarrow> 'z kernel_scheme res" where
  "pt_set self idx v s =
     (if idx < 512 then Inr (s\<lparr>mem := write_u64 (mem s) (self + 8 * idx) v\<rparr>) else Inl IndexOutOfBounds)"

text \<open>The table an entry points to, \<open>PhyAddr(raw as usize & 0x7FFFFFF000).virt()\<close>.\<close>

definition table_ptr :: "u64 \<Rightarrow> usize" where
  "table_ptr raw = virt (unat raw AND 0x7FFFFFF000)"

text \<open>\<open>PageGetResult\<close> and \<open>PageGetMutResult\<close>, which differ only in the kind of reference.\<close>

datatype PageGetResult = PgFree | PgTable usize | PgBlock

definition pt_get :: "memory \<Rightarrow> usize \<Rightarrow> usize \<Rightarrow> PageGetResult res" where
  "pt_get m self idx = bnd (pt_entry m self idx) (\<lambda>raw. Inr (
     if raw = 0 then PgFree
     else if raw AND 0b11 = PT_BLOCK then PgBlock
     else PgTable (table_ptr raw)))"

definition pt_get_mut :: "memory \<Rightarrow> usize \<Rightarrow> usize \<Rightarrow> PageGetResult res" where
  "pt_get_mut m self idx = bnd (pt_entry m self idx) (\<lambda>raw. Inr (
     if raw = 0 then PgFree
     else if raw AND 0b11 = PT_BLOCK then PgBlock
     else PgTable (table_ptr raw)))"

text \<open>\<open>size_of::<PageTable>()\<close> is 4096; \<open>leak\<close> keeps the new table allocated.\<close>

definition get_mut_or_alloc ::
  "profile \<Rightarrow> usize \<Rightarrow> usize \<Rightarrow> u64 \<Rightarrow> 'z kernel_scheme \<Rightarrow> (usize \<times> 'z kernel_scheme) res" where
  "get_mut_or_alloc b self idx flags s =
     bnd (pt_entry (mem s) self idx) (\<lambda>raw.
     if raw = 0 then
       bnd (pagebox_new_zeroed b 4096 s) (\<lambda>(bx, s).
       let new_table = pagebox_leak bx; phy_addr = from_virt new_table in
       bnd (pt_set self idx (of_nat phy_addr OR flags) s) (\<lambda>s. Inr (new_table, s)))
     else Inr (table_ptr raw, s))"

section \<open>Mapping and unmapping pages\<close>

text \<open>\<open>tlbi vmalle1is\<close> between barriers: no cached translation survives.\<close>

definition tlb_flush :: "'z machine_scheme \<Rightarrow> 'z machine_scheme" where
  "tlb_flush s = s\<lparr>tlb := (\<lambda>_. None)\<rparr>"

definition COMMON_FLAGS :: u64 where
  "COMMON_FLAGS = PT_PAGE OR PT_AF"

definition TABLE_FLAGS :: u64 where
  "TABLE_FLAGS = PT_PAGE OR PT_AF OR PT_ISH OR PT_MEM"

text \<open>The walk of \<open>vmap_at\<close> from the L0 table down to the L3 table of \<open>vaddr\<close>.\<close>

definition vmap_walk ::
  "profile \<Rightarrow> usize \<Rightarrow> usize \<Rightarrow> 'z kernel_scheme \<Rightarrow> (usize \<times> 'z kernel_scheme) res" where
  "vmap_walk b self vaddr s =
     bnd (get_mut_or_alloc b self (vaddr div 2 ^ 39) TABLE_FLAGS s) (\<lambda>(l1, s).
     bnd (get_mut_or_alloc b l1 ((vaddr div 2 ^ 30) mod 512) TABLE_FLAGS s) (\<lambda>(l2, s).
     get_mut_or_alloc b l2 ((vaddr div 2 ^ 21) mod 512) TABLE_FLAGS s))"

definition vmap_at ::
  "profile \<Rightarrow> usize \<Rightarrow> usize \<Rightarrow> PhyAddr \<Rightarrow> u64 \<Rightarrow> 'z kernel_scheme \<Rightarrow> 'z kernel_scheme res" where
  "vmap_at b self vaddr paddr attrs s =
     bnd (assert (vaddr < 0x8000000000) ''vaddr < 0x8000000000'') (\<lambda>_.
     bnd (assert (vaddr mod PAGE_SIZE = 0) ''vaddr % PAGE_SIZE == 0'') (\<lambda>_.
     bnd (vmap_walk b self vaddr s) (\<lambda>(l3, s).
     bnd (pt_entry (mem s) l3 ((vaddr div 2 ^ 12) mod 512)) (\<lambda>entry.
     bnd (assert (entry = 0) ''Tried to map memory that is already occupied'') (\<lambda>_.
     bnd (pt_set l3 ((vaddr div 2 ^ 12) mod 512) (of_nat paddr OR COMMON_FLAGS OR attrs) s) (\<lambda>s.
     Inr (tlb_flush s)))))))"

definition vunmap_single :: "usize \<Rightarrow> usize \<Rightarrow> 'z kernel_scheme \<Rightarrow> 'z kernel_scheme res" where
  "vunmap_single self vaddr s =
     bnd (assert (vaddr < 0x8000000000) ''vaddr < 0x8000000000'') (\<lambda>_.
     bnd (assert (vaddr mod PAGE_SIZE = 0) ''vaddr % PAGE_SIZE == 0'') (\<lambda>_.
     bnd (pt_get_mut (mem s) self (vaddr div 2 ^ 39)) (\<lambda>r. case r of
       PgFree \<Rightarrow> Inr s
     | PgBlock \<Rightarrow> Inl (NotImplemented ''Splitting L0 blocks is not implemented'')
     | PgTable l1 \<Rightarrow>
     bnd (pt_get_mut (mem s) l1 ((vaddr div 2 ^ 30) mod 512)) (\<lambda>r. case r of
       PgFree \<Rightarrow> Inr s
     | PgBlock \<Rightarrow> Inl (NotImplemented ''Splitting L1 blocks is not implemented'')
     | PgTable l2 \<Rightarrow>
     bnd (pt_get_mut (mem s) l2 ((vaddr div 2 ^ 21) mod 512)) (\<lambda>r. case r of
       PgFree \<Rightarrow> Inr s
     | PgBlock \<Rightarrow> Inl (NotImplemented ''Splitting L2 blocks is not implemented'')
     | PgTable l3 \<Rightarrow>
     bnd (pt_set l3 ((vaddr div 2 ^ 12) mod 512) 0 s) (\<lambda>s. Inr (tlb_flush s)))))))"

text \<open>\<open>(0..n).step_by(PAGE_SIZE)\<close>.\<close>

definition page_offsets :: "usize \<Rightarrow> usize list" where
  "page_offsets n = map (\<lambda>i. i * PAGE_SIZE) [0..<div_ceil n PAGE_SIZE]"

definition vunmap :: "profile \<Rightarrow> usize \<Rightarrow> usize \<Rightarrow> usize \<Rightarrow> 'z kernel_scheme \<Rightarrow> 'z kernel_scheme res" where
  "vunmap b self vaddr size_bytes =
     foldM (\<lambda>offset s. bnd (usize_add b vaddr offset) (\<lambda>v. vunmap_single self v s))
       (page_offsets size_bytes)"

section \<open>Searching for free addresses\<close>

datatype ContiguousRegion = Allocated usize | FreeRegion usize

primrec len_bytes :: "ContiguousRegion \<Rightarrow> usize" where
  "len_bytes (Allocated l) = l"
| "len_bytes (FreeRegion l) = l"

text \<open>What the loop of \<open>measure_contiguous_region_helper\<close> takes entry \<open>idx\<close> of a table for.\<close>

definition entry_kind :: "memory \<Rightarrow> usize \<Rightarrow> usize \<Rightarrow> usize \<Rightarrow> PageGetResult res" where
  "entry_kind m self addr_shift idx =
     (if addr_shift \<noteq> 21 then pt_get m self idx
      else bnd (pt_entry m self idx) (\<lambda>raw. Inr (if raw = 0 then PgFree else PgBlock)))"

text \<open>
  One turn of the loop of \<open>measure_contiguous_region_helper\<close> up to its \<open>match\<close>: either the function
  returns a region or the loop goes on with the new \<open>is_allocated\<close>. The recursive call is the
  argument \<open>inner\<close>.
\<close>

definition measure_entry ::
  "memory \<Rightarrow> usize \<Rightarrow> (usize \<Rightarrow> usize \<Rightarrow> ContiguousRegion res) \<Rightarrow> usize \<Rightarrow> usize \<Rightarrow>
   usize \<Rightarrow> usize \<Rightarrow> bool \<Rightarrow> (ContiguousRegion + bool) res" where
  "measure_entry m self inner addr_shift idx current_vaddr current_len is_allocated =
     bnd (entry_kind m self addr_shift idx) (\<lambda>result.
     case result of
       PgBlock \<Rightarrow> Inr (if \<not> is_allocated \<and> current_len \<noteq> 0 then Inl (FreeRegion current_len) else Inr True)
     | PgFree \<Rightarrow> Inr (if is_allocated \<and> current_len \<noteq> 0 then Inl (Allocated current_len) else Inr False)
     | PgTable inner_table \<Rightarrow>
         bnd (assert (addr_shift \<noteq> 12) ''Got an inner page table at a L3 table'') (\<lambda>_.
         let max_expected_size = (512 - (current_vaddr div 2 ^ (addr_shift - 9)) mod 512) * (2 ^ (addr_shift - 9) div 512) in
         bnd (inner inner_table current_vaddr) (\<lambda>r. Inr (case r of
           Allocated l \<Rightarrow>
             if \<not> is_allocated \<and> current_len \<noteq> 0 then Inl (FreeRegion current_len)
             else if l \<noteq> max_expected_size then Inl (Allocated (current_len + l))
             else Inr True
         | FreeRegion l \<Rightarrow>
             if is_allocated \<and> current_len \<noteq> 0 then Inl (Allocated current_len)
             else if l \<noteq> max_expected_size then Inl (FreeRegion (current_len + l))
             else Inr False))))"

primrec measure_loop ::
  "memory \<Rightarrow> usize \<Rightarrow> (usize \<Rightarrow> usize \<Rightarrow> ContiguousRegion res) \<Rightarrow> usize \<Rightarrow> usize \<Rightarrow> usize \<Rightarrow>
   usize list \<Rightarrow> usize \<Rightarrow> usize \<Rightarrow> bool \<Rightarrow> ContiguousRegion res" where
  "measure_loop m self inner max_alloc_bytes max_free_bytes addr_shift [] current_vaddr current_len is_allocated =
     Inr (if is_allocated then Allocated current_len else FreeRegion current_len)"
| "measure_loop m self inner max_alloc_bytes max_free_bytes addr_shift (idx # idxs) current_vaddr current_len is_allocated =
     bnd (measure_entry m self inner addr_shift idx current_vaddr current_len is_allocated) (\<lambda>r. case r of
       Inl region \<Rightarrow> Inr region
     | Inr is_allocated \<Rightarrow>
         let page_size = 2 ^ (addr_shift - 9);
             current_len = current_len + page_size;
             current_vaddr = current_vaddr + page_size in
         if is_allocated \<and> current_len \<ge> max_alloc_bytes then Inr (Allocated current_len)
         else if \<not> is_allocated \<and> current_len \<ge> max_free_bytes then Inr (FreeRegion current_len)
         else measure_loop m self inner max_alloc_bytes max_free_bytes addr_shift idxs
                current_vaddr current_len is_allocated)"

function measure_contiguous_region_helper ::
  "memory \<Rightarrow> usize \<Rightarrow> usize \<Rightarrow> usize \<Rightarrow> usize \<Rightarrow> usize \<Rightarrow> ContiguousRegion res" where
  "measure_contiguous_region_helper m self start_vaddr max_alloc_bytes max_free_bytes addr_shift =
     bnd (assert (addr_shift \<ge> 21) ''addr_shift < 21'') (\<lambda>_.
     bnd (assert (addr_shift \<le> 39) ''addr_shift > 39'') (\<lambda>_.
     measure_loop m self
       (\<lambda>inner_table v. measure_contiguous_region_helper m inner_table v max_alloc_bytes max_free_bytes (addr_shift - 9))
       max_alloc_bytes max_free_bytes addr_shift [(start_vaddr div 2 ^ addr_shift) mod 512..<512]
       start_vaddr 0 False))"
  by pat_completeness auto
termination
  by (relation "measure (\<lambda>(m, self, v, ma, mf, sh). sh)") (auto simp: returns_iff)

declare measure_contiguous_region_helper.simps [simp del]

definition measure_contiguous_region ::
  "memory \<Rightarrow> usize \<Rightarrow> usize \<Rightarrow> usize \<Rightarrow> usize \<Rightarrow> ContiguousRegion res" where
  "measure_contiguous_region m self start_vaddr max_alloc_bytes max_free_bytes =
     measure_contiguous_region_helper m self start_vaddr max_alloc_bytes max_free_bytes 39"

text \<open>Every region measured is longer than zero, which is why the search below ends.\<close>

lemma measure_entry_Inl:
  assumes "measure_entry m self inner sh idx v cl al = Inr (Inl r)"
  shows "len_bytes r = cl \<and> cl \<noteq> 0 \<or>
    (\<exists>t r'. entry_kind m self sh idx = Inr (PgTable t) \<and> inner t v = Inr r' \<and> len_bytes r = cl + len_bytes r')"
proof -
  from assms obtain k where k: "entry_kind m self sh idx = Inr k"
    by (auto simp: measure_entry_def returns_iff)
  show ?thesis
  proof (cases k)
    case (PgTable t)
    with assms k obtain r' where "inner t v = Inr r'" by (auto simp: measure_entry_def returns_iff Let_def)
    with PgTable assms k show ?thesis
      by (cases r') (auto simp: measure_entry_def returns_iff Let_def split: if_splits)
  qed (use assms k in \<open>auto simp: measure_entry_def split: if_splits\<close>)
qed

lemma measure_loop_pos:
  assumes "measure_loop m self inner ma mf sh idxs v cl al = Inr r" and "idxs \<noteq> [] \<or> 0 < cl"
    and "\<And>t u r'. inner t u = Inr r' \<Longrightarrow> 0 < len_bytes r'"
  shows "0 < len_bytes r"
  using assms(1,2)
proof (induction idxs arbitrary: v cl al)
  case Nil
  then show ?case by (auto split: if_splits)
next
  case (Cons idx idxs)
  from Cons.prems(1) [unfolded measure_loop.simps Let_def bnd_returns_iff] obtain e where
    e: "measure_entry m self inner sh idx v cl al = Inr e"
    and rest: "(case e of Inl region \<Rightarrow> Inr region | Inr al \<Rightarrow>
      if al \<and> cl + 2 ^ (sh - 9) \<ge> ma then Inr (Allocated (cl + 2 ^ (sh - 9)))
      else if \<not> al \<and> cl + 2 ^ (sh - 9) \<ge> mf then Inr (FreeRegion (cl + 2 ^ (sh - 9)))
      else measure_loop m self inner ma mf sh idxs (v + 2 ^ (sh - 9)) (cl + 2 ^ (sh - 9)) al) = Inr r"
    by blast
  show ?case
  proof (cases e)
    case (Inl region)
    with measure_entry_Inl [of m self inner sh idx v cl al region] e rest show ?thesis
      by (auto dest: assms(3))
  next
    case (Inr al')
    with rest Cons.IH [of "v + 2 ^ (sh - 9)" "cl + 2 ^ (sh - 9)" al'] show ?thesis
      by (auto split: if_splits)
  qed
qed

lemma measure_pos:
  "measure_contiguous_region_helper m self v ma mf sh = Inr r \<Longrightarrow> 0 < len_bytes r"
proof (induction m self v ma mf sh arbitrary: r rule: measure_contiguous_region_helper.induct)
  case (1 m self v ma mf sh)
  from 1(2) have sh: "21 \<le> sh" "sh \<le> 39" and loop: "measure_loop m self
      (\<lambda>t u. measure_contiguous_region_helper m t u ma mf (sh - 9)) ma mf sh
      [(v div 2 ^ sh) mod 512..<512] v 0 False = Inr r"
    by (subst (asm) measure_contiguous_region_helper.simps, simp add: returns_iff)+
  show ?case
  proof (rule measure_loop_pos [OF loop])
    show "0 < len_bytes r'" if "measure_contiguous_region_helper m t u ma mf (sh - 9) = Inr r'" for t u r'
      using 1(1) sh that by (simp add: returns_iff)
  qed (simp add: upt_rec)
qed

text \<open>The loop of \<open>find_hole\<close>, from \<open>current_vaddr\<close> on.\<close>

function find_hole :: "memory \<Rightarrow> usize \<Rightarrow> usize \<Rightarrow> usize \<Rightarrow> usize option res" where
  "find_hole m self current_vaddr size_bytes =
     (if current_vaddr < 0x8000000000 then
        bnd (measure_contiguous_region m self current_vaddr 0xffffffffffffffff size_bytes) (\<lambda>r. case r of
          Allocated l \<Rightarrow> find_hole m self (current_vaddr + l) size_bytes
        | FreeRegion l \<Rightarrow>
            if l \<ge> size_bytes then Inr (Some current_vaddr)
            else find_hole m self (current_vaddr + l) size_bytes)
      else Inr None)"
  by pat_completeness auto
termination
  by (relation "measure (\<lambda>(m, self, v, n). 0x8000000000 - v)")
    (auto simp: measure_contiguous_region_def dest!: measure_pos)

declare find_hole.simps [simp del]

definition vmap ::
  "profile \<Rightarrow> usize \<Rightarrow> PhyAddr \<Rightarrow> usize \<Rightarrow> u64 \<Rightarrow> 'z kernel_scheme \<Rightarrow> (usize \<times> 'z kernel_scheme) res" where
  "vmap b self paddr size_bytes attrs s =
     bnd (assert (size_bytes mod PAGE_SIZE = 0) ''size_bytes % PAGE_SIZE == 0'') (\<lambda>_.
     bnd (find_hole (mem s) self 0x50000000 size_bytes) (\<lambda>hole.
     bnd (expect hole ''Out of virtual memory space'') (\<lambda>vaddr.
     bnd (foldM (\<lambda>offset s.
            bnd (usize_add b vaddr offset) (\<lambda>v.
            bnd (usize_add b paddr offset) (\<lambda>p. vmap_at b self v p attrs s)))
          (page_offsets size_bytes) s) (\<lambda>s. Inr (vaddr, s)))))"

section \<open>The search returns\<close>

lemma pt_entry_ok [simp]: "idx < 512 \<Longrightarrow> pt_entry m self idx = Inr (read_u64 m (self + 8 * idx))"
  by (simp add: pt_entry_def)

lemma pt_get_eq:
  "idx < 512 \<Longrightarrow> pt_get m self idx = Inr (let raw = read_u64 m (self + 8 * idx) in
     if raw = 0 then PgFree else if raw AND 3 = 1 then PgBlock else PgTable (table_ptr raw))"
  by (simp add: pt_get_def PT_BLOCK_def Let_def)

lemma pt_get_mut_eq: "pt_get_mut = pt_get"
  by (simp add: fun_eq_iff pt_get_def pt_get_mut_def)

lemma entry_kind_eq:
  "idx < 512 \<Longrightarrow> entry_kind m self sh idx = Inr (let raw = read_u64 m (self + 8 * idx) in
     if raw = 0 then PgFree else if sh = 21 \<or> raw AND 3 = 1 then PgBlock else PgTable (table_ptr raw))"
  by (simp add: entry_kind_def pt_get_eq Let_def)

lemma entry_kind_cases:
  assumes "idx < 512"
  obtains (free) "entry_kind m self sh idx = Inr PgFree" "read_u64 m (self + 8 * idx) = 0"
  | (block) "entry_kind m self sh idx = Inr PgBlock" "read_u64 m (self + 8 * idx) \<noteq> 0"
  | (table) "entry_kind m self sh idx = Inr (PgTable (table_ptr (read_u64 m (self + 8 * idx))))"
      "read_u64 m (self + 8 * idx) \<noteq> 0" "sh \<noteq> 21"
proof -
  consider "read_u64 m (self + 8 * idx) = 0" | "read_u64 m (self + 8 * idx) \<noteq> 0" "sh = 21 \<or> read_u64 m (self + 8 * idx) AND 3 = 1"
    | "read_u64 m (self + 8 * idx) \<noteq> 0" "sh \<noteq> 21" "read_u64 m (self + 8 * idx) AND 3 \<noteq> 1" by blast
  then show thesis using that by cases (auto simp: entry_kind_eq [OF assms])
qed

lemma measure_loop_ok:
  assumes "21 \<le> sh" and "set idxs \<subseteq> {..<512}" and "4096 dvd cl"
    and inner: "\<And>t u. sh \<noteq> 21 \<Longrightarrow> \<exists>r. inner t u = Inr r \<and> 4096 dvd len_bytes r \<and> len_bytes r \<le> 2 ^ (sh - 9)"
  shows "\<exists>r. measure_loop m self inner ma mf sh idxs v cl al = Inr r \<and> 4096 dvd len_bytes r \<and>
    len_bytes r \<le> cl + length idxs * 2 ^ (sh - 9)"
  using assms(2,3)
proof (induction idxs arbitrary: v cl al)
  case (Cons idx idxs)
  have idx: "idx < 512" and rest: "set idxs \<subseteq> {..<512}" using Cons.prems by auto
  have "(4096 :: nat) dvd 2 ^ (sh - 9)"
    using assms(1) le_imp_power_dvd [of 12 "sh - 9" "2 :: nat"] by simp
  with Cons.prems have dvd: "4096 dvd cl + 2 ^ (sh - 9)" by simp
  have entry: "\<exists>e. measure_entry m self inner sh idx v cl al = Inr e \<and>
      (\<forall>r. e = Inl r \<longrightarrow> 4096 dvd len_bytes r \<and> len_bytes r \<le> cl + 2 ^ (sh - 9))"
    using idx
  proof (cases rule: entry_kind_cases [of idx m self sh, consumes 1, case_names free block table])
    case table
    obtain r where r: "inner (table_ptr (read_u64 m (self + 8 * idx))) v = Inr r" "4096 dvd len_bytes r"
      "len_bytes r \<le> 2 ^ (sh - 9)"
      using inner [OF table(3)] by blast
    have "sh \<noteq> 12" using assms(1) by simp
    with table r Cons.prems show ?thesis by (cases r) (auto simp: measure_entry_def Let_def)
  qed (use Cons.prems in \<open>auto simp: measure_entry_def\<close>)
  then obtain e where e: "measure_entry m self inner sh idx v cl al = Inr e"
    "\<And>r. e = Inl r \<Longrightarrow> 4096 dvd len_bytes r \<and> len_bytes r \<le> cl + 2 ^ (sh - 9)" by blast
  show ?case
  proof (cases e)
    case (Inl r)
    with e show ?thesis by fastforce
  next
    case (Inr al')
    with e dvd Cons.IH [OF rest dvd, of "v + 2 ^ (sh - 9)" al'] show ?thesis
      by (auto simp: Let_def add.assoc)
  qed
qed auto

lemma measure_step_ok:
  assumes "21 \<le> sh" "sh \<le> 39"
    and "\<And>t u. sh \<noteq> 21 \<Longrightarrow> \<exists>r. measure_contiguous_region_helper m t u ma mf (sh - 9) = Inr r \<and>
      4096 dvd len_bytes r \<and> len_bytes r \<le> 2 ^ (sh - 9)"
  shows "\<exists>r. measure_contiguous_region_helper m self v ma mf sh = Inr r \<and> 4096 dvd len_bytes r \<and> len_bytes r \<le> 2 ^ sh"
proof -
  let ?i = "(v div 2 ^ sh) mod 512"
  have "(512 - ?i) * 2 ^ (sh - 9) \<le> 512 * 2 ^ (sh - 9)" by simp
  also have "\<dots> = (2 :: nat) ^ (9 + (sh - 9))" by (subst power_add) simp
  also have "\<dots> = 2 ^ sh" using assms(1) by simp
  finally have "(512 - ?i) * 2 ^ (sh - 9) \<le> (2 :: nat) ^ sh" .
  with measure_loop_ok [OF assms(1), of "[?i..<512]" 0
      "\<lambda>t u. measure_contiguous_region_helper m t u ma mf (sh - 9)" m self ma mf v False] assms
  show ?thesis by (subst measure_contiguous_region_helper.simps) fastforce
qed

text \<open>
  On tables as \<open>measure_contiguous_region\<close> reaches them the measurement returns a positive number of
  whole pages, no longer than the range of the table.
\<close>

lemma measure_bound:
  assumes "sh \<in> {21, 30, 39}"
  shows "\<exists>r. measure_contiguous_region_helper m self v ma mf sh = Inr r \<and> 0 < len_bytes r \<and>
    4096 dvd len_bytes r \<and> len_bytes r \<le> 2 ^ sh"
proof -
  note l2 = measure_step_ok [of 21 m ma mf, simplified]
  note l1 = measure_step_ok [of 30 m ma mf, simplified, OF l2]
  note l0 = measure_step_ok [of 39 m ma mf, simplified, OF l1]
  have "\<exists>r. measure_contiguous_region_helper m self v ma mf sh = Inr r \<and> 4096 dvd len_bytes r \<and> len_bytes r \<le> 2 ^ sh"
    using assms l2 [of self v] l1 [of self v] l0 [of self v] by auto
  then show ?thesis using measure_pos by blast
qed

lemma find_hole_returns: "\<exists>h. find_hole m self v n = Inr h"
proof (induction m self v n rule: find_hole.induct)
  case (1 m self v n)
  obtain r where "measure_contiguous_region m self v 0xffffffffffffffff n = Inr r"
    unfolding measure_contiguous_region_def using measure_bound [of 39 m self v _ n] by fast
  with 1 show ?case by (subst find_hole.simps) (auto split: ContiguousRegion.splits)
qed

section \<open>Tables as a tree\<close>

text \<open>
  The table reached from \<open>root\<close> along a path of indices, following entries the way the code does;
  and the entry of the last level for a user address: zero where the code takes it for unmapped.
\<close>

primrec table_at :: "memory \<Rightarrow> usize list \<Rightarrow> usize \<Rightarrow> usize option" where
  "table_at m [] root = Some root"
| "table_at m (i # p) root =
     (let e = read_u64 m (root + 8 * i) in if e = 0 then None else table_at m p (table_ptr e))"

definition va_path :: "usize \<Rightarrow> usize list" where
  "va_path v = [v div 2 ^ 39, (v div 2 ^ 30) mod 512, (v div 2 ^ 21) mod 512]"

definition leaf_idx :: "usize \<Rightarrow> usize" where
  "leaf_idx v = (v div 2 ^ 12) mod 512"

definition leaf :: "memory \<Rightarrow> usize \<Rightarrow> usize \<Rightarrow> u64" where
  "leaf m root v = (case table_at m (va_path v) root of
     None \<Rightarrow> 0 | Some l3 \<Rightarrow> read_u64 m (l3 + 8 * leaf_idx v))"

section \<open>What a free region guarantees\<close>

lemma measure_loop_sticky:
  assumes "0 < cl" and "\<forall>i \<in> set idxs. i < 512"
  shows "measure_loop m self inner ma mf sh idxs v cl True \<noteq> Inr (FreeRegion l)"
  using assms
proof (induction idxs arbitrary: v cl)
  case (Cons idx idxs)
  have idx: "idx < 512" and rest: "\<forall>i \<in> set idxs. i < 512" using Cons.prems by auto
  have "measure_entry m self inner sh idx v cl True \<noteq> Inr (Inl (FreeRegion l)) \<and>
      measure_entry m self inner sh idx v cl True \<noteq> Inr (Inr False)"
    using idx
  proof (cases rule: entry_kind_cases [of idx m self sh, consumes 1, case_names free block table])
    case table
    with Cons.prems(1) show ?thesis
      by (cases "inner (table_ptr (read_u64 m (self + 8 * idx))) v")
        (auto simp: measure_entry_def Let_def returns_iff split: ContiguousRegion.splits)
  qed (use Cons.prems in \<open>auto simp: measure_entry_def\<close>)
  then show ?case
    using Cons.IH [OF _ rest, of "cl + 2 ^ (sh - 9)" "v + 2 ^ (sh - 9)"]
    by (auto simp: Let_def returns_iff split: sum.splits if_splits)
qed auto

text \<open>The first entry of a region found free: it is empty, or its table starts with a free region.\<close>

lemma measure_free_first:
  assumes "measure_contiguous_region_helper m self v ma mf sh = Inr (FreeRegion l)"
  defines "i \<equiv> (v div 2 ^ sh) mod 512"
  shows "read_u64 m (self + 8 * i) = 0 \<or>
    (\<exists>l'. sh \<noteq> 21 \<and> measure_contiguous_region_helper m (table_ptr (read_u64 m (self + 8 * i))) v ma mf (sh - 9) =
        Inr (FreeRegion l') \<and> (l = l' \<or> l' = (512 - (v div 2 ^ (sh - 9)) mod 512) * (2 ^ (sh - 9) div 512)))"
proof -
  let ?inner = "\<lambda>t u. measure_contiguous_region_helper m t u ma mf (sh - 9)"
  have i: "i < 512" by (simp add: i_def)
  then have upt: "[i..<512] = i # [Suc i..<512]" by (simp add: upt_rec)
  from assms(1) have loop: "measure_loop m self ?inner ma mf sh (i # [Suc i..<512]) v 0 False = Inr (FreeRegion l)"
    unfolding i_def [symmetric] upt [symmetric]
    by (subst (asm) measure_contiguous_region_helper.simps) (simp add: returns_iff i_def)
  from loop [unfolded measure_loop.simps Let_def bnd_returns_iff] obtain e where
    e: "measure_entry m self ?inner sh i v 0 False = Inr e"
    and rest: "(case e of Inl region \<Rightarrow> Inr region | Inr al \<Rightarrow>
      if al \<and> 0 + 2 ^ (sh - 9) \<ge> ma then Inr (Allocated (0 + 2 ^ (sh - 9)))
      else if \<not> al \<and> 0 + 2 ^ (sh - 9) \<ge> mf then Inr (FreeRegion (0 + 2 ^ (sh - 9)))
      else measure_loop m self ?inner ma mf sh [Suc i..<512] (v + 2 ^ (sh - 9)) (0 + 2 ^ (sh - 9)) al) = Inr (FreeRegion l)"
    by blast
  have al: "e \<noteq> Inr True"
  proof
    assume "e = Inr True"
    with rest measure_loop_sticky [of "2 ^ (sh - 9)" "[Suc i..<512]" m self ?inner ma mf sh "v + 2 ^ (sh - 9)" l]
    show False by (auto split: if_splits)
  qed
  from i show ?thesis
  proof (cases rule: entry_kind_cases [of i m self sh, consumes 1, case_names free block table])
    case block
    with e al show ?thesis by (auto simp: measure_entry_def)
  next
    case table
    then obtain r where r: "?inner (table_ptr (read_u64 m (self + 8 * i))) v = Inr r" "sh \<noteq> 12"
      using e by (auto simp: measure_entry_def Let_def returns_iff)
    show ?thesis
    proof (cases r)
      case (Allocated x)
      with table r e al rest show ?thesis by (auto simp: measure_entry_def Let_def split: if_splits)
    next
      case (FreeRegion x)
      with table r e have "e = (if x \<noteq> (512 - (v div 2 ^ (sh - 9)) mod 512) * (2 ^ (sh - 9) div 512)
          then Inl (FreeRegion x) else Inr False)"
        by (auto simp: measure_entry_def Let_def)
      with FreeRegion table r rest show ?thesis by (auto split: if_splits)
    qed
  qed simp
qed

text \<open>At the last level measured, a free region is a run of empty entries, counted 4 KiB each.\<close>

lemma measure_l2_run:
  assumes "measure_loop m self inner ma mf 21 [i..<512] v cl False = Inr (FreeRegion l)" "i \<le> 512"
  shows "\<exists>k. l = cl + k * 4096 \<and> i + k \<le> 512 \<and> (\<forall>j < k. read_u64 m (self + 8 * (i + j)) = 0)"
  using assms
proof (induction "512 - i" arbitrary: i v cl)
  case 0
  then show ?case by (intro exI [of _ 0]) auto
next
  case (Suc n)
  then have i: "i < 512" and upt: "[i..<512] = i # [Suc i..<512]" by (simp_all add: upt_rec)
  show ?case
  proof (cases "read_u64 m (self + 8 * i) = 0")
    case True
    have here: "measure_entry m self inner 21 i v cl False = Inr (Inr False)"
      using i True by (simp add: measure_entry_def entry_kind_eq)
    show ?thesis
    proof (cases "mf \<le> cl + 4096")
      case True': True
      with Suc.prems here upt True show ?thesis by (intro exI [of _ 1]) (use i in auto)
    next
      case False
      with Suc.prems(1) here upt have "measure_loop m self inner ma mf 21 [Suc i..<512] (v + 4096) (cl + 4096) False = Inr (FreeRegion l)"
        by (simp add: Let_def)
      moreover have "n = 512 - Suc i" "Suc i \<le> 512" using Suc.hyps(2) i by simp_all
      ultimately obtain k where k: "l = cl + 4096 + k * 4096" "Suc i + k \<le> 512"
        "\<forall>j < k. read_u64 m (self + 8 * (Suc i + j)) = 0"
        using Suc.hyps(1) [of "Suc i" "v + 4096" "cl + 4096"] by blast
      have "\<forall>j < Suc k. read_u64 m (self + 8 * (i + j)) = 0"
        using k(3) True by (auto simp: less_Suc_eq_0_disj ac_simps)
      with k(1,2) show ?thesis by (intro exI [of _ "Suc k"]) auto
    qed
  next
    case False
    then have here: "measure_entry m self inner 21 i v cl False =
        Inr (if cl \<noteq> 0 then Inl (FreeRegion cl) else Inr True)"
      using i by (simp add: measure_entry_def entry_kind_eq)
    show ?thesis
    proof (cases "cl = 0")
      case True
      with Suc.prems(1) here upt measure_loop_sticky [of 4096 "[Suc i..<512]" m self inner ma mf 21 "v + 4096" l]
      show ?thesis by (auto simp: Let_def split: if_splits)
    next
      case False
      with Suc.prems(1) here upt i show ?thesis by (intro exI [of _ 0]) auto
    qed
  qed
qed

lemma measure_l2_free:
  assumes "measure_contiguous_region_helper m self v ma mf 21 = Inr (FreeRegion l)"
  shows "\<exists>k. l = k * 4096 \<and> (v div 2 ^ 21) mod 512 + k \<le> 512 \<and>
    (\<forall>j < k. read_u64 m (self + 8 * ((v div 2 ^ 21) mod 512 + j)) = 0)"
proof -
  have "measure_loop m self (\<lambda>t u. measure_contiguous_region_helper m t u ma mf 12) ma mf 21
      [(v div 2 ^ 21) mod 512..<512] v 0 False = Inr (FreeRegion l)"
    using assms by (subst (asm) measure_contiguous_region_helper.simps) simp
  from measure_l2_run [OF this] show ?thesis by simp
qed

lemma leaf_zeroI:
  assumes "u < 2 ^ 39"
  shows "read_u64 m root = 0 \<Longrightarrow> leaf m root u = 0"
    and "read_u64 m (table_ptr (read_u64 m root) + 8 * ((u div 2 ^ 30) mod 512)) = 0 \<Longrightarrow> leaf m root u = 0"
    and "read_u64 m (table_ptr (read_u64 m (table_ptr (read_u64 m root) + 8 * ((u div 2 ^ 30) mod 512))) +
      8 * ((u div 2 ^ 21) mod 512)) = 0 \<Longrightarrow> leaf m root u = 0"
  using assms by (simp_all add: leaf_def va_path_def Let_def)

lemma same_gigabyte:
  fixes u v :: nat
  assumes "v \<le> u" "u div 2 ^ 30 = v div 2 ^ 30"
  shows "v div 2 ^ 21 \<le> u div 2 ^ 21"
    and "(u div 2 ^ 21) mod 512 = (v div 2 ^ 21) mod 512 + (u div 2 ^ 21 - v div 2 ^ 21)"
proof -
  show le: "v div 2 ^ 21 \<le> u div 2 ^ 21" using assms(1) by (simp add: div_le_mono)
  have "v div 2 ^ 21 div 512 = v div 2 ^ 30" "u div 2 ^ 21 div 512 = u div 2 ^ 30"
    by (simp_all flip: div_mult2_eq)
  then show "(u div 2 ^ 21) mod 512 = (v div 2 ^ 21) mod 512 + (u div 2 ^ 21 - v div 2 ^ 21)"
    using assms(2) le div_mult_mod_eq [of "v div 2 ^ 21" 512] div_mult_mod_eq [of "u div 2 ^ 21" 512] by linarith
qed

lemma index_in_run:
  fixes u v :: nat
  assumes "v mod 4096 = 0" "v \<le> u" "u < v + k * 4096" "u div 2 ^ 30 = v div 2 ^ 30"
  shows "\<exists>j < k. (u div 2 ^ 21) mod 512 = (v div 2 ^ 21) mod 512 + j"
proof -
  define a where "a = v div 2 ^ 21"
  from assms(1) obtain q where q: "v = 4096 * q" by (rule mod_eq_0E)
  have "q div 512 = a" by (simp add: a_def q)
  then have "q < (a + 1) * 512" using dividend_less_times_div [of 512 q] by simp
  then have "v \<le> a * 2 ^ 21 + 2 ^ 21 - 4096" using q by simp
  moreover have "0 < k" using assms(2,3) by (cases k) auto
  ultimately have "u < (a + k) * 2 ^ 21" using assms(3) by (simp add: add_mult_distrib)
  then have "u div 2 ^ 21 < a + k" by (simp add: less_mult_imp_div_less)
  then have "u div 2 ^ 21 - v div 2 ^ 21 < k"
    using same_gigabyte(1) [OF assms(2,4)] unfolding a_def by linarith
  with same_gigabyte(2) [OF assms(2,4)] show ?thesis by blast
qed

lemma index_to_end:
  fixes u v :: nat
  assumes "v \<le> u" "u div 2 ^ 30 = v div 2 ^ 30"
  shows "\<exists>j < 512 - (v div 2 ^ 21) mod 512. (u div 2 ^ 21) mod 512 = (v div 2 ^ 21) mod 512 + j"
proof -
  have "u div 2 ^ 21 - v div 2 ^ 21 < 512 - (v div 2 ^ 21) mod 512"
    using same_gigabyte(2) [OF assms] mod_less_divisor [of 512 "u div 2 ^ 21"] by linarith
  with same_gigabyte(2) [OF assms] show ?thesis by blast
qed

text \<open>Within the gigabyte it starts in, a region measured as free has no mapped page.\<close>

lemma free_region_unmapped:
  assumes free: "measure_contiguous_region m root v ma mf = Inr (FreeRegion l)"
    and v: "v < 2 ^ 39" "v mod 4096 = 0" and u: "v \<le> u" "u < v + l" "u div 2 ^ 30 = v div 2 ^ 30"
  shows "leaf m root u = 0"
proof -
  have u39: "u < 2 ^ 39"
  proof -
    have "u div 2 ^ 30 < 512" using v(1) u(3) by (simp add: less_mult_imp_div_less)
    then show ?thesis by (simp add: div_less_iff_less_mult)
  qed
  let ?t1 = "table_ptr (read_u64 m root)"
  let ?e1 = "read_u64 m (?t1 + 8 * ((v div 2 ^ 30) mod 512))"
  let ?t2 = "table_ptr ?e1" and ?a = "(v div 2 ^ 21) mod 512"
  from measure_free_first [OF free [unfolded measure_contiguous_region_def]] v(1)
  consider "read_u64 m root = 0" | l1 where
    "measure_contiguous_region_helper m ?t1 v ma mf 30 = Inr (FreeRegion l1)"
    "l = l1 \<or> l1 = (512 - (v div 2 ^ 30) mod 512) * 2 ^ 21"
    by auto
  then show ?thesis
  proof cases
    case 1
    then show ?thesis using leaf_zeroI(1) [OF u39] by simp
  next
    case (2 l1)
    from measure_free_first [OF 2(1)] consider "?e1 = 0" | l2 where
      "measure_contiguous_region_helper m ?t2 v ma mf 21 = Inr (FreeRegion l2)"
      "l1 = l2 \<or> l2 = (512 - ?a) * 4096"
      by auto
    then show ?thesis
    proof cases
      case 1
      then show ?thesis using leaf_zeroI(2) [OF u39] u(3) by simp
    next
      case l2: (2 l2)
      from measure_l2_free [OF l2(1)] obtain k where k: "l2 = k * 4096" "?a + k \<le> 512"
        "\<And>j. j < k \<Longrightarrow> read_u64 m (?t2 + 8 * (?a + j)) = 0" by auto
      have "\<exists>j < k. (u div 2 ^ 21) mod 512 = ?a + j"
      proof (cases "k = 512 - ?a")
        case True
        then show ?thesis using index_to_end [OF u(1,3)] by simp
      next
        case False
        with l2(2) k have "l1 = k * 4096" "k < 512" by auto
        moreover have "(512 - (v div 2 ^ 30) mod 512) * 2 ^ 21 \<noteq> k * 4096"
        proof
          assume "(512 - (v div 2 ^ 30) mod 512) * 2 ^ 21 = k * 4096"
          then have "(512 - (v div 2 ^ 30) mod 512) * 512 = k" by simp
          moreover have "1 \<le> 512 - (v div 2 ^ 30) mod 512" using mod_less_divisor [of 512 "v div 2 ^ 30"] by linarith
          ultimately show False using \<open>k < 512\<close> by linarith
        qed
        ultimately have "l = k * 4096" using 2(2) by auto
        with u v(2) show ?thesis using index_in_run [of v u k] by simp
      qed
      with k(3) have "read_u64 m (?t2 + 8 * ((u div 2 ^ 21) mod 512)) = 0" by auto
      then show ?thesis using leaf_zeroI(3) [OF u39] u(3) by simp
    qed
  qed
qed

lemma find_hole_free:
  assumes "find_hole m root v0 n = Inr (Some v)" "v0 mod 4096 = 0"
  shows "v0 \<le> v \<and> v < 2 ^ 39 \<and> v mod 4096 = 0 \<and>
    (\<exists>l \<ge> n. measure_contiguous_region m root v 0xffffffffffffffff n = Inr (FreeRegion l))"
  using assms
proof (induction m root v0 n rule: find_hole.induct)
  case (1 m root v0 n)
  from 1(3) have v0: "v0 < 2 ^ 39" by (subst (asm) find_hole.simps) (auto split: if_splits)
  obtain r where r: "measure_contiguous_region m root v0 0xffffffffffffffff n = Inr r" "4096 dvd len_bytes r"
    unfolding measure_contiguous_region_def using measure_bound [of 39 m root v0 _ n] by fast
  have al: "(v0 + len_bytes r) mod 4096 = 0" using 1(4) r(2) by (simp add: mod_eq_0_iff_dvd)
  show ?case
  proof (cases r)
    case (Allocated l)
    with 1(3) r v0 have "find_hole m root (v0 + l) n = Inr (Some v)" by (subst (asm) find_hole.simps) simp
    with 1(1) [of r l] Allocated r v0 al show ?thesis by auto
  next
    case (FreeRegion l)
    show ?thesis
    proof (cases "n \<le> l")
      case True
      with 1(3) r v0 FreeRegion have "v = v0" by (subst (asm) find_hole.simps) simp
      with True r FreeRegion 1(4) v0 show ?thesis by auto
    next
      case False
      with 1(3) r v0 FreeRegion have "find_hole m root (v0 + l) n = Inr (Some v)"
        by (subst (asm) find_hole.simps) simp
      with 1(2) [of r l] FreeRegion False r v0 al show ?thesis by auto
    qed
  qed
qed

section \<open>Properties\<close>

text \<open>
  C18: \<open>find_hole\<close> always returns, without a panic, on any contents of the tables. An address it
  returns is page-aligned, at or above the given start and below 512 GiB, and within the gigabyte
  that address lies in no page of the range found is mapped.
\<close>

theorem find_hole_sound:
  assumes "start_vaddr mod 4096 = 0"
  shows "\<exists>h. find_hole m root start_vaddr size_bytes = Inr h \<and>
    (\<forall>v. h = Some v \<longrightarrow> start_vaddr \<le> v \<and> v < 2 ^ 39 \<and> v mod 4096 = 0 \<and>
       (\<forall>u. v \<le> u \<and> u < v + size_bytes \<and> u div 2 ^ 30 = v div 2 ^ 30 \<longrightarrow> leaf m root u = 0))"
proof -
  obtain h where h: "find_hole m root start_vaddr size_bytes = Inr h" using find_hole_returns by blast
  have "start_vaddr \<le> v \<and> v < 2 ^ 39 \<and> v mod 4096 = 0 \<and>
      (\<forall>u. v \<le> u \<and> u < v + size_bytes \<and> u div 2 ^ 30 = v div 2 ^ 30 \<longrightarrow> leaf m root u = 0)" if "h = Some v" for v
  proof -
    from find_hole_free [OF h [unfolded that] assms] obtain l where v: "start_vaddr \<le> v" "v < 2 ^ 39" "v mod 4096 = 0"
      and l: "size_bytes \<le> l" "measure_contiguous_region m root v 0xffffffffffffffff size_bytes = Inr (FreeRegion l)"
      by auto
    from free_region_unmapped [OF l(2) v(2,3)] l(1) v show ?thesis by auto
  qed
  with h show ?thesis by blast
qed

theorem find_hole_sound_witness:
  "\<exists>h. find_hole (\<lambda>_. 0) 0x1000 0x50000000 0x2000 = Inr h \<and> h \<noteq> Some 0"
proof -
  have "0x50000000 mod 4096 = (0 :: nat)" by simp
  from find_hole_sound [OF this, of "\<lambda>_. 0" "0x1000" "0x2000"] show ?thesis by fastforce
qed

definition crossing_mem :: memory where
  "crossing_mem = foldr (\<lambda>(a, v) m. write_u64 m a v)
     [(0xffffff0000001000, 0x2003), (0xffffff0000002008, 0x3003), (0xffffff0000002010, 0x4003),
      (0xffffff0000004000, 0x5003), (0xffffff0000005000, 0x6003)] (\<lambda>_. 0)"

lemma read_zero: "read_u64 (\<lambda>_. 0) a = 0"
  by (rule bit_word_eqI) (simp add: bit_read_u64)

lemma crossing_reads:
  "read_u64 crossing_mem 0xffffff0000001000 = 0x2003" "read_u64 crossing_mem 0xffffff0000002008 = 0x3003"
  "read_u64 crossing_mem 0xffffff0000002010 = 0x4003" "read_u64 crossing_mem 0xffffff0000002018 = 0"
  "read_u64 crossing_mem 0xffffff0000003ff0 = 0" "read_u64 crossing_mem 0xffffff0000003ff8 = 0"
  "read_u64 crossing_mem 0xffffff0000004ff8 = 0" "read_u64 crossing_mem 0xffffff0000004000 = 0x5003"
  "read_u64 crossing_mem 0xffffff0000005000 = 0x6003"
  by (simp_all add: crossing_mem_def read_write_same read_write_other read_zero)

lemma crossing_tables:
  "table_ptr 0x2003 = 0xffffff0000002000" "table_ptr 0x3003 = 0xffffff0000003000"
  "table_ptr 0x4003 = 0xffffff0000004000" "table_ptr 0x5003 = 0xffffff0000005000"
  by (simp_all add: table_ptr_def virt_def)

lemma measure_loop_step:
  assumes "measure_entry m self inner sh idx v cl al = Inr (Inr False)"
  shows "measure_loop m self inner ma mf sh (idx # idxs) v cl al =
    (if mf \<le> cl + 2 ^ (sh - 9) then Inr (FreeRegion (cl + 2 ^ (sh - 9)))
     else measure_loop m self inner ma mf sh idxs (v + 2 ^ (sh - 9)) (cl + 2 ^ (sh - 9)) False)"
  using assms by (simp add: Let_def)

lemma crossing_l2:
  "measure_contiguous_region_helper crossing_mem 0xffffff0000003000 0x7fc00000 ma 0x600000 21 = Inr (FreeRegion 0x2000)"
  "measure_contiguous_region_helper crossing_mem 0xffffff0000004000 0x7fe00000 ma 0x600000 21 = Inr (FreeRegion 0x1000)"
  by (subst measure_contiguous_region_helper.simps,
      simp add: measure_loop_step measure_entry_def entry_kind_eq crossing_reads del: measure_loop.simps(2))+

lemma crossing_l1:
  "measure_contiguous_region_helper crossing_mem 0xffffff0000002000 0x7fc00000 ma 0x600000 30 = Inr (FreeRegion 0x600000)"
proof -
  have upt: "[Suc 0..<512] = Suc 0 # 2 # 3 # [4..<512]"
    using upt_conv_Cons [of 1 512] upt_conv_Cons [of 2 512] upt_conv_Cons [of 3 512] by (simp add: numeral_2_eq_2 [symmetric] del: upt_rec_numeral)
  show ?thesis
    by (subst measure_contiguous_region_helper.simps)
      (simp add: upt measure_loop_step measure_entry_def entry_kind_eq crossing_reads crossing_tables crossing_l2
        del: measure_loop.simps(2) upt_rec_numeral)
qed

lemma crossing_l0:
  "measure_contiguous_region crossing_mem 0xffffff0000001000 0x7fc00000 ma 0x600000 = Inr (FreeRegion 0x600000)"
proof -
  have upt: "[0..<512] = 0 # [1..<512]" using upt_conv_Cons [of 0 512] by (simp del: upt_rec_numeral)
  have "measure_entry crossing_mem 0xffffff0000001000
      (\<lambda>t u. measure_contiguous_region_helper crossing_mem t u ma 0x600000 30) 39 0 0x7fc00000 0 False =
      Inr (Inl (FreeRegion 0x600000))"
    by (simp add: measure_entry_def entry_kind_eq crossing_reads crossing_tables crossing_l1)
  then show ?thesis
    unfolding measure_contiguous_region_def
    by (subst measure_contiguous_region_helper.simps) (simp add: upt del: upt_rec_numeral)
qed


end
