(* ===== verification/Page_Map.thy ===== *)
theory Page_Map
  imports Page_Table
begin

text \<open>
  Correctness of mapping and unmapping (\<open>vmap_at\<close>, \<open>vunmap\<close>, \<open>vmap\<close> of
  \<open>src/kernel/src/aarch64/mmu.rs\<close>, defined in theory \<open>Page_Table\<close>). The tables reached from a root
  form a tree of distinct pages the allocator has handed out; on such trees each operation changes
  the last-level entries it is meant to change, and no others.
\<close>

section \<open>Well-formed trees of tables\<close>

definition wf_path :: "usize list \<Rightarrow> bool" where
  "wf_path p \<longleftrightarrow> length p \<le> 3 \<and> (\<forall>i \<in> set p. i < 512)"

text \<open>A table descriptor: valid, of type table, and with an address below 512 GiB.\<close>

definition is_table_desc :: "u64 \<Rightarrow> bool" where
  "is_table_desc e \<longleftrightarrow> bit e 0 \<and> bit e 1 \<and> (\<forall>k \<in> {39..<48}. \<not> bit e k)"

text \<open>
  The tables reached from \<open>root\<close> are page-aligned pages of \<open>S\<close>, no table is reached along two paths,
  and an entry in use above the last level is a table descriptor.
\<close>

definition tree :: "memory \<Rightarrow> usize \<Rightarrow> usize set \<Rightarrow> bool" where
  "tree m root S \<longleftrightarrow>
     (\<forall>p t. wf_path p \<longrightarrow> table_at m p root = Some t \<longrightarrow> t \<in> S \<and> t mod 4096 = 0) \<and>
     (\<forall>p q t. wf_path p \<longrightarrow> wf_path q \<longrightarrow> table_at m p root = Some t \<longrightarrow> table_at m q root = Some t \<longrightarrow> p = q) \<and>
     (\<forall>p t i. wf_path p \<longrightarrow> length p < 3 \<longrightarrow> table_at m p root = Some t \<longrightarrow> i < 512 \<longrightarrow>
        read_u64 m (t + 8 * i) \<noteq> 0 \<longrightarrow> is_table_desc (read_u64 m (t + 8 * i)))"

text \<open>Entry \<open>i\<close> of the table at path \<open>q\<close>, zero where there is no table.\<close>

definition slot :: "memory \<Rightarrow> usize \<Rightarrow> usize list \<Rightarrow> usize \<Rightarrow> u64" where
  "slot m root q i = (case table_at m q root of None \<Rightarrow> 0 | Some t \<Rightarrow> read_u64 m (t + 8 * i))"

lemma leaf_slot: "leaf m root v = slot m root (va_path v) (leaf_idx v)"
  by (simp add: leaf_def slot_def)

lemma wf_path_Nil [simp]: "wf_path []"
  by (simp add: wf_path_def)

lemma wf_path_snoc: "wf_path (p @ [i]) \<longleftrightarrow> wf_path p \<and> length p < 3 \<and> i < 512"
  by (auto simp: wf_path_def)

lemma table_at_snoc:
  "table_at m (p @ [i]) root = (case table_at m p root of None \<Rightarrow> None
     | Some t \<Rightarrow> let e = read_u64 m (t + 8 * i) in if e = 0 then None else Some (table_ptr e))"
  by (induction p arbitrary: root) (simp_all add: Let_def)

lemma treeD:
  assumes "tree m root S" "wf_path p" "table_at m p root = Some t"
  shows "t \<in> S" "t mod 4096 = 0" "wf_path q \<Longrightarrow> table_at m q root = Some t \<Longrightarrow> q = p"
    "length p < 3 \<Longrightarrow> i < 512 \<Longrightarrow> read_u64 m (t + 8 * i) \<noteq> 0 \<Longrightarrow> is_table_desc (read_u64 m (t + 8 * i))"
  using assms unfolding tree_def by blast+

text \<open>Memory that agrees on the tables above the last level has the same tables.\<close>

lemma table_at_cong:
  assumes "\<And>p t i. wf_path p \<Longrightarrow> length p < 3 \<Longrightarrow> table_at m p root = Some t \<Longrightarrow> i < 512 \<Longrightarrow>
      read_u64 m' (t + 8 * i) = read_u64 m (t + 8 * i)"
  shows "wf_path q \<Longrightarrow> table_at m' q root = table_at m q root"
proof (induction q rule: rev_induct)
  case (snoc i q)
  then show ?case by (auto simp: wf_path_snoc table_at_snoc Let_def assms split: option.splits)
qed simp

lemma tree_cong:
  assumes "tree m root S" "S \<subseteq> S'"
    and "\<And>p t i. wf_path p \<Longrightarrow> length p < 3 \<Longrightarrow> table_at m p root = Some t \<Longrightarrow> i < 512 \<Longrightarrow>
      read_u64 m' (t + 8 * i) = read_u64 m (t + 8 * i)"
  shows "tree m' root S'"
proof -
  have eq: "table_at m' q root = table_at m q root" if "wf_path q" for q
    by (rule table_at_cong [OF _ that]) (rule assms(3))
  show ?thesis
    unfolding tree_def
  proof (intro conjI allI impI)
    fix p t assume "wf_path p" "table_at m' p root = Some t"
    then show "t \<in> S'" "t mod 4096 = 0" using treeD(1,2) [OF assms(1)] assms(2) eq by auto
  next
    fix p q t assume "wf_path p" "wf_path q" "table_at m' p root = Some t" "table_at m' q root = Some t"
    then show "p = q" using treeD(3) [OF assms(1)] eq by metis
  next
    fix p t i
    assume "wf_path p" "length p < 3" "table_at m' p root = Some t" "i < 512" "read_u64 m' (t + 8 * i) \<noteq> 0"
    then show "is_table_desc (read_u64 m' (t + 8 * i))" using treeD(4) [OF assms(1)] assms(3) eq by auto
  qed
qed

text \<open>A write to an entry of the table at \<open>p\<close> is seen through that table only.\<close>

lemma tree_read_other:
  assumes "tree m root S" "wf_path p" "table_at m p root = Some t" "wf_path q" "table_at m q root = Some u"
    and "i < 512" "j < 512"
  shows "read_u64 (write_u64 m (t + 8 * i) v) (u + 8 * j) =
    (if q = p \<and> j = i then v else read_u64 m (u + 8 * j))"
proof (cases "q = p")
  case True
  with assms show ?thesis using words.array_entry [of m t i v j] by auto
next
  case False
  with treeD(3) [OF assms(1-3,4)] assms(5) have "u \<noteq> t" by auto
  with False words.other_page [OF treeD(2) [OF assms(1-3)] treeD(2) [OF assms(1,4,5)], of i j] assms(6,7)
  show ?thesis by auto
qed

text \<open>Linking a fresh empty table \<open>n\<close> into the tree.\<close>

lemma link_table_at:
  assumes tr: "tree m root S" and p: "wf_path p" "length p < 3" "table_at m p root = Some t"
    and i: "i < 512" "read_u64 m (t + 8 * i) = 0"
    and e: "e \<noteq> 0" "table_ptr e = n" and n: "n \<notin> S" "n mod 4096 = 0" "\<forall>j < 512. read_u64 m (n + 8 * j) = 0"
  defines "m' \<equiv> write_u64 m (t + 8 * i) e"
  shows "wf_path q \<Longrightarrow> table_at m' q root = (if q = p @ [i] then Some n else table_at m q root)"
proof (induction q rule: rev_induct)
  case (snoc j q)
  then have q: "wf_path q" "length q < 3" "j < 512" by (simp_all add: wf_path_snoc)
  have nt: "n \<noteq> t" using n(1) treeD(1) [OF tr p(1,3)] by auto
  have n0: "read_u64 m' (n + 8 * j) = 0"
    using words.other_page [of t n i j m e] treeD(2) [OF tr p(1,3)] nt n(2,3) i(1) q(3) by (simp add: m'_def)
  have none: "table_at m (p @ [i]) root = None" using p(3) i(2) by (simp add: table_at_snoc)
  show ?case
  proof (cases "q = p @ [i]")
    case True
    then have "table_at m' q root = Some n" "table_at m q root = None" "q @ [j] \<noteq> p @ [i]"
      using snoc.IH [OF q(1)] none by auto
    with n0 show ?thesis by (simp add: table_at_snoc)
  next
    case False
    then have IH: "table_at m' q root = table_at m q root" using snoc.IH [OF q(1)] by simp
    show ?thesis
    proof (cases "table_at m q root")
      case (Some u)
      with tree_read_other [OF tr p(1,3) q(1) Some i(1) q(3), of e] IH e i(2) show ?thesis
        by (auto simp: table_at_snoc m'_def)
    qed (use IH p(3) in \<open>auto simp: table_at_snoc\<close>)
  qed
qed simp

section \<open>Descriptors\<close>

lemma nat_bit_bound: "x < 2 ^ n \<Longrightarrow> bit x k \<Longrightarrow> k < n" for x :: nat
  by (metis bit_take_bit_iff take_bit_nat_eq_self)

lemma address_field:
  fixes q low :: nat
  assumes "q < 2 ^ n" "low < 2 ^ 12"
  shows "(push_bit 12 q OR low) AND push_bit 12 (mask n) = push_bit 12 q"
proof -
  have "bit low k \<Longrightarrow> k < 12" "bit q k \<Longrightarrow> k < n" for k
    using assms nat_bit_bound by blast+
  then show ?thesis by (fastforce simp: bit_eq_iff bit_or_iff bit_and_iff bit_push_bit_iff bit_mask_iff)
qed

lemma page_address_push: "p mod 4096 = 0 \<Longrightarrow> p = push_bit 12 (p div 4096)" for p :: nat
  by (simp add: push_bit_eq_mult) (metis mod_mult_div_eq add_0 mult.commute)

lemma unat_descriptor:
  assumes "p < 2 ^ 64"
  shows "unat (of_nat p OR low :: u64) = p OR unat low"
  using assms by (simp add: unsigned_or_eq take_bit_nat_eq_self unsigned_of_nat)

lemma and_3_iff: "w AND 3 = 3 \<longleftrightarrow> bit w 0 \<and> bit w 1" for w :: u64
proof
  assume eq: "w AND 3 = 3"
  have "bit (w AND 3) 0" "bit (w AND 3) 1" unfolding eq by simp_all
  then show "bit w 0 \<and> bit w 1" by (simp add: bit_and_iff)
next
  assume w: "bit w 0 \<and> bit w 1"
  have "\<not> bit (3 :: u64) (Suc (Suc k))" for k by (simp add: bit_Suc)
  then have "bit (3 :: u64) n \<Longrightarrow> n = 0 \<or> n = 1" for n
    by (metis One_nat_def not0_implies_Suc)
  with w show "w AND 3 = 3" by (intro bit_word_eqI) (auto simp: bit_and_iff)
qed

lemma table_flags_num: "TABLE_FLAGS = 0x703"
  by (simp add: TABLE_FLAGS_def PT_PAGE_def PT_AF_def PT_ISH_def PT_MEM_def)

text \<open>The window of the allocator is part of the linear map of the first 512 GiB.\<close>

definition heap_linear :: "BitmapPageAlloc \<Rightarrow> bool" where
  "heap_linear pa \<longleftrightarrow> 0xffffff0000000000 \<le> ram_base pa \<and> ram_base pa + pa_capacity pa * 4096 \<le> 0xffffff8000000000"

lemma table_descriptor:
  assumes "0xffffff0000000000 \<le> n" "n < 0xffffff8000000000" "n mod 4096 = 0"
  defines "e \<equiv> of_nat (from_virt n) OR TABLE_FLAGS :: u64"
  shows "table_ptr e = n" and "is_table_desc e" and "e \<noteq> 0"
proof -
  define ph where "ph = n - 0xffffff0000000000"
  have n: "n = ph + 0xffffff0000000000" "ph < 2 ^ 39" using assms by (simp_all add: ph_def)
  have ph: "from_virt n = ph" using n window_mod(1) [of ph] by (simp add: from_virt_mod)
  have al: "ph mod 4096 = 0" using assms(1,3) by (simp add: ph_def mod_eq_0_iff_dvd dvd_diff_nat)
  have unat_e: "unat e = ph OR 0x703"
    using n(2) by (simp add: e_def ph unat_descriptor table_flags_num)
  moreover have "(ph OR 0x703) AND 0x7FFFFFF000 = ph"
  proof -
    have "(push_bit 12 (ph div 4096) OR 0x703) AND push_bit 12 (mask 27) = push_bit 12 (ph div 4096)"
      using n(2) by (intro address_field) (simp_all add: div_less_iff_less_mult)
    then show ?thesis using page_address_push [OF al] by (simp add: mask_numeral)
  qed
  ultimately show "table_ptr e = n" using n virt_add [of ph] by (simp add: table_ptr_def)
  have "bit e k \<longleftrightarrow> bit (unat e) k" for k by (simp add: bit_unsigned_iff)
  then have "bit e k \<longleftrightarrow> bit ph k \<or> bit (0x703 :: nat) k" for k by (simp add: unat_e bit_or_iff)
  moreover have "\<not> bit ph k" "\<not> bit (0x703 :: nat) k" if "39 \<le> k" for k
    using nat_bit_bound [OF n(2), of k] nat_bit_bound [of "0x703" 12 k] that by auto
  ultimately show desc: "is_table_desc e" by (auto simp: is_table_desc_def)
  then show "e \<noteq> 0" by (auto simp: is_table_desc_def)
qed

section \<open>Growing the tree\<close>

lemma link_tree:
  assumes tr: "tree m root S" and p: "wf_path p" "length p < 3" "table_at m p root = Some t"
    and i: "i < 512" "read_u64 m (t + 8 * i) = 0"
    and e: "e \<noteq> 0" "table_ptr e = n" "is_table_desc e"
    and n: "n \<notin> S" "n mod 4096 = 0" "\<forall>j < 512. read_u64 m (n + 8 * j) = 0"
  defines "m' \<equiv> write_u64 m (t + 8 * i) e"
  shows "tree m' root (insert n S)"
    and "wf_path q \<Longrightarrow> length q = 3 \<Longrightarrow> j < 512 \<Longrightarrow> slot m' root q j = slot m root q j"
proof -
  note at = link_table_at [OF tr p i e(1,2) n, folded m'_def]
  note other = tree_read_other [OF tr p(1,3) _ _ i(1), where v = e, folded m'_def]
  have "n \<noteq> t" using n(1) treeD(1) [OF tr p(1,3)] by auto
  then have n0: "read_u64 m' (n + 8 * j) = 0" if "j < 512" for j
    using words.other_page [of t n i j m e] treeD(2) [OF tr p(1,3)] n(2,3) i(1) that by (simp add: m'_def)
  have none: "table_at m (p @ [i]) root = None" using p(3) i(2) by (simp add: table_at_snoc)
  have old: "table_at m q root = Some u" if "wf_path q" "table_at m' q root = Some u" "q \<noteq> p @ [i]" for q u
    using at [OF that(1)] that by simp
  show "tree m' root (insert n S)"
    unfolding tree_def
  proof (intro conjI allI impI)
    fix q u assume q: "wf_path q" "table_at m' q root = Some u"
    then show "u \<in> insert n S" "u mod 4096 = 0"
      using at [OF q(1)] treeD(1,2) [OF tr q(1)] n(2) by (auto split: if_splits)
  next
    fix q r u assume q: "wf_path q" "wf_path r" "table_at m' q root = Some u" "table_at m' r root = Some u"
    show "q = r"
    proof (cases "q = p @ [i] \<or> r = p @ [i]")
      case True
      with at [OF q(1)] at [OF q(2)] q(3,4) n(1) treeD(1) [OF tr q(1)] treeD(1) [OF tr q(2)]
      show ?thesis by (auto split: if_splits)
    next
      case False
      with old q treeD(3) [OF tr q(1)] show ?thesis by metis
    qed
  next
    fix q u j assume q: "wf_path q" "length q < 3" "table_at m' q root = Some u" "j < 512" "read_u64 m' (u + 8 * j) \<noteq> 0"
    show "is_table_desc (read_u64 m' (u + 8 * j))"
    proof (cases "q = p @ [i]")
      case True
      with q at [OF q(1)] n0 show ?thesis by simp
    next
      case False
      from old [OF q(1,3) this] have u: "table_at m q root = Some u" .
      show ?thesis
        using other [OF q(1) u q(4)] treeD(4) [OF tr q(1) u q(2,4)] e(3) q(5) by (auto split: if_splits)
    qed
  qed
  show "slot m' root q j = slot m root q j" if q: "wf_path q" "length q = 3" "j < 512"
  proof (cases "q = p @ [i]")
    case True
    then show ?thesis using at [OF q(1)] n0 none q(3) by (simp add: slot_def)
  next
    case False
    then show ?thesis using at [OF q(1)] other [OF q(1) _ q(3)] q(2) p(2)
      by (auto simp: slot_def split: option.splits)
  qed
qed

definition pt_ok :: "'z kernel_scheme \<Rightarrow> usize \<Rightarrow> bool" where
  "pt_ok s root \<longleftrightarrow> pa_inv (PAGE_ALLOC s) \<and> heap_linear (PAGE_ALLOC s) \<and> tree (mem s) root (taken (PAGE_ALLOC s))"

definition is_table_byte :: "memory \<Rightarrow> usize \<Rightarrow> usize \<Rightarrow> bool" where
  "is_table_byte m root a \<longleftrightarrow> (\<exists>p t. wf_path p \<and> table_at m p root = Some t \<and> a \<in> {t..<t + 4096})"

text \<open>
  What an operation on the tables may do besides its purpose: allocate tables, on pages that were
  free. Nothing else of the kernel state changes, and no byte outside the tables does.
\<close>

definition grows :: "'z kernel_scheme \<Rightarrow> 'z kernel_scheme \<Rightarrow> usize \<Rightarrow> bool" where
  "grows s s' root \<longleftrightarrow> pt_ok s' root \<and> s' = s\<lparr>mem := mem s', PAGE_ALLOC := PAGE_ALLOC s'\<rparr> \<and>
     taken (PAGE_ALLOC s) \<subseteq> taken (PAGE_ALLOC s') \<and>
     (\<forall>p t. wf_path p \<longrightarrow> table_at (mem s) p root = Some t \<longrightarrow> table_at (mem s') p root = Some t) \<and>
     (\<forall>p t. wf_path p \<longrightarrow> table_at (mem s') p root = Some t \<longrightarrow> t \<in> taken (PAGE_ALLOC s) \<longrightarrow>
        table_at (mem s) p root = Some t) \<and>
     (\<forall>a. \<not> is_table_byte (mem s') root a \<longrightarrow> mem s' a = mem s a) \<and>
     in_window (PAGE_ALLOC s') = in_window (PAGE_ALLOC s)"

definition same_slots :: "memory \<Rightarrow> memory \<Rightarrow> usize \<Rightarrow> bool" where
  "same_slots m m' root \<longleftrightarrow> (\<forall>q i. wf_path q \<longrightarrow> length q = 3 \<longrightarrow> i < 512 \<longrightarrow> slot m' root q i = slot m root q i)"

lemma grows_refl: "pt_ok s root \<Longrightarrow> grows s s root"
  by (simp add: grows_def)

lemma growsD:
  assumes "grows s s' root"
  shows "pt_ok s' root" "s' = s\<lparr>mem := mem s', PAGE_ALLOC := PAGE_ALLOC s'\<rparr>"
    "taken (PAGE_ALLOC s) \<subseteq> taken (PAGE_ALLOC s')"
    "wf_path p \<Longrightarrow> table_at (mem s) p root = Some t \<Longrightarrow> table_at (mem s') p root = Some t"
    "wf_path p \<Longrightarrow> table_at (mem s') p root = Some t \<Longrightarrow> t \<in> taken (PAGE_ALLOC s) \<Longrightarrow> table_at (mem s) p root = Some t"
    "\<not> is_table_byte (mem s') root a \<Longrightarrow> mem s' a = mem s a" "in_window (PAGE_ALLOC s') = in_window (PAGE_ALLOC s)"
proof -
  note c1 = assms [unfolded grows_def] note c2 = c1 [THEN conjunct2] note c3 = c2 [THEN conjunct2]
  note c4 = c3 [THEN conjunct2] note c5 = c4 [THEN conjunct2] note c6 = c5 [THEN conjunct2]
  show "pt_ok s' root" by (rule c1 [THEN conjunct1])
  show "s' = s\<lparr>mem := mem s', PAGE_ALLOC := PAGE_ALLOC s'\<rparr>" by (rule c2 [THEN conjunct1])
  show "taken (PAGE_ALLOC s) \<subseteq> taken (PAGE_ALLOC s')" by (rule c3 [THEN conjunct1])
  show "wf_path p \<Longrightarrow> table_at (mem s) p root = Some t \<Longrightarrow> table_at (mem s') p root = Some t"
    by (rule c4 [THEN conjunct1, rule_format])
  show "wf_path p \<Longrightarrow> table_at (mem s') p root = Some t \<Longrightarrow> t \<in> taken (PAGE_ALLOC s) \<Longrightarrow> table_at (mem s) p root = Some t"
    by (rule c5 [THEN conjunct1, rule_format])
  show "\<not> is_table_byte (mem s') root a \<Longrightarrow> mem s' a = mem s a" by (rule c6 [THEN conjunct1, rule_format])
  show "in_window (PAGE_ALLOC s') = in_window (PAGE_ALLOC s)" by (rule c6 [THEN conjunct2])
qed

lemma grows_table_byte:
  assumes "grows s s' root" "is_table_byte (mem s) root a"
  shows "is_table_byte (mem s') root a"
  using assms(2) growsD(4) [OF assms(1)] unfolding is_table_byte_def by blast

lemma grows_trans:
  assumes "grows s s1 root" "grows s1 s2 root"
  shows "grows s s2 root"
  unfolding grows_def
proof (intro conjI allI impI)
  note 1 = growsD [OF assms(1)] and 2 = growsD [OF assms(2)]
  note 2(2)
  also have "s1\<lparr>mem := mem s2, PAGE_ALLOC := PAGE_ALLOC s2\<rparr> = s\<lparr>mem := mem s2, PAGE_ALLOC := PAGE_ALLOC s2\<rparr>"
    by (subst 1(2)) simp
  finally show "s2 = s\<lparr>mem := mem s2, PAGE_ALLOC := PAGE_ALLOC s2\<rparr>" .
  show "pt_ok s2 root" by (rule 2(1))
  show "taken (PAGE_ALLOC s) \<subseteq> taken (PAGE_ALLOC s2)" using 1(3) 2(3) by (rule order.trans)
  show "table_at (mem s2) p root = Some t" if "wf_path p" "table_at (mem s) p root = Some t" for p t
    using that 1(4) 2(4) by blast
  show "table_at (mem s) p root = Some t"
    if "wf_path p" "table_at (mem s2) p root = Some t" "t \<in> taken (PAGE_ALLOC s)" for p t
    using that 1(3,5) 2(5) by blast
  show "mem s2 a = mem s a" if "\<not> is_table_byte (mem s2) root a" for a
    using 1(6) 2(6) that grows_table_byte [OF assms(2)] by metis
  show "in_window (PAGE_ALLOC s2) = in_window (PAGE_ALLOC s)" using 1(7) 2(7) by simp
qed

lemma same_slots_trans: "same_slots m m1 root \<Longrightarrow> same_slots m1 m2 root \<Longrightarrow> same_slots m m2 root"
  by (simp add: same_slots_def)

text \<open>Two pages of the allocator are the same or share no byte.\<close>

lemma pages_apart:
  fixes t n a :: nat
  assumes "t mod 4096 = 0" "n mod 4096 = 0" "t \<noteq> n"
  shows "t + 4096 \<le> n \<or> n + 4096 \<le> t"
proof -
  from assms(1,2) obtain p q where "t = 4096 * p" "n = 4096 * q" by (elim mod_eq_0E)
  with assms(3) show ?thesis by auto
qed

text \<open>Zeroing a page outside the tree and linking it in as a table.\<close>

lemma fresh_table:
  assumes tr: "tree m root S" and al: "\<forall>u \<in> S. u mod 4096 = 0"
    and p: "wf_path p" "length p < 3" "table_at m p root = Some t"
    and i: "i < 512" "read_u64 m (t + 8 * i) = 0"
    and n: "n \<notin> S" "n mod 4096 = 0" "0xffffff0000000000 \<le> n" "n < 0xffffff8000000000"
  defines "m' \<equiv> write_u64 (write_bytes m n 8 0 512) (t + 8 * i) (of_nat (from_virt n) OR TABLE_FLAGS)"
  shows "tree m' root (insert n S)" and "same_slots m m' root"
    and "wf_path q \<Longrightarrow> table_at m' q root = (if q = p @ [i] then Some n else table_at m q root)"
proof -
  define m1 where "m1 = write_bytes m n 8 0 512"
  have rd1: "read_u64 m1 (u + 8 * j) = read_u64 m (u + 8 * j)" if "u \<in> S" "j < 512" for u j
  proof -
    have "u \<noteq> n" using n(1) that(1) by auto
    then have "u + 4096 \<le> n \<or> n + 4096 \<le> u" using pages_apart al that(1) n(2) by simp
    then show ?thesis using that(2) unfolding m1_def by (intro read_fill_other) auto
  qed
  have at1: "table_at m1 q root = table_at m q root" if "wf_path q" for q
    by (rule table_at_cong [OF _ that]) (auto intro: rd1 treeD(1) [OF tr])
  have tr1: "tree m1 root S"
    by (rule tree_cong [OF tr order.refl]) (auto intro: rd1 treeD(1) [OF tr])
  have t1: "table_at m1 p root = Some t" "read_u64 m1 (t + 8 * i) = 0"
    using at1 [OF p(1)] p(3) rd1 [OF treeD(1) [OF tr p(1,3)] i(1)] i(2) by simp_all
  have n0: "\<forall>j < 512. read_u64 m1 (n + 8 * j) = 0"
    unfolding m1_def by (auto intro: read_zeroed)
  note desc = table_descriptor [OF n(3,4,2)]
  note link = link_tree [OF tr1 p(1,2) t1(1) i(1) t1(2) desc(3,1,2) n(1,2) n0, folded m'_def m1_def]
  show "tree m' root (insert n S)" using link(1) by (simp add: m'_def m1_def)
  show "table_at m' q root = (if q = p @ [i] then Some n else table_at m q root)" if "wf_path q"
    using link_table_at [OF tr1 p(1,2) t1(1) i(1) t1(2) desc(3,1) n(1,2) n0 that] at1 [OF that]
    by (simp add: m'_def m1_def)
  show "same_slots m m' root"
    unfolding same_slots_def
  proof (intro allI impI)
    fix q and j :: nat assume q: "wf_path q" "length q = 3" "j < 512"
    have "slot m1 root q j = slot m root q j"
      using at1 [OF q(1)] rd1 [OF _ q(3)] treeD(1) [OF tr q(1)] by (auto simp: slot_def split: option.splits)
    with link(2) [OF q] show "slot m' root q j = slot m root q j" by (simp add: m'_def m1_def)
  qed
qed

lemma get_mut_or_alloc_new:
  assumes inv: "pa_inv (PAGE_ALLOC s)" and i: "idx < 512" "read_u64 (mem s) (t + 8 * idx) = 0"
  obtains (oom) "get_mut_or_alloc b t idx TABLE_FLAGS s = Inl (ExpectFailed ''OOM'')"
      "\<forall>a. in_window (PAGE_ALLOC s) a 1 \<longrightarrow> a \<in> taken (PAGE_ALLOC s)"
  | (new) n pa where "get_mut_or_alloc b t idx TABLE_FLAGS s = Inr (n, s\<lparr>PAGE_ALLOC := pa, mem :=
        write_u64 (write_bytes (mem s) n 8 0 512) (t + 8 * idx) (of_nat (from_virt n) OR TABLE_FLAGS)\<rparr>)"
      "pa_inv pa" "ram_base pa = ram_base (PAGE_ALLOC s)" "pa_capacity pa = pa_capacity (PAGE_ALLOC s)"
      "in_window (PAGE_ALLOC s) n 1" "n \<notin> taken (PAGE_ALLOC s)" "taken pa = insert n (taken (PAGE_ALLOC s))"
proof -
  have one: "div_ceil 4096 4096 = 1" by (simp add: div_ceil_def)
  from pa_alloc_cases [OF inv, of b 1] obtain r pa where
    r: "pa_alloc b (PAGE_ALLOC s) 1 = Inr (r, pa)" "pa_inv pa" "ram_base pa = ram_base (PAGE_ALLOC s)"
    "pa_capacity pa = pa_capacity (PAGE_ALLOC s)" by blast
  show thesis
  proof (cases r)
    case None
    with pa_alloc_cases [OF inv, of b 1] r(1) have "\<forall>a. in_window (PAGE_ALLOC s) a 1 \<longrightarrow> a \<in> taken (PAGE_ALLOC s)"
      by (auto simp: pages_at_def)
    with None new_zeroed_ok [OF inv, of b 4096] r(1) i show thesis
      by (intro oom) (simp_all add: one get_mut_or_alloc_def)
  next
    case (Some sl)
    from pa_alloc_cases [OF inv, of b 1] r(1) Some have "in_window (PAGE_ALLOC s) (buf sl) 1"
      "buf sl \<notin> taken (PAGE_ALLOC s)" "taken pa = insert (buf sl) (taken (PAGE_ALLOC s))"
      by (auto simp: pages_at_def)
    with new_zeroed_ok [OF inv, of b 4096] r Some i show thesis
      by (intro new [of "buf sl" pa]) (simp_all add: one get_mut_or_alloc_def pagebox_leak_def
          slice_as_ptr_def slice_zero_def pt_set_def PAGE_SIZE_def Let_def)
  qed
qed

lemma get_mut_or_alloc_ok:
  assumes ok: "pt_ok s root" and p: "wf_path p" "length p < 3" "table_at (mem s) p root = Some t" and i: "idx < 512"
  shows "get_mut_or_alloc b t idx TABLE_FLAGS s = Inl (ExpectFailed ''OOM'') \<and> slot (mem s) root p idx = 0 \<or>
    (\<exists>t' s'. get_mut_or_alloc b t idx TABLE_FLAGS s = Inr (t', s') \<and> grows s s' root \<and>
       same_slots (mem s) (mem s') root \<and> table_at (mem s') (p @ [idx]) root = Some t')"
proof (cases "read_u64 (mem s) (t + 8 * idx) = 0")
  case False
  then have "get_mut_or_alloc b t idx TABLE_FLAGS s = Inr (table_ptr (read_u64 (mem s) (t + 8 * idx)), s)"
    using i by (simp add: get_mut_or_alloc_def)
  with False p(3) ok show ?thesis by (simp add: grows_refl same_slots_def table_at_snoc)
next
  case free: True
  from ok have inv: "pa_inv (PAGE_ALLOC s)" and lin: "heap_linear (PAGE_ALLOC s)"
    and tr: "tree (mem s) root (taken (PAGE_ALLOC s))" by (simp_all add: pt_ok_def)
  from inv i free show ?thesis
  proof (cases rule: get_mut_or_alloc_new [where b = b])
    case oom
    with free p(3) show ?thesis by (simp add: slot_def)
  next
    case (new n pa)
    define s' where "s' = s\<lparr>PAGE_ALLOC := pa, mem :=
        write_u64 (write_bytes (mem s) n 8 0 512) (t + 8 * idx) (of_nat (from_virt n) OR TABLE_FLAGS)\<rparr>"
    have n: "n mod 4096 = 0" "0xffffff0000000000 \<le> n" "n < 0xffffff8000000000"
      using new(5) lin by (auto simp: in_window_def heap_linear_def)
    have "\<forall>u \<in> taken (PAGE_ALLOC s). u mod 4096 = 0" using taken_page_aligned [OF inv] by blast
    note fresh = fresh_table [OF tr this p i free new(6) n]
    have wf: "wf_path (p @ [idx])" using p i by (simp add: wf_path_snoc)
    have at: "table_at (mem s') q root = (if q = p @ [idx] then Some n else table_at (mem s) q root)" if "wf_path q" for q
      using fresh(3) [OF that] by (simp add: s'_def)
    have keep: "table_at (mem s') q root = Some u" if "wf_path q" "table_at (mem s) q root = Some u" for q u
      using at [OF that(1)] that(2) p(3) free by (auto simp: table_at_snoc)
    have frame: "mem s' a = mem s a" if "\<not> is_table_byte (mem s') root a" for a
    proof -
      have "a \<notin> {n..<n + 4096}" "a \<notin> {t..<t + 4096}"
        using that at [OF wf] wf keep [OF p(1,3)] p(1) unfolding is_table_byte_def by auto
      then show ?thesis using i by (auto simp: s'_def write_u64_def write_bytes_def)
    qed
    have ok': "pt_ok s' root"
      using new(2-4,7) lin fresh(1) by (simp add: pt_ok_def s'_def heap_linear_def)
    have old: "table_at (mem s) q root = Some u"
      if "wf_path q" "table_at (mem s') q root = Some u" "u \<in> taken (PAGE_ALLOC s)" for q u
      using at [OF that(1)] that(2,3) new(6) by (auto split: if_splits)
    have st: "s' = s\<lparr>mem := mem s', PAGE_ALLOC := PAGE_ALLOC s'\<rparr>" "taken (PAGE_ALLOC s) \<subseteq> taken (PAGE_ALLOC s')"
      using new(7) by (auto simp: s'_def)
    have win: "in_window (PAGE_ALLOC s') = in_window (PAGE_ALLOC s)"
      by (simp add: s'_def in_window_def fun_eq_iff new(3,4))
    have "grows s s' root" unfolding grows_def
      by (intro conjI allI impI ok' st win) (rule keep old frame; assumption)+
    moreover have "same_slots (mem s) (mem s') root" using fresh(2) by (simp add: s'_def)
    ultimately show ?thesis using new(1) at [OF wf] by (auto simp: s'_def)
  qed
qed

section \<open>Mapping and unmapping a page\<close>

lemma wf_va_path: "v < 2 ^ 39 \<Longrightarrow> wf_path (va_path v) \<and> length (va_path v) = 3"
  by (simp add: va_path_def wf_path_def)

lemma leaf_idx_bound [simp]: "leaf_idx v < 512"
  by (simp add: leaf_idx_def)

lemma same_page_iff: "va_path u = va_path v \<and> leaf_idx u = leaf_idx v \<longleftrightarrow> u div 4096 = v div 4096"
proof -
  have eq: "w div 2 ^ 21 = w div 4096 div 512" "w div 2 ^ 30 = w div 4096 div 512 div 512"
    "w div 2 ^ 39 = w div 4096 div 512 div 512 div 512" "w div 2 ^ 12 = w div 4096" for w :: nat
    by (simp_all flip: div_mult2_eq)
  have digits: "x = y \<longleftrightarrow> x div 512 = y div 512 \<and> x mod 512 = y mod 512" for x y :: nat
    by (metis div_mult_mod_eq)
  show ?thesis
    unfolding va_path_def leaf_idx_def eq
    using digits [of "u div 4096" "v div 4096"] digits [of "u div 4096 div 512" "v div 4096 div 512"]
      digits [of "u div 4096 div 512 div 512" "v div 4096 div 512 div 512"]
    by auto
qed

text \<open>Writing an entry of the last level.\<close>

lemma leaf_write:
  fixes e :: u64
  assumes tr: "tree m root S" and q: "wf_path q" "length q = 3" "table_at m q root = Some t" and i: "i < 512"
  defines "m' \<equiv> write_u64 m (t + 8 * i) e"
  shows "tree m' root S" and "wf_path p \<Longrightarrow> table_at m' p root = table_at m p root"
    and "wf_path p \<Longrightarrow> length p = 3 \<Longrightarrow> j < 512 \<Longrightarrow> slot m' root p j = (if p = q \<and> j = i then e else slot m root p j)"
proof -
  have rd: "read_u64 m' (u + 8 * j) = (if p = q \<and> j = i then e else read_u64 m (u + 8 * j))"
    if "wf_path p" "table_at m p root = Some u" "j < 512" for p u j
    using tree_read_other [OF tr q(1,3) that(1,2) i that(3), of e] by (simp add: m'_def)
  have upper: "read_u64 m' (u + 8 * j) = read_u64 m (u + 8 * j)"
    if "wf_path p" "length p < 3" "table_at m p root = Some u" "j < 512" for p u j
    using rd [OF that(1,3,4)] that(2) q(2) by auto
  show "tree m' root S" by (rule tree_cong [OF tr order.refl]) (rule upper)
  show at: "table_at m' p root = table_at m p root" if "wf_path p" for p
    by (rule table_at_cong [OF _ that]) (rule upper)
  show "slot m' root p j = (if p = q \<and> j = i then e else slot m root p j)"
    if "wf_path p" "length p = 3" "j < 512"
    using at [OF that(1)] rd [OF that(1) _ that(3)] q(3) by (auto simp: slot_def split: option.splits)
qed

text \<open>
  The tables change from \<open>s\<close> to \<open>s'\<close>, the cache of translations may be emptied, and the last-level
  entry of each user address \<open>u\<close> becomes \<open>g u\<close>.
\<close>

definition remaps :: "'z kernel_scheme \<Rightarrow> 'z kernel_scheme \<Rightarrow> usize \<Rightarrow> (usize \<Rightarrow> u64) \<Rightarrow> bool" where
  "remaps s s' root g \<longleftrightarrow> grows s (s'\<lparr>tlb := tlb s\<rparr>) root \<and>
     (tlb s' = (\<lambda>_. None) \<or> tlb s' = tlb s \<and> (\<forall>u < 2 ^ 39. g u = leaf (mem s) root u)) \<and>
     (\<forall>u < 2 ^ 39. leaf (mem s') root u = g u)"

lemma grows_leaf_write:
  fixes e :: u64
  assumes g: "grows s s1 root" and same: "same_slots (mem s) (mem s1) root" and v: "v < 2 ^ 39"
    and t: "table_at (mem s1) (va_path v) root = Some t"
  defines "s2 \<equiv> tlb_flush (s1\<lparr>mem := write_u64 (mem s1) (t + 8 * leaf_idx v) e\<rparr>)"
  shows "remaps s s2 root (\<lambda>u. if u div 4096 = v div 4096 then e else leaf (mem s) root u)"
proof -
  let ?m = "write_u64 (mem s1) (t + 8 * leaf_idx v) e"
  from g have ok1: "pt_ok s1 root" and eq1: "s1 = s\<lparr>mem := mem s1, PAGE_ALLOC := PAGE_ALLOC s1\<rparr>"
    by (simp_all add: grows_def)
  have tr: "tree (mem s1) root (taken (PAGE_ALLOC s1))" using ok1 by (simp add: pt_ok_def)
  have tlb1: "tlb s1 = tlb s" using arg_cong [OF eq1, of tlb] by simp
  note lw = leaf_write [OF tr wf_va_path [OF v, THEN conjunct1] wf_va_path [OF v, THEN conjunct2] t leaf_idx_bound [of v], where e = e]
  have mem2: "mem s2 = ?m" "s2\<lparr>tlb := tlb s\<rparr> = s1\<lparr>mem := ?m\<rparr>"
    by (simp_all add: s2_def tlb_flush_def tlb1 [symmetric])
  have "grows s1 (s1\<lparr>mem := ?m\<rparr>) root"
  proof -
    have "?m a = mem s1 a" if "\<not> is_table_byte ?m root a" for a
    proof -
      have "a \<notin> {t..<t + 4096}" using that lw(2) wf_va_path [OF v] t unfolding is_table_byte_def by auto
      moreover have "8 * leaf_idx v + 8 \<le> 4096" using leaf_idx_bound [of v] by linarith
      ultimately show ?thesis by (auto simp: write_u64_def)
    qed
    with ok1 lw(1,2) show ?thesis by (auto simp: grows_def pt_ok_def)
  qed
  with g have "grows s (s2\<lparr>tlb := tlb s\<rparr>) root" unfolding mem2(2) by (rule grows_trans)
  moreover have "leaf (mem s2) root u = (if u div 4096 = v div 4096 then e else leaf (mem s) root u)" if "u < 2 ^ 39" for u
    using lw(3) [of "va_path u" "leaf_idx u"] wf_va_path [OF that] same same_page_iff [of u v]
    by (auto simp: leaf_slot mem2 same_slots_def)
  ultimately show ?thesis by (simp add: remaps_def s2_def tlb_flush_def)
qed

text \<open>One more level of the walk.\<close>

lemma walk_step:
  assumes g: "grows s s1 root" "same_slots (mem s) (mem s1) root"
    and t: "wf_path p" "length p < 3" "table_at (mem s1) p root = Some t" and i: "i < 512"
  obtains (oom) "get_mut_or_alloc b t i TABLE_FLAGS s1 = Inl (ExpectFailed ''OOM'')" "slot (mem s1) root p i = 0"
  | (step) t' s2 where "get_mut_or_alloc b t i TABLE_FLAGS s1 = Inr (t', s2)" "grows s s2 root"
      "same_slots (mem s) (mem s2) root" "wf_path (p @ [i])" "table_at (mem s2) (p @ [i]) root = Some t'"
proof -
  have "pt_ok s1 root" using g(1) by (simp add: grows_def)
  moreover have "wf_path (p @ [i])" using t i by (simp add: wf_path_snoc)
  ultimately show thesis
    using get_mut_or_alloc_ok [OF _ t i, of b] grows_trans [OF g(1)] same_slots_trans [OF g(2)] oom step by blast
qed

lemma empty_slot_leaf:
  assumes "slot m root [] (v div 2 ^ 39) = 0 \<or> slot m root [v div 2 ^ 39] ((v div 2 ^ 30) mod 512) = 0 \<or>
      slot m root [v div 2 ^ 39, (v div 2 ^ 30) mod 512] ((v div 2 ^ 21) mod 512) = 0"
  shows "leaf m root v = 0"
  using assms by (auto simp: leaf_def va_path_def slot_def Let_def)

lemma same_slots_leaf: "same_slots m m' root \<Longrightarrow> v < 2 ^ 39 \<Longrightarrow> leaf m' root v = leaf m root v"
  using wf_va_path [of v] by (simp add: same_slots_def leaf_slot)

lemma vmap_walk_ok:
  assumes ok: "pt_ok s root" and v: "v < 2 ^ 39"
  obtains (oom) "vmap_walk b root v s = Inl (ExpectFailed ''OOM'')" "leaf (mem s) root v = 0"
  | (found) l3 s' where "vmap_walk b root v s = Inr (l3, s')" "grows s s' root"
      "same_slots (mem s) (mem s') root" "table_at (mem s') (va_path v) root = Some l3"
proof -
  let ?i0 = "v div 2 ^ 39" and ?i1 = "(v div 2 ^ 30) mod 512" and ?i2 = "(v div 2 ^ 21) mod 512"
  have i: "?i0 < 512" "?i1 < 512" "?i2 < 512" using v by simp_all
  note leaf = empty_slot_leaf [of _ root v]
  have start: "same_slots (mem s) (mem s) root" "length ([] :: nat list) < 3" "table_at (mem s) [] root = Some root"
    and len: "length ([] @ [?i0]) < 3" "length (([] @ [?i0]) @ [?i1]) < 3"
    by (simp_all add: same_slots_def)
  show thesis
  proof (cases rule: walk_step [OF grows_refl [OF ok] start(1) wf_path_Nil start(2,3) i(1), where b = b, case_names oom step])
    case oom': oom
    then show thesis using leaf by (intro oom) (simp_all add: vmap_walk_def)
  next
    case 1: (step t1 s1)
    show thesis
    proof (cases rule: walk_step [OF 1(2-4) len(1) 1(5) i(2), where b = b, case_names oom step])
      case oom': oom
      then show thesis
        using leaf [of "mem s1"] same_slots_leaf [OF 1(3) v] 1(1) by (intro oom) (simp_all add: vmap_walk_def)
    next
      case 2: (step t2 s2)
      show thesis
      proof (cases rule: walk_step [OF 2(2-4) len(2) 2(5) i(3), where b = b, case_names oom step])
        case oom': oom
        then show thesis
          using leaf [of "mem s2"] same_slots_leaf [OF 2(3) v] 1(1) 2(1) by (intro oom) (simp_all add: vmap_walk_def)
      next
        case (step t3 s3)
        then show thesis using 1(1) 2(1) by (intro found) (simp_all add: vmap_walk_def va_path_def)
      qed
    qed
  qed
qed

text \<open>\<open>vmap_at\<close> writes the entry of its page, or panics: out of memory, or the page is mapped.\<close>

lemma vmap_at_ok:
  assumes ok: "pt_ok s root" and v: "v < 2 ^ 39" "v mod 4096 = 0"
  shows "if leaf (mem s) root v \<noteq> 0
    then vmap_at b root v pa attrs s = Inl (AssertFailed ''Tried to map memory that is already occupied'')
    else vmap_at b root v pa attrs s = Inl (ExpectFailed ''OOM'') \<or>
      (\<exists>s'. vmap_at b root v pa attrs s = Inr s' \<and> remaps s s' root
         (\<lambda>u. if u div 4096 = v div 4096 then of_nat pa OR COMMON_FLAGS OR attrs else leaf (mem s) root u))"
  using ok v(1)
proof (cases rule: vmap_walk_ok [where b = b])
  case oom
  then show ?thesis using v by (simp add: vmap_at_def PAGE_SIZE_def)
next
  case (found l3 s')
  have entry: "read_u64 (mem s') (l3 + 8 * leaf_idx v) = leaf (mem s) root v"
    using found(4) same_slots_leaf [OF found(3) v(1)] by (simp add: leaf_def)
  note gl = grows_leaf_write [OF found(2,3) v(1) found(4)]
  show ?thesis
    using found(1) v entry gl [of "of_nat pa OR COMMON_FLAGS OR attrs"]
    by (auto simp: vmap_at_def PAGE_SIZE_def pt_set_def leaf_idx_def)
qed

lemma same_page_leaf: "u div 4096 = v div 4096 \<Longrightarrow> leaf m root u = leaf m root v"
  using same_page_iff [of u v] by (simp add: leaf_slot)

lemma remaps_ok: "remaps s s' root g \<Longrightarrow> pt_ok s' root"
  by (simp add: remaps_def grows_def pt_ok_def)

lemma remaps_refl: "pt_ok s root \<Longrightarrow> remaps s s root (leaf (mem s) root)"
  by (simp add: remaps_def grows_refl)

lemma remaps_cong: "remaps s s' root g \<Longrightarrow> (\<And>u. u < 2 ^ 39 \<Longrightarrow> g u = h u) \<Longrightarrow> remaps s s' root h"
  unfolding remaps_def by auto

text \<open>In a well-formed tree every entry in use above the last level is taken for a table.\<close>

lemma tree_get_mut:
  assumes "tree m root S" "wf_path p" "length p < 3" "table_at m p root = Some t" "i < 512"
  shows "pt_get_mut m t i = Inr (if read_u64 m (t + 8 * i) = 0 then PgFree else PgTable (table_ptr (read_u64 m (t + 8 * i))))"
proof -
  have "read_u64 m (t + 8 * i) AND 3 = 3" if "read_u64 m (t + 8 * i) \<noteq> 0"
    using treeD(4) [OF assms(1,2,4,3,5) that] by (simp add: and_3_iff is_table_desc_def)
  with assms(5) show ?thesis by (auto simp: pt_get_mut_eq pt_get_eq)
qed

lemma vunmap_single_ok:
  assumes ok: "pt_ok s root" and v: "v < 2 ^ 39" "v mod 4096 = 0"
  shows "\<exists>s'. vunmap_single root v s = Inr s' \<and>
    remaps s s' root (\<lambda>u. if u div 4096 = v div 4096 then 0 else leaf (mem s) root u)"
proof -
  let ?i0 = "v div 2 ^ 39" and ?i1 = "(v div 2 ^ 30) mod 512" and ?i2 = "(v div 2 ^ 21) mod 512"
  have i: "?i0 < 512" "?i1 < 512" "?i2 < 512" using v by simp_all
  have wf: "wf_path [?i0]" "wf_path [?i0, ?i1]" using i by (simp_all add: wf_path_def)
  from ok have tr: "tree (mem s) root (taken (PAGE_ALLOC s))" by (simp add: pt_ok_def)
  define e0 where "e0 = read_u64 (mem s) (root + 8 * ?i0)"
  define e1 where "e1 = read_u64 (mem s) (table_ptr e0 + 8 * ?i1)"
  define e2 where "e2 = read_u64 (mem s) (table_ptr e1 + 8 * ?i2)"
  have g0: "pt_get_mut (mem s) root ?i0 = Inr (if e0 = 0 then PgFree else PgTable (table_ptr e0))"
    unfolding e0_def by (rule tree_get_mut [OF tr wf_path_Nil _ _ i(1)]) simp_all
  have g1: "pt_get_mut (mem s) (table_ptr e0) ?i1 = Inr (if e1 = 0 then PgFree else PgTable (table_ptr e1))" if "e0 \<noteq> 0"
    unfolding e1_def by (rule tree_get_mut [OF tr wf(1) _ _ i(2)]) (use that in \<open>simp_all add: e0_def\<close>)
  have g2: "pt_get_mut (mem s) (table_ptr e1) ?i2 = Inr (if e2 = 0 then PgFree else PgTable (table_ptr e2))" if "e0 \<noteq> 0" "e1 \<noteq> 0"
    unfolding e2_def by (rule tree_get_mut [OF tr wf(2) _ _ i(3)]) (use that in \<open>simp_all add: e0_def e1_def\<close>)
  show ?thesis
  proof (cases "e0 = 0 \<or> e1 = 0 \<or> e2 = 0")
    case True
    then have "vunmap_single root v s = Inr s"
      using v g0 g1 g2 unfolding vunmap_single_def PAGE_SIZE_def by (cases "e0 = 0"; cases "e1 = 0") simp_all
    moreover have "leaf (mem s) root v = 0"
      using True by (auto simp: leaf_def va_path_def e0_def e1_def e2_def Let_def)
    then have "remaps s s root (\<lambda>u. if u div 4096 = v div 4096 then 0 else leaf (mem s) root u)"
      by (intro remaps_cong [OF remaps_refl [OF ok]]) (auto dest: same_page_leaf [of _ v "mem s" root])
    ultimately show ?thesis by blast
  next
    case False
    then have "vunmap_single root v s = Inr (tlb_flush (s\<lparr>mem := write_u64 (mem s) (table_ptr e2 + 8 * leaf_idx v) 0\<rparr>))"
      using v g0 g1 g2 unfolding vunmap_single_def PAGE_SIZE_def by (simp add: pt_set_def leaf_idx_def)
    moreover have "table_at (mem s) (va_path v) root = Some (table_ptr e2)"
      using False by (simp add: va_path_def e0_def e1_def e2_def)
    ultimately show ?thesis
      using grows_leaf_write [OF grows_refl [OF ok] _ v(1), of "table_ptr e2" 0] by (simp add: same_slots_def)
  qed
qed

section \<open>Mapping and unmapping a range\<close>

lemma grows_tlb:
  assumes "grows s s' root"
  shows "grows (s\<lparr>tlb := c\<rparr>) (s'\<lparr>tlb := c\<rparr>) root"
proof -
  note g = growsD [OF assms]
  from arg_cong [OF g(2), of "tlb_update (\<lambda>_. c)"]
  have "s'\<lparr>tlb := c\<rparr> = s\<lparr>tlb := c, mem := mem s', PAGE_ALLOC := PAGE_ALLOC s'\<rparr>" by simp
  moreover have "pt_ok (s'\<lparr>tlb := c\<rparr>) root" using g(1) by (simp add: pt_ok_def)
  moreover have sel: "mem (s\<lparr>tlb := c\<rparr>) = mem s" "PAGE_ALLOC (s\<lparr>tlb := c\<rparr>) = PAGE_ALLOC s"
    "mem (s'\<lparr>tlb := c\<rparr>) = mem s'" "PAGE_ALLOC (s'\<lparr>tlb := c\<rparr>) = PAGE_ALLOC s'" by simp_all
  ultimately show ?thesis
    unfolding grows_def sel by (intro conjI allI impI g(3,7)) (assumption | rule g(4-6); assumption)+
qed

lemma remaps_trans:
  assumes "remaps s s1 root g1" "remaps s1 s2 root g2"
  shows "remaps s s2 root g2"
proof -
  have "grows s (s1\<lparr>tlb := tlb s\<rparr>) root" "grows s1 (s2\<lparr>tlb := tlb s1\<rparr>) root"
    using assms by (simp_all add: remaps_def)
  from grows_trans [OF this(1)] grows_tlb [OF this(2), of "tlb s"] have "grows s (s2\<lparr>tlb := tlb s\<rparr>) root" by simp
  with assms show ?thesis unfolding remaps_def by auto
qed

lemma page_of_range:
  fixes u v :: nat
  assumes "v mod 4096 = 0"
  shows "u div 4096 = k + v div 4096 \<longleftrightarrow> v + k * 4096 \<le> u \<and> u < v + Suc k * 4096"
proof -
  have div: "u div 4096 = n \<longleftrightarrow> n * 4096 \<le> u \<and> u < Suc n * 4096" for n
    using less_eq_div_iff_mult_less_eq [of 4096 n u] div_less_iff_less_mult [of 4096 u "Suc n"] by linarith
  from assms obtain q where "v = 4096 * q" by (rule mod_eq_0E)
  then show ?thesis using div [of "q + k"] by (simp add: ac_simps)
qed

lemma vunmap_pages:
  assumes ok: "pt_ok s root" and v: "v mod 4096 = 0" and k: "v + k * 4096 \<le> 2 ^ 39"
  shows "\<exists>s'. foldM (\<lambda>offset s. bnd (usize_add b v offset) (\<lambda>v. vunmap_single root v s))
      (map (\<lambda>i. i * 4096) [0..<k]) s = Inr s' \<and>
    remaps s s' root (\<lambda>u. if v \<le> u \<and> u < v + k * 4096 then 0 else leaf (mem s) root u)"
  using k
proof (induction k)
  case 0
  have "remaps s s root (\<lambda>u. if v \<le> u \<and> u < v + 0 * 4096 then 0 else leaf (mem s) root u)"
    by (rule remaps_cong [OF remaps_refl [OF ok]]) auto
  then show ?case by simp
next
  case (Suc k)
  then obtain s1 where s1: "foldM (\<lambda>offset s. bnd (usize_add b v offset) (\<lambda>v. vunmap_single root v s))
      (map (\<lambda>i. i * 4096) [0..<k]) s = Inr s1"
    and r1: "remaps s s1 root (\<lambda>u. if v \<le> u \<and> u < v + k * 4096 then 0 else leaf (mem s) root u)"
    by auto
  have "(v + k * 4096) mod 4096 = 0" "v + k * 4096 < 2 ^ 39" using v Suc.prems by (simp_all add: mod_eq_0_iff_dvd)
  from vunmap_single_ok [OF remaps_ok [OF r1] this(2,1)] obtain s2 where
    s2: "vunmap_single root (v + k * 4096) s1 = Inr s2"
    and r2: "remaps s1 s2 root (\<lambda>u. if u div 4096 = (v + k * 4096) div 4096 then 0 else leaf (mem s1) root u)"
    by blast
  have "usize_add b v (k * 4096) = Inr (v + k * 4096)" using Suc.prems by (simp add: usize_simps)
  with s1 s2 have "foldM (\<lambda>offset s. bnd (usize_add b v offset) (\<lambda>v. vunmap_single root v s))
      (map (\<lambda>i. i * 4096) [0..<Suc k]) s = Inr s2"
    by (simp add: foldM_append)
  moreover have "remaps s s2 root (\<lambda>u. if v \<le> u \<and> u < v + Suc k * 4096 then 0 else leaf (mem s) root u)"
    using r1 by (intro remaps_cong [OF remaps_trans [OF r1 r2]])
      (auto simp: page_of_range [OF v] remaps_def)
  ultimately show ?case by blast
qed

lemma vmap_pages:
  fixes attrs :: u64 and b :: profile
  assumes ok: "pt_ok s root" and v: "v mod 4096 = 0" and k: "v + k * 4096 \<le> 2 ^ 39" "p + k * 4096 \<le> 2 ^ 64"
    and free: "\<And>u. v \<le> u \<Longrightarrow> u < v + k * 4096 \<Longrightarrow> leaf (mem s) root u = 0"
  defines "body \<equiv> (\<lambda>offset s. bnd (usize_add b v offset) (\<lambda>v. bnd (usize_add b p offset) (\<lambda>p. vmap_at b root v p attrs s)))"
  shows "foldM body (map (\<lambda>i. i * 4096) [0..<k]) s = Inl (ExpectFailed ''OOM'') \<or>
    (\<exists>s'. foldM body (map (\<lambda>i. i * 4096) [0..<k]) s = Inr s' \<and>
      remaps s s' root (\<lambda>u. if v \<le> u \<and> u < v + k * 4096
        then of_nat (p + (u - v) div 4096 * 4096) OR COMMON_FLAGS OR attrs else leaf (mem s) root u))"
  using k free
proof (induction k)
  case 0
  have "remaps s s root (\<lambda>u. if v \<le> u \<and> u < v + 0 * 4096
      then of_nat (p + (u - v) div 4096 * 4096) OR COMMON_FLAGS OR attrs else leaf (mem s) root u)"
    by (rule remaps_cong [OF remaps_refl [OF ok]]) auto
  then show ?case by simp
next
  case (Suc k)
  let ?e = "\<lambda>u. of_nat (p + (u - v) div 4096 * 4096) OR COMMON_FLAGS OR attrs :: u64"
  let ?v = "v + k * 4096"
  from Suc consider "foldM body (map (\<lambda>i. i * 4096) [0..<k]) s = Inl (ExpectFailed ''OOM'')"
    | s1 where "foldM body (map (\<lambda>i. i * 4096) [0..<k]) s = Inr s1"
      "remaps s s1 root (\<lambda>u. if v \<le> u \<and> u < ?v then ?e u else leaf (mem s) root u)"
    by force
  then show ?case
  proof cases
    case 1
    then show ?thesis by (simp add: foldM_append)
  next
    case (2 s1)
    have v': "?v mod 4096 = 0" "?v < 2 ^ 39" using v Suc.prems by (simp_all add: mod_eq_0_iff_dvd)
    have "leaf (mem s1) root ?v = 0" using 2(2) v'(2) Suc.prems(3) [of ?v] by (simp add: remaps_def)
    with vmap_at_ok [OF remaps_ok [OF 2(2)] v'(2,1), of b "p + k * 4096" attrs]
    consider "vmap_at b root ?v (p + k * 4096) attrs s1 = Inl (ExpectFailed ''OOM'')"
      | s2 where "vmap_at b root ?v (p + k * 4096) attrs s1 = Inr s2" "remaps s1 s2 root
         (\<lambda>u. if u div 4096 = ?v div 4096 then of_nat (p + k * 4096) OR COMMON_FLAGS OR attrs else leaf (mem s1) root u)"
      by auto
    moreover have add: "usize_add b v (k * 4096) = Inr ?v" "usize_add b p (k * 4096) = Inr (p + k * 4096)"
      using Suc.prems by (simp_all add: usize_simps)
    ultimately show ?thesis
    proof cases
      case 1
      with 2 add show ?thesis by (simp add: foldM_append body_def)
    next
      case s2: (2 s2)
      have "(u - v) div 4096 = k" if "?v \<le> u" "u < v + Suc k * 4096" for u
        using that by (intro div_nat_eqI) auto
      then have "remaps s s2 root (\<lambda>u. if v \<le> u \<and> u < v + Suc k * 4096 then ?e u else leaf (mem s) root u)"
        using 2(2) by (intro remaps_cong [OF remaps_trans [OF 2(2) s2(2)]])
          (auto simp: page_of_range [OF v] remaps_def)
      with 2 add s2 show ?thesis by (auto simp: foldM_append body_def)
    qed
  qed
qed

section \<open>What the hardware translates\<close>

text \<open>
  The walk of the memory management unit through tables of 4 KiB pages, as the architecture
  describes it: bit 0 of a descriptor marks it valid, bit 1 tells a table (a page on the last level)
  from a block, bits 12 to 47 are the output address. A walk yields the physical address and the
  descriptor that maps it. Tables are read at physical addresses.
\<close>

definition out_addr :: "u64 \<Rightarrow> PhyAddr" where
  "out_addr e = unat e AND 0xFFFFFFFFF000"

fun hw_walk :: "memory \<Rightarrow> nat list \<Rightarrow> PhyAddr \<Rightarrow> usize \<Rightarrow> (PhyAddr \<times> u64) option" where
  "hw_walk m [] table v = None"
| "hw_walk m (sh # shs) table v =
     (let e = read_u64 m (virt (table + 8 * ((v div 2 ^ sh) mod 512))) in
      if \<not> bit e 0 then None
      else if bit e 1 then
        (if shs = [] then Some (out_addr e + v mod 2 ^ sh, e) else hw_walk m shs (out_addr e) v)
      else if sh = 30 \<or> sh = 21 then Some (out_addr e div 2 ^ sh * 2 ^ sh + v mod 2 ^ sh, e)
      else None)"

definition translate :: "memory \<Rightarrow> usize \<Rightarrow> usize \<Rightarrow> (PhyAddr \<times> u64) option" where
  "translate m root v = hw_walk m [39, 30, 21, 12] (from_virt root) v"

lemma bit_num_mask:
  "(0x7FFFFFF000 :: nat) = push_bit 12 (mask 27)" "(0xFFFFFFFFF000 :: nat) = push_bit 12 (mask 36)"
  by (simp_all add: mask_numeral)

lemma out_addr_table:
  assumes "is_table_desc e"
  shows "out_addr e = unat e AND 0x7FFFFFF000"
proof (rule bit_eqI)
  fix k
  show "bit (out_addr e) k \<longleftrightarrow> bit (unat e AND 0x7FFFFFF000) k"
  proof (cases "39 \<le> k \<and> k < 48")
    case True
    then have "\<not> bit (unat e) k" using assms by (simp add: is_table_desc_def bit_unsigned_iff)
    then show ?thesis by (simp add: out_addr_def bit_and_iff)
  next
    case False
    then show ?thesis
      unfolding out_addr_def bit_num_mask by (auto simp: bit_and_iff bit_push_bit_iff bit_mask_iff)
  qed
qed

lemma table_field_bound: "x AND 0x7FFFFFF000 \<le> 0x7FFFFFF000" for x :: nat
proof -
  have "int (x AND 0x7FFFFFF000) \<le> int 0x7FFFFFF000" by (simp add: of_nat_and_eq)
  then show ?thesis by linarith
qed

lemma virt_table_entry:
  assumes "is_table_desc e" "i < 512"
  shows "virt (out_addr e + 8 * i) = table_ptr e + 8 * i"
proof -
  have "out_addr e + 8 * i < 2 ^ 39" "out_addr e < 2 ^ 39"
    using table_field_bound [of "unat e"] assms by (simp_all add: out_addr_table)
  then show ?thesis using assms(1) by (simp add: table_ptr_def virt_add out_addr_table)
qed

lemma virt_root_entry:
  assumes "0xffffff0000000000 \<le> root" "root < 0xffffff8000000000" "root mod 4096 = 0" "i < 512"
  shows "virt (from_virt root + 8 * i) = root + 8 * i"
proof -
  define ph where "ph = root - 0xffffff0000000000"
  have n: "root = ph + 0xffffff0000000000" "ph < 2 ^ 39" using assms by (simp_all add: ph_def)
  have ph: "from_virt root = ph" using n window_mod(1) [of ph] by (simp add: from_virt_mod)
  have "ph mod 4096 = 0" using assms(1,3) by (simp add: ph_def mod_eq_0_iff_dvd dvd_diff_nat)
  then obtain q where "ph = 4096 * q" by (rule mod_eq_0E)
  with n assms(4) have "ph + 8 * i < 2 ^ 39" by auto
  with n ph show ?thesis by (simp add: virt_add)
qed

lemma taken_in_window: "pa_inv pa \<Longrightarrow> a \<in> taken pa \<Longrightarrow> in_window pa a 1"
  by (auto simp: taken_def used_def pa_capacity_def intro!: page_in_window)

text \<open>One level of a walk.\<close>

lemma hw_walk_0:
  "read_u64 m (virt (table + 8 * ((v div 2 ^ sh) mod 512))) = e \<Longrightarrow> e = 0 \<Longrightarrow> hw_walk m (sh # shs) table v = None"
  by simp

lemma hw_walk_table:
  "read_u64 m (virt (table + 8 * ((v div 2 ^ sh) mod 512))) = e \<Longrightarrow> is_table_desc e \<Longrightarrow> shs \<noteq> [] \<Longrightarrow>
     hw_walk m (sh # shs) table v = hw_walk m shs (out_addr e) v"
  by (simp add: is_table_desc_def)

lemma hw_walk_page:
  "read_u64 m (virt (table + 8 * ((v div 2 ^ 12) mod 512))) = e \<Longrightarrow> e = 0 \<or> bit e 0 \<and> bit e 1 \<Longrightarrow>
     hw_walk m [12] table v = (if e = 0 then None else Some (out_addr e + v mod 4096, e))"
  by auto

declare hw_walk.simps(2) [simp del]

text \<open>On a well-formed tree the hardware finds what \<open>leaf\<close> reads.\<close>

lemma translate_leaf:
  assumes ok: "pt_ok s root" and v: "v < 2 ^ 39"
    and e: "leaf (mem s) root v = 0 \<or> bit (leaf (mem s) root v) 0 \<and> bit (leaf (mem s) root v) 1"
  shows "translate (mem s) root v = (if leaf (mem s) root v = 0 then None
    else Some (out_addr (leaf (mem s) root v) + v mod 4096, leaf (mem s) root v))"
proof -
  let ?i0 = "v div 2 ^ 39" and ?i1 = "(v div 2 ^ 30) mod 512" and ?i2 = "(v div 2 ^ 21) mod 512" and ?m = "mem s"
  from ok have tr: "tree ?m root (taken (PAGE_ALLOC s))" and inv: "pa_inv (PAGE_ALLOC s)"
    and lin: "heap_linear (PAGE_ALLOC s)" by (simp_all add: pt_ok_def)
  have "root \<in> taken (PAGE_ALLOC s)" "root mod 4096 = 0"
    using treeD(1,2) [OF tr wf_path_Nil] by simp_all
  then have rt: "0xffffff0000000000 \<le> root" "root < 0xffffff8000000000" "root mod 4096 = 0"
    using taken_in_window [OF inv, of root] lin by (auto simp: in_window_def heap_linear_def)
  have i: "?i0 < 512" "?i0 mod 512 = ?i0" "?i1 < 512" "?i2 < 512" using v by simp_all
  have wf: "wf_path [?i0]" "wf_path [?i0, ?i1]" using i by (simp_all add: wf_path_def)
  define e0 where "e0 = read_u64 ?m (root + 8 * ?i0)"
  define e1 where "e1 = read_u64 ?m (table_ptr e0 + 8 * ?i1)"
  define e2 where "e2 = read_u64 ?m (table_ptr e1 + 8 * ?i2)"
  have d0: "e0 \<noteq> 0 \<Longrightarrow> is_table_desc e0"
    unfolding e0_def by (rule treeD(4) [OF tr wf_path_Nil]) (use v in simp_all)
  have d1: "e0 \<noteq> 0 \<Longrightarrow> e1 \<noteq> 0 \<Longrightarrow> is_table_desc e1"
    unfolding e1_def by (rule treeD(4) [OF tr wf(1)]) (use v in \<open>simp_all add: e0_def\<close>)
  have d2: "e0 \<noteq> 0 \<Longrightarrow> e1 \<noteq> 0 \<Longrightarrow> e2 \<noteq> 0 \<Longrightarrow> is_table_desc e2"
    unfolding e2_def by (rule treeD(4) [OF tr wf(2)]) (use v in \<open>simp_all add: e0_def e1_def\<close>)
  have lf: "leaf ?m root v = (if e0 = 0 \<or> e1 = 0 \<or> e2 = 0 then 0 else read_u64 ?m (table_ptr e2 + 8 * ((v div 2 ^ 12) mod 512)))"
    by (auto simp: leaf_def va_path_def leaf_idx_def e0_def e1_def e2_def Let_def)
  have rd: "is_table_desc d \<Longrightarrow> j < 512 \<Longrightarrow> read_u64 ?m (virt (out_addr d + 8 * j)) = read_u64 ?m (table_ptr d + 8 * j)" for d j
    by (simp add: virt_table_entry)
  have rd0: "read_u64 ?m (virt (from_virt root + 8 * (?i0 mod 512))) = e0"
    using virt_root_entry [OF rt i(1)] i(2) by (simp add: e0_def)
  note rd1 = rd [OF d0 i(3), folded e1_def] and rd2 = rd [OF d1 i(4), folded e2_def]
  consider "e0 = 0" | "e0 \<noteq> 0" "e1 = 0" | "e0 \<noteq> 0" "e1 \<noteq> 0" "e2 = 0" | "e0 \<noteq> 0" "e1 \<noteq> 0" "e2 \<noteq> 0" by blast
  then show ?thesis
  proof cases
    case 1
    then show ?thesis using hw_walk_0 [OF rd0] lf by (simp add: translate_def)
  next
    case 2
    then show ?thesis using hw_walk_table [OF rd0 d0] hw_walk_0 [OF rd1] lf by (simp add: translate_def)
  next
    case 3
    then show ?thesis
      using hw_walk_table [OF rd0 d0] hw_walk_table [OF rd1 d1] hw_walk_0 [OF rd2] lf by (simp add: translate_def)
  next
    case 4
    then have "translate ?m root v = hw_walk ?m [12] (out_addr e2) v"
      using hw_walk_table [OF rd0 d0] hw_walk_table [OF rd1 d1] hw_walk_table [OF rd2 d2] by (simp add: translate_def)
    moreover have "read_u64 ?m (virt (out_addr e2 + 8 * ((v div 2 ^ 12) mod 512))) = leaf ?m root v"
      using rd [OF d2, of "(v div 2 ^ 12) mod 512"] 4 lf by simp
    ultimately show ?thesis using e hw_walk_page by simp
  qed
qed

section \<open>The address space\<close>

text \<open>
  A state is sound for a root table when its tables are well formed, every last-level entry in use
  is a valid page descriptor, and every translation the hardware has cached agrees with the tables.
\<close>

definition as_ok :: "'z kernel_scheme \<Rightarrow> usize \<Rightarrow> bool" where
  "as_ok s root \<longleftrightarrow> pt_ok s root \<and>
     (\<forall>u < 2 ^ 39. leaf (mem s) root u = 0 \<or> bit (leaf (mem s) root u) 0 \<and> bit (leaf (mem s) root u) 1) \<and>
     (\<forall>u < 2 ^ 39. \<forall>e. tlb s u = Some e \<longrightarrow> e \<noteq> 0 \<and> leaf (mem s) root u = e)"

lemma common_flags_num: "COMMON_FLAGS = 0x403"
  by (simp add: COMMON_FLAGS_def PT_PAGE_def PT_AF_def)

lemma page_entry_valid: "bit (x OR COMMON_FLAGS OR attrs) 0 \<and> bit (x OR COMMON_FLAGS OR attrs) 1" for x attrs :: u64
  by (simp add: common_flags_num bit_or_iff)

lemma page_entry_nonzero [simp]: "x OR COMMON_FLAGS OR attrs \<noteq> 0" for x attrs :: u64
proof
  assume "x OR COMMON_FLAGS OR attrs = 0"
  with page_entry_valid [of x attrs] show False by simp
qed

lemma out_addr_flags:
  assumes "pa mod 4096 = 0" "pa < 2 ^ 48" "low AND 0xFFFFFFFFF000 = 0"
  shows "out_addr (of_nat pa OR low) = pa"
proof (rule bit_eqI)
  fix k
  have pa: "bit pa k \<Longrightarrow> 12 \<le> k \<and> k < 48" for k
  proof -
    assume b: "bit pa k"
    have "\<not> bit (push_bit 12 (pa div 4096)) k" if "k < 12" using that by (simp add: bit_push_bit_iff)
    then show "12 \<le> k \<and> k < 48"
      using b page_address_push [OF assms(1)] nat_bit_bound [OF assms(2) b] by (metis not_le)
  qed
  have low: "\<not> bit low k" if "12 \<le> k" "k < 48"
  proof -
    have num: "(0xFFFFFFFFF000 :: u64) = push_bit 12 (mask 36)" by (simp add: mask_numeral)
    have "\<not> bit (low AND 0xFFFFFFFFF000) k" using assms(3) by simp
    then show ?thesis using that unfolding num by (auto simp: bit_and_iff bit_push_bit_iff bit_mask_iff)
  qed
  have range: "12 \<le> k \<and> k - 12 < 36 \<longleftrightarrow> 12 \<le> k \<and> k < 48" by auto
  show "bit (out_addr (of_nat pa OR low)) k \<longleftrightarrow> bit pa k"
    using pa [of k] low unfolding out_addr_def bit_num_mask
    by (auto simp: bit_and_iff bit_or_iff bit_push_bit_iff bit_mask_iff bit_unsigned_iff bit_of_nat_iff range)
qed

lemma out_addr_page:
  assumes "pa mod 4096 = 0" "pa < 2 ^ 48" "attrs AND 0xFFFFFFFFF000 = 0"
  shows "out_addr (of_nat pa OR COMMON_FLAGS OR attrs) = pa"
proof -
  have "(COMMON_FLAGS OR attrs) AND 0xFFFFFFFFF000 = 0" using assms(3) by (simp add: common_flags_num bit.conj_disj_distrib2)
  from out_addr_flags [OF assms(1,2) this] show ?thesis by (simp add: or.assoc)
qed

lemma translate_as:
  assumes "as_ok s root" "v < 2 ^ 39"
  shows "translate (mem s) root v = (if leaf (mem s) root v = 0 then None
    else Some (out_addr (leaf (mem s) root v) + v mod 4096, leaf (mem s) root v))"
  by (rule translate_leaf) (use assms in \<open>auto simp: as_ok_def\<close>)

lemma as_ok_remaps:
  assumes ok: "as_ok s root" and r: "remaps s s' root g"
    and g: "\<And>u. u < 2 ^ 39 \<Longrightarrow> g u = leaf (mem s) root u \<or> g u = 0 \<or> bit (g u) 0 \<and> bit (g u) 1"
  shows "as_ok s' root"
proof -
  have lf: "leaf (mem s') root u = g u" if "u < 2 ^ 39" for u using r that by (simp add: remaps_def)
  have "leaf (mem s') root u = 0 \<or> bit (leaf (mem s') root u) 0 \<and> bit (leaf (mem s') root u) 1" if "u < 2 ^ 39" for u
    using lf [OF that] g [OF that] ok that by (auto simp: as_ok_def)
  moreover have "e \<noteq> 0 \<and> leaf (mem s') root u = e" if "u < 2 ^ 39" "tlb s' u = Some e" for u e
    using r that ok lf [OF that(1)] by (auto simp: remaps_def as_ok_def)
  ultimately show ?thesis using remaps_ok [OF r] by (simp add: as_ok_def)
qed

text \<open>What stays as it was: bytes outside the tables, and pages that were allocated.\<close>

lemma remaps_frame:
  assumes "remaps s s' root g"
  shows "\<not> is_table_byte (mem s') root a \<Longrightarrow> mem s' a = mem s a"
    and "taken (PAGE_ALLOC s) \<subseteq> taken (PAGE_ALLOC s')"
  using assms by (simp_all add: remaps_def grows_def)

lemma table_byte_page:
  assumes tr: "tree m root S" and a: "is_table_byte m root a"
  shows "\<exists>p. wf_path p \<and> table_at m p root = Some (a - a mod 4096)" "a - a mod 4096 \<in> S"
proof -
  from a obtain p t where p: "wf_path p" "table_at m p root = Some t" "t \<le> a" "a < t + 4096" by (auto simp: is_table_byte_def)
  have "t mod 4096 = 0" by (rule treeD(2) [OF tr p(1,2)])
  then obtain q where "t = 4096 * q" by (rule mod_eq_0E)
  with p(3,4) have "a div 4096 = q" by (intro div_nat_eqI) auto
  then have "a - a mod 4096 = t" using \<open>t = 4096 * q\<close> by (simp add: minus_mod_eq_mult_div)
  with p treeD(1) [OF tr p(1,2)] show "\<exists>p. wf_path p \<and> table_at m p root = Some (a - a mod 4096)" "a - a mod 4096 \<in> S" by auto
qed

text \<open>In particular a page that was allocated for another purpose keeps its contents.\<close>

lemma remaps_keeps:
  assumes r: "remaps s s' root g" and a: "a - a mod 4096 \<in> taken (PAGE_ALLOC s)" "\<not> is_table_byte (mem s) root a"
  shows "\<not> is_table_byte (mem s') root a" "mem s' a = mem s a"
proof -
  from r have g: "grows s (s'\<lparr>tlb := tlb s\<rparr>) root" by (simp add: remaps_def)
  have tr: "tree (mem s') root (taken (PAGE_ALLOC s'))" using remaps_ok [OF r] by (simp add: pt_ok_def)
  show no: "\<not> is_table_byte (mem s') root a"
  proof
    assume "is_table_byte (mem s') root a"
    from table_byte_page(1) [OF tr this] obtain p where p: "wf_path p" "table_at (mem s') p root = Some (a - a mod 4096)" by blast
    with growsD(5) [OF g p(1)] a(1) have "table_at (mem s) p root = Some (a - a mod 4096)" by simp
    moreover have "a - a mod 4096 \<le> a" "a < a - a mod 4096 + 4096" using mod_less_divisor [of 4096 a] by linarith+
    ultimately show False using p(1) a(2) unfolding is_table_byte_def by auto
  qed
  with remaps_frame(1) [OF r] show "mem s' a = mem s a" by blast
qed

lemma remaps_translate:
  assumes ok: "as_ok s root" "as_ok s' root" and r: "remaps s s' root (\<lambda>u. if P u then h u else leaf (mem s) root u)"
    and u: "u < 2 ^ 39" and h: "P u \<Longrightarrow> h u = 0 \<and> t u = None \<or> h u \<noteq> 0 \<and> t u = Some (out_addr (h u) + u mod 4096, h u)"
  shows "translate (mem s') root u = (if P u then t u else translate (mem s) root u)"
  using translate_as [OF ok(1) u] translate_as [OF ok(2) u] r u h by (auto simp: remaps_def)

section \<open>Memory for tables\<close>

definition free_pages :: "BitmapPageAlloc \<Rightarrow> usize set" where
  "free_pages pa = {a. in_window pa a 1 \<and> a \<notin> taken pa}"

lemma finite_free_pages: "finite (free_pages pa)"
  by (rule finite_subset [of _ "{..ram_base pa + pa_capacity pa * 4096}"]) (auto simp: free_pages_def in_window_def)

text \<open>Changing the tables writes only to tables, old ones and ones on pages that were free.\<close>

lemma remaps_outside:
  assumes r: "remaps s s' root g" and a: "a - a mod 4096 \<notin> free_pages (PAGE_ALLOC s)" "\<not> is_table_byte (mem s) root a"
  shows "\<not> is_table_byte (mem s') root a" "mem s' a = mem s a"
proof -
  show "\<not> is_table_byte (mem s') root a"
  proof
    assume table: "is_table_byte (mem s') root a"
    from remaps_ok [OF r] have tr: "tree (mem s') root (taken (PAGE_ALLOC s'))" and inv: "pa_inv (PAGE_ALLOC s')" by (simp_all add: pt_ok_def)
    from r have "in_window (PAGE_ALLOC s') = in_window (PAGE_ALLOC s)"
      using growsD(7) [of s "s'\<lparr>tlb := tlb s\<rparr>" root] by (simp add: remaps_def)
    with taken_in_window [OF inv table_byte_page(2) [OF tr table]] a(1) have "a - a mod 4096 \<in> taken (PAGE_ALLOC s)"
      by (simp add: free_pages_def)
    with remaps_keeps [OF r] a(2) table show False by blast
  qed
  then show "mem s' a = mem s a" by (rule remaps_frame(1) [OF r])
qed

lemma pages_at_rest:
  assumes "n \<le> m"
  shows "pages_at a m - pages_at a n = pages_at (a + n * 4096) (m - n)"
proof (intro set_eqI iffI)
  fix x assume "x \<in> pages_at a m - pages_at a n"
  then obtain i where i: "i < m" "x = a + i * 4096" "n \<le> i" unfolding pages_at_def by fastforce
  then have "x = a + n * 4096 + (i - n) * 4096" "i - n < m - n" by (simp_all add: diff_mult_distrib)
  then show "x \<in> pages_at (a + n * 4096) (m - n)" unfolding in_pages_at by blast
next
  fix x assume "x \<in> pages_at (a + n * 4096) (m - n)"
  then obtain j where j: "j < m - n" "x = a + (n + j) * 4096" unfolding in_pages_at by (auto simp: add_mult_distrib)
  then have "n + j < m" by simp
  with j(2) have "x \<in> pages_at a m" unfolding in_pages_at by blast
  moreover have "x \<notin> pages_at a n" unfolding in_pages_at j(2) by auto
  ultimately show "x \<in> pages_at a m - pages_at a n" by simp
qed

text \<open>When the free pages are one run, they are handed out from its start.\<close>

lemma pa_alloc_run:
  assumes inv: "pa_inv pa" and free: "free_pages pa = pages_at a m" and n: "0 < n" "n \<le> m"
  shows "\<exists>pa'. pa_alloc b pa n = Inr (Some \<lparr>buf = a, len = n * 4096\<rparr>, pa') \<and> pa_inv pa' \<and>
    ram_base pa' = ram_base pa \<and> pa_capacity pa' = pa_capacity pa \<and> taken pa' = taken pa \<union> pages_at a n \<and>
    free_pages pa' = pages_at (a + n * 4096) (m - n)"
proof -
  have page: "a + i * 4096 \<in> free_pages pa" if "i < m" for i using free that by (auto simp: in_pages_at)
  have win: "in_window pa a n"
  proof -
    have "in_window pa (a + (n - 1) * 4096) 1" "in_window pa a 1"
      using page [of 0] page [of "n - 1"] n by (simp_all add: free_pages_def)
    moreover have "n * 4096 = (n - 1) * 4096 + 4096" using n(1) by (cases n) simp_all
    ultimately show ?thesis unfolding in_window_def by linarith
  qed
  have disj: "taken pa \<inter> pages_at a n = {}"
  proof -
    have "a + i * 4096 \<notin> taken pa" if "i < n" for i using page [of i] that n(2) by (simp add: free_pages_def)
    then show ?thesis by (auto simp: in_pages_at)
  qed
  from pa_alloc_cases [OF inv, of b n] obtain o' pa' where o': "pa_alloc b pa n = Inr (o', pa')"
    "pa_inv pa'" "ram_base pa' = ram_base pa" "pa_capacity pa' = pa_capacity pa"
    and cs: "case o' of
       None \<Rightarrow> pa' = pa \<and> (n = 0 \<or> (\<forall>a. in_window pa a n \<longrightarrow> taken pa \<inter> pages_at a n \<noteq> {}))
     | Some sl \<Rightarrow> 0 < n \<and> len sl = n * 4096 \<and> in_window pa (buf sl) n \<and>
         taken pa \<inter> pages_at (buf sl) n = {} \<and> taken pa' = taken pa \<union> pages_at (buf sl) n"
    by blast
  have "o' \<noteq> None"
  proof
    assume "o' = None"
    with cs n(1) win disj show False by simp
  qed
  then obtain sl where "o' = Some sl" by blast
  with o' cs have r: "pa_alloc b pa n = Inr (Some sl, pa')"
    "pa_inv pa'" "ram_base pa' = ram_base pa" "pa_capacity pa' = pa_capacity pa" "len sl = n * 4096"
    "in_window pa (buf sl) n" "taken pa \<inter> pages_at (buf sl) n = {}" "taken pa' = taken pa \<union> pages_at (buf sl) n"
    by simp_all
  have "buf sl \<in> pages_at (buf sl) n" using n(1) unfolding in_pages_at by (intro exI [of _ 0]) simp
  then have "buf sl \<notin> taken pa" using r(7) by blast
  moreover have "in_window pa (buf sl) 1" using r(6) n(1) unfolding in_window_def by linarith
  ultimately have "buf sl \<in> pages_at a m" unfolding free [symmetric] free_pages_def by blast
  then have "a \<le> buf sl" by (auto simp: in_pages_at)
  with pa_alloc_lowest [OF inv r(1) win disj] have buf: "buf sl = a" by simp
  then have sl: "sl = \<lparr>buf = a, len = n * 4096\<rparr>" using r(5) by (cases sl) simp
  have "in_window pa' = in_window pa" by (simp add: fun_eq_iff in_window_def r(3,4))
  then have "free_pages pa' = free_pages pa - pages_at a n" unfolding free_pages_def r(8) buf by auto
  then have "free_pages pa' = pages_at a m - pages_at a n" unfolding free .
  also have "\<dots> = pages_at (a + n * 4096) (m - n)" by (rule pages_at_rest [OF n(2)])
  finally have "free_pages pa' = pages_at (a + n * 4096) (m - n)" .
  with r(1-4,8) show ?thesis unfolding sl buf by auto
qed

lemma get_mut_or_alloc_serves:
  assumes inv: "pa_inv (PAGE_ALLOC s)" and i: "idx < 512" and free: "Suc n \<le> card (free_pages (PAGE_ALLOC s))"
  shows "\<exists>t' s'. get_mut_or_alloc b t idx TABLE_FLAGS s = Inr (t', s') \<and> pa_inv (PAGE_ALLOC s') \<and>
    n \<le> card (free_pages (PAGE_ALLOC s'))"
proof (cases "read_u64 (mem s) (t + 8 * idx) = 0")
  case False
  then have "get_mut_or_alloc b t idx TABLE_FLAGS s = Inr (table_ptr (read_u64 (mem s) (t + 8 * idx)), s)"
    using i by (simp add: get_mut_or_alloc_def)
  then show ?thesis using inv free by auto
next
  case zero: True
  from inv i zero show ?thesis
  proof (cases rule: get_mut_or_alloc_new [where b = b])
    case oom
    then have "free_pages (PAGE_ALLOC s) = {}" by (auto simp: free_pages_def)
    with free show ?thesis by simp
  next
    case (new a pa)
    have win: "in_window pa = in_window (PAGE_ALLOC s)" by (simp add: fun_eq_iff in_window_def new(3,4))
    have "free_pages (PAGE_ALLOC s) \<subseteq> insert a (free_pages pa)"
      using new(7) win by (auto simp: free_pages_def)
    then have "card (free_pages (PAGE_ALLOC s)) \<le> card (insert a (free_pages pa))"
      by (intro card_mono) (simp_all add: finite_free_pages)
    also have "\<dots> \<le> Suc (card (free_pages pa))" by (simp add: card_insert_if finite_free_pages)
    finally have "n \<le> card (free_pages pa)" using free by simp
    moreover note new(1)
    ultimately show ?thesis using new(2) by (intro exI conjI) (assumption, simp_all)
  qed
qed

lemma vmap_walk_serves:
  assumes inv: "pa_inv (PAGE_ALLOC s)" and v: "v < 2 ^ 39" and free: "n + 3 \<le> card (free_pages (PAGE_ALLOC s))"
  shows "\<exists>l3 s'. vmap_walk b root v s = Inr (l3, s') \<and> pa_inv (PAGE_ALLOC s') \<and> n \<le> card (free_pages (PAGE_ALLOC s'))"
proof -
  have i: "v div 2 ^ 39 < 512" "(v div 2 ^ 30) mod 512 < 512" "(v div 2 ^ 21) mod 512 < 512" using v by simp_all
  from get_mut_or_alloc_serves [OF inv i(1), of "n + 2" b root] free obtain t1 s1 where
    1: "get_mut_or_alloc b root (v div 2 ^ 39) TABLE_FLAGS s = Inr (t1, s1)" "pa_inv (PAGE_ALLOC s1)"
    "n + 2 \<le> card (free_pages (PAGE_ALLOC s1))" by auto
  from get_mut_or_alloc_serves [OF 1(2) i(2), of "n + 1" b t1] 1(3) obtain t2 s2 where
    2: "get_mut_or_alloc b t1 ((v div 2 ^ 30) mod 512) TABLE_FLAGS s1 = Inr (t2, s2)" "pa_inv (PAGE_ALLOC s2)"
    "n + 1 \<le> card (free_pages (PAGE_ALLOC s2))" by auto
  from get_mut_or_alloc_serves [OF 2(2) i(3), of n b t2] 2(3) obtain t3 s3 where
    "get_mut_or_alloc b t2 ((v div 2 ^ 21) mod 512) TABLE_FLAGS s2 = Inr (t3, s3)" "pa_inv (PAGE_ALLOC s3)"
    "n \<le> card (free_pages (PAGE_ALLOC s3))" by auto
  with 1(1) 2(1) show ?thesis by (simp add: vmap_walk_def)
qed

lemma vmap_at_serves:
  assumes "pa_inv (PAGE_ALLOC s)" "n + 3 \<le> card (free_pages (PAGE_ALLOC s))"
  shows "case vmap_at b root v pa attrs s of Inl e \<Rightarrow> e \<noteq> ExpectFailed ''OOM''
    | Inr s' \<Rightarrow> pa_inv (PAGE_ALLOC s') \<and> n \<le> card (free_pages (PAGE_ALLOC s'))"
proof (cases "v < 2 ^ 39 \<and> v mod 4096 = 0")
  case True
  with vmap_walk_serves [OF assms(1) _ assms(2), of v b root] obtain l3 s' where
    "vmap_walk b root v s = Inr (l3, s')" "pa_inv (PAGE_ALLOC s')" "n \<le> card (free_pages (PAGE_ALLOC s'))" by auto
  with True show ?thesis by (simp add: vmap_at_def PAGE_SIZE_def pt_set_def assert_def tlb_flush_def)
next
  case False
  then show ?thesis by (auto simp: vmap_at_def PAGE_SIZE_def assert_def)
qed

lemma vmap_pages_serve:
  assumes "pa_inv (PAGE_ALLOC s)" "n + 3 * length offsets \<le> card (free_pages (PAGE_ALLOC s))"
  shows "case foldM (\<lambda>offset s. bnd (usize_add b v offset) (\<lambda>v. bnd (usize_add b p offset) (\<lambda>p. vmap_at b root v p attrs s)))
      offsets s of Inl e \<Rightarrow> e \<noteq> ExpectFailed ''OOM'' | Inr s' \<Rightarrow> pa_inv (PAGE_ALLOC s') \<and> n \<le> card (free_pages (PAGE_ALLOC s'))"
  using assms
proof (induction offsets arbitrary: s)
  case (Cons offset offsets)
  have no: "usize_add b x offset \<noteq> Inl (ExpectFailed ''OOM'')" for x by (cases b) (simp_all add: usize_add_def usize_wrap_def)
  consider (overflow) e where "usize_add b v offset = Inl e \<or> usize_add b p offset = Inl e"
    | (ok) x y where "usize_add b v offset = Inr x" "usize_add b p offset = Inr y"
    by (cases "usize_add b v offset"; cases "usize_add b p offset") auto
  then show ?case
  proof cases
    case overflow
    then show ?thesis using no [of v] no [of p] by (cases "usize_add b v offset") auto
  next
    case ok
    with vmap_at_serves [OF Cons.prems(1), of "n + 3 * length offsets" b root x y attrs] Cons.prems(2) Cons.IH
    show ?thesis by (cases "vmap_at b root x y attrs s") auto
  qed
qed simp

lemma pages_of:
  assumes "n mod 4096 = 0"
  shows "div_ceil n PAGE_SIZE * 4096 = n"
proof -
  from assms obtain q where "n = 4096 * q" by (rule mod_eq_0E)
  then show ?thesis by (simp add: div_ceil_def PAGE_SIZE_def)
qed

lemma div_ceil_least:
  assumes "x \<le> m * y" "0 < y"
  shows "div_ceil x y \<le> m"
proof -
  have "x div y * y + x mod y \<le> m * y" using assms by simp
  then have "x div y * y \<le> m * y" "0 < x mod y \<Longrightarrow> x div y * y < m * y" by linarith+
  with assms(2) show ?thesis by (auto simp: div_ceil_def)
qed

lemma pages_below:
  assumes "v mod 4096 = 0" "v + n \<le> 2 ^ 39"
  shows "v + div_ceil n PAGE_SIZE * 4096 \<le> 2 ^ 39"
proof -
  from assms(1) obtain q where "v = 4096 * q" by (rule mod_eq_0E)
  with assms(2) have "n \<le> (134217728 - q) * 4096" by simp
  from div_ceil_least [OF this] have "div_ceil n 4096 \<le> 134217728 - q" by simp
  with \<open>v = 4096 * q\<close> assms(2) show ?thesis by (simp add: PAGE_SIZE_def)
qed

lemma page_offsets_eq: "page_offsets n = map (\<lambda>i. i * 4096) [0..<div_ceil n PAGE_SIZE]"
  by (simp add: page_offsets_def PAGE_SIZE_def)

lemma vunmap_ok:
  assumes ok: "as_ok s root" and v: "v mod 4096 = 0" "v + n \<le> 2 ^ 39"
  shows "\<exists>s'. vunmap b root v n s = Inr s' \<and> as_ok s' root \<and>
    remaps s s' root (\<lambda>u. if v \<le> u \<and> u < v + div_ceil n PAGE_SIZE * 4096 then 0 else leaf (mem s) root u)"
proof -
  have "pt_ok s root" using ok by (simp add: as_ok_def)
  from vunmap_pages [OF this v(1) pages_below [OF v], of b] obtain s' where
    s': "vunmap b root v n s = Inr s'"
    "remaps s s' root (\<lambda>u. if v \<le> u \<and> u < v + div_ceil n PAGE_SIZE * 4096 then 0 else leaf (mem s) root u)"
    unfolding vunmap_def page_offsets_eq by blast
  have "as_ok s' root" by (rule as_ok_remaps [OF ok s'(2)]) auto
  with s' show ?thesis by blast
qed

text \<open>A hole that ends within its gigabyte is mapped as a whole.\<close>

lemma vmap_ok:
  assumes ok: "as_ok s root" and n: "n mod 4096 = 0" "p + n \<le> 2 ^ 64"
    and hole: "find_hole (mem s) root 0x50000000 n = Inr (Some v)" "v mod 2 ^ 30 + n \<le> 2 ^ 30"
  shows "v mod 4096 = 0" "v + n \<le> 2 ^ 39" "\<forall>u. v \<le> u \<and> u < v + n \<longrightarrow> leaf (mem s) root u = 0"
    "vmap b root p n attrs s = Inl (ExpectFailed ''OOM'') \<and> card (free_pages (PAGE_ALLOC s)) < 3 * (n div 4096) \<or>
      (\<exists>s'. vmap b root p n attrs s = Inr (v, s') \<and> as_ok s' root \<and>
        remaps s s' root (\<lambda>u. if v \<le> u \<and> u < v + n
          then of_nat (p + (u - v) div 4096 * 4096) OR COMMON_FLAGS OR attrs else leaf (mem s) root u))"
proof -
  from find_hole_free [OF hole(1)] obtain l where v: "0x50000000 \<le> v" "v < 2 ^ 39" "v mod 4096 = 0"
    and l: "n \<le> l" "measure_contiguous_region (mem s) root v 0xffffffffffffffff n = Inr (FreeRegion l)"
    by auto
  have gb: "v = v div 2 ^ 30 * 2 ^ 30 + v mod 2 ^ 30" by simp
  have "v div 2 ^ 30 < 2 ^ 9" using v(2) by (simp add: div_less_iff_less_mult)
  then have "v div 2 ^ 30 * 2 ^ 30 + 2 ^ 30 \<le> 2 ^ 39" by simp
  with gb hole(2) show le: "v + n \<le> 2 ^ 39" by linarith
  show al: "v mod 4096 = 0" by (rule v(3))
  have same: "u div 2 ^ 30 = v div 2 ^ 30" if "v \<le> u" "u < v + n" for u
  proof -
    have "v div 2 ^ 30 * 2 ^ 30 \<le> u" "u < v div 2 ^ 30 * 2 ^ 30 + 2 ^ 30" using that gb hole(2) by linarith+
    then show ?thesis by (intro div_nat_eqI) (simp_all add: mult.commute)
  qed
  have free: "leaf (mem s) root u = 0" if "v \<le> u" "u < v + n" for u
    using free_region_unmapped [OF l(2) v(2,3), rule_format, of u] l(1) same [OF that] that by simp
  then show "\<forall>u. v \<le> u \<and> u < v + n \<longrightarrow> leaf (mem s) root u = 0" by blast
  have pt: "pt_ok s root" and inv: "pa_inv (PAGE_ALLOC s)" using ok by (simp_all add: as_ok_def pt_ok_def)
  note k = pages_of [OF n(1)]
  have "div_ceil n PAGE_SIZE = n div 4096" using k by (metis nonzero_mult_div_cancel_right zero_neq_numeral)
  then have len: "length (page_offsets n) = n div 4096" by (simp add: page_offsets_eq)
  let ?body = "\<lambda>offset s. bnd (usize_add b v offset) (\<lambda>v. bnd (usize_add b p offset) (\<lambda>p. vmap_at b root v p attrs s))"
  have eq: "vmap b root p n attrs s = bnd (foldM ?body (page_offsets n) s) (\<lambda>s. Inr (v, s))"
    using n(1) hole(1) by (simp add: vmap_def PAGE_SIZE_def)
  have "foldM ?body (page_offsets n) s = Inl (ExpectFailed ''OOM'') \<or> (\<exists>s'. foldM ?body (page_offsets n) s = Inr s' \<and>
      remaps s s' root (\<lambda>u. if v \<le> u \<and> u < v + n
        then of_nat (p + (u - v) div 4096 * 4096) OR COMMON_FLAGS OR attrs else leaf (mem s) root u))"
    using vmap_pages [OF pt al, of "div_ceil n PAGE_SIZE" p b attrs, unfolded k, folded page_offsets_eq, OF le n(2) free] .
  then consider "foldM ?body (page_offsets n) s = Inl (ExpectFailed ''OOM'')"
    | s' where "foldM ?body (page_offsets n) s = Inr s'"
      "remaps s s' root (\<lambda>u. if v \<le> u \<and> u < v + n
        then of_nat (p + (u - v) div 4096 * 4096) OR COMMON_FLAGS OR attrs else leaf (mem s) root u)"
    by blast
  then show "vmap b root p n attrs s = Inl (ExpectFailed ''OOM'') \<and> card (free_pages (PAGE_ALLOC s)) < 3 * (n div 4096) \<or>
      (\<exists>s'. vmap b root p n attrs s = Inr (v, s') \<and> as_ok s' root \<and>
        remaps s s' root (\<lambda>u. if v \<le> u \<and> u < v + n
          then of_nat (p + (u - v) div 4096 * 4096) OR COMMON_FLAGS OR attrs else leaf (mem s) root u))"
  proof cases
    case 1
    then have "card (free_pages (PAGE_ALLOC s)) < 3 * (n div 4096)"
      using vmap_pages_serve [OF inv, of 0 "page_offsets n" b v p root attrs]
      by (auto simp: len not_le [symmetric])
    with 1 eq show ?thesis by simp
  next
    case (2 s')
    have "as_ok s' root" by (rule as_ok_remaps [OF ok 2(2)]) (use page_entry_valid in auto)
    with 2 eq show ?thesis by (intro disjI2 exI conjI) simp_all
  qed
qed

section \<open>Properties\<close>

text \<open>
  C7: \<open>vmap_at\<close> maps exactly the page it is given: afterwards the hardware translates every address
  of that page to the physical page with the given attributes, and every other address as before.
  It panics when the page is mapped already, and for lack of memory only when fewer than three pages
  are free. The tables stay well formed, the cached translations current, no byte outside the tables
  changes and no allocated page is lost.
\<close>

theorem vmap_at_maps_page:
  assumes ok: "as_ok s root" and v: "v < 2 ^ 39" "v mod 4096 = 0"
    and pa: "pa mod 4096 = 0" "pa < 2 ^ 48" "attrs AND 0xFFFFFFFFF000 = 0"
  shows "if translate (mem s) root v \<noteq> None
    then vmap_at b root v pa attrs s = Inl (AssertFailed ''Tried to map memory that is already occupied'')
    else vmap_at b root v pa attrs s = Inl (ExpectFailed ''OOM'') \<and> card (free_pages (PAGE_ALLOC s)) < 3 \<or>
      (\<exists>s'. vmap_at b root v pa attrs s = Inr s' \<and> as_ok s' root \<and>
        (\<forall>u < 2 ^ 39. translate (mem s') root u = (if u div 4096 = v div 4096
           then Some (pa + u mod 4096, of_nat pa OR COMMON_FLAGS OR attrs) else translate (mem s) root u)) \<and>
        (\<forall>a. \<not> is_table_byte (mem s') root a \<longrightarrow> mem s' a = mem s a) \<and>
        taken (PAGE_ALLOC s) \<subseteq> taken (PAGE_ALLOC s'))"
proof (cases "leaf (mem s) root v = 0")
  case False
  with vmap_at_ok [OF _ v, of s root b pa attrs] ok show ?thesis
    by (simp add: translate_as [OF ok v(1)] as_ok_def)
next
  case True
  have inv: "pa_inv (PAGE_ALLOC s)" and pt: "pt_ok s root" using ok by (simp_all add: as_ok_def pt_ok_def)
  let ?e = "of_nat pa OR COMMON_FLAGS OR attrs"
  from vmap_at_ok [OF pt v, of b pa attrs] True consider
    "vmap_at b root v pa attrs s = Inl (ExpectFailed ''OOM'')"
    | s' where "vmap_at b root v pa attrs s = Inr s'"
      "remaps s s' root (\<lambda>u. if u div 4096 = v div 4096 then ?e else leaf (mem s) root u)" by auto
  then show ?thesis
  proof cases
    case 1
    with vmap_at_serves [OF inv, of 0 b root v pa attrs] True show ?thesis
      by (auto simp: translate_as [OF ok v(1)] not_le [symmetric])
  next
    case (2 s')
    have ok': "as_ok s' root" by (rule as_ok_remaps [OF ok 2(2)]) (use page_entry_valid in auto)
    have "translate (mem s') root u = (if u div 4096 = v div 4096 then Some (pa + u mod 4096, ?e)
        else translate (mem s) root u)" if "u < 2 ^ 39" for u
      by (rule remaps_translate [OF ok ok' 2(2) that]) (simp add: out_addr_page [OF pa])
    with 2(1) ok' remaps_frame [OF 2(2)] True show ?thesis by (simp add: translate_as [OF ok v(1)])
  qed
qed


text \<open>A small address space without mappings: the root table is the first page of a heap of 64 pages.\<close>

definition empty_space :: kernel where
  "empty_space = \<lparr>mem = (\<lambda>_. 0), daif = 0, uart0_addr = 0x9000000, dev_writes = [], ttbr0 = 0, tlb = (\<lambda>_. None),
     PAGE_ALLOC = \<lparr>bitmap_alloc = \<lparr>bitmap = [1]\<rparr>, ram_base = 0xffffff0000002000\<rparr>\<rparr>"

abbreviation "empty_root \<equiv> 0xffffff0000002000 :: usize"

lemma empty_space_heap:
  "pa_inv (PAGE_ALLOC empty_space)" "pa_capacity (PAGE_ALLOC empty_space) = 64" "ram_base (PAGE_ALLOC empty_space) = empty_root"
  "taken (PAGE_ALLOC empty_space) = {empty_root}"
proof -
  show cap: "pa_capacity (PAGE_ALLOC empty_space) = 64" "ram_base (PAGE_ALLOC empty_space) = empty_root"
    by (simp_all add: empty_space_def pa_capacity_def bit_capacity_def)
  show "pa_inv (PAGE_ALLOC empty_space)" by (simp add: pa_inv_def cap)
  have "used \<lparr>bitmap = [1]\<rparr> = {0}"
    by (auto simp: used_def bit_capacity_def page_used_def bit_1_iff)
  then show "taken (PAGE_ALLOC empty_space) = {empty_root}"
    by (simp add: taken_def empty_space_def page_addr_def)
qed

lemma empty_space_free: "6 \<le> card (free_pages (PAGE_ALLOC empty_space))"
proof -
  have "{empty_root + 0x1000, empty_root + 0x2000, empty_root + 0x3000, empty_root + 0x4000, empty_root + 0x5000,
      empty_root + 0x6000} \<subseteq> free_pages (PAGE_ALLOC empty_space)"
    by (simp add: free_pages_def in_window_def empty_space_heap)
  from card_mono [OF finite_free_pages this] show ?thesis by simp
qed

lemma empty_space_ok: "as_ok empty_space empty_root"
proof -
  have at: "table_at (\<lambda>_. 0) p root = (if p = [] then Some root else None)" for p and root :: usize
    by (cases p) (simp_all add: read_zero)
  have "tree (mem empty_space) empty_root (taken (PAGE_ALLOC empty_space))"
    unfolding empty_space_heap(4) by (simp add: tree_def at empty_space_def read_zero)
  then show ?thesis
    using empty_space_heap
    by (simp add: as_ok_def pt_ok_def heap_linear_def leaf_def va_path_def empty_space_def read_zero)
qed

theorem vmap_at_maps_page_witness:
  "\<exists>s'. vmap_at Dev empty_root 0x10000000 0x40000000 PT_RW_EL0 empty_space = Inr s' \<and>
     translate (mem s') empty_root 0x10000123 = Some (0x40000123, 0x40000443)"
proof -
  have "translate (mem empty_space) empty_root 0x10000000 = None"
    using translate_as [OF empty_space_ok, of "0x10000000"]
    by (simp add: leaf_def va_path_def empty_space_def read_zero)
  with vmap_at_maps_page [OF empty_space_ok, of "0x10000000" "0x40000000" PT_RW_EL0 Dev] empty_space_free
  show ?thesis by (auto simp: PT_RW_EL0_def common_flags_num)
qed

text \<open>
  C16: \<open>vunmap\<close> never panics on a page-aligned range of user addresses: afterwards no address of the
  pages the range touches is translated, by the tables or by a cached translation, and every other
  address is translated as before.
\<close>

theorem vunmap_clears_range:
  assumes "as_ok s root" "v mod 4096 = 0" "v + n \<le> 2 ^ 39"
  shows "\<exists>s'. vunmap b root v n s = Inr s' \<and> as_ok s' root \<and>
    (\<forall>u < 2 ^ 39. translate (mem s') root u =
       (if v \<le> u \<and> u < v + div_ceil n PAGE_SIZE * 4096 then None else translate (mem s) root u)) \<and>
    (\<forall>u. v \<le> u \<and> u < v + n \<longrightarrow> tlb s' u = None) \<and>
    (\<forall>a. \<not> is_table_byte (mem s') root a \<longrightarrow> mem s' a = mem s a)"
proof -
  from vunmap_ok [OF assms, of b] obtain s' where s': "vunmap b root v n s = Inr s'" "as_ok s' root"
    "remaps s s' root (\<lambda>u. if v \<le> u \<and> u < v + div_ceil n PAGE_SIZE * 4096 then 0 else leaf (mem s) root u)" by blast
  have tr: "translate (mem s') root u =
       (if v \<le> u \<and> u < v + div_ceil n PAGE_SIZE * 4096 then None else translate (mem s) root u)" if "u < 2 ^ 39" for u
    by (rule remaps_translate [OF assms(1) s'(2,3) that]) simp
  have "tlb s' u = None" if "v \<le> u" "u < v + n" for u
  proof -
    have "u < 2 ^ 39" "u < v + div_ceil n PAGE_SIZE * 4096"
      using that assms(3) div_ceil_le [of 4096 n] by (auto simp: PAGE_SIZE_def)
    then have "leaf (mem s') root u = 0" using s'(3) that by (simp add: remaps_def)
    with s'(2) \<open>u < 2 ^ 39\<close> show ?thesis by (cases "tlb s' u") (auto simp: as_ok_def)
  qed
  with s' tr remaps_frame(1) [OF s'(3)] show ?thesis by blast
qed

theorem vunmap_clears_range_witness:
  "\<exists>s'. vunmap Dev empty_root 0x10000000 0x2000 empty_space = Inr s' \<and> as_ok s' empty_root \<and>
    translate (mem s') empty_root 0x10001fff = None"
proof -
  have "div_ceil 0x2000 PAGE_SIZE = 2" by (simp add: div_ceil_def PAGE_SIZE_def)
  with vunmap_clears_range [OF empty_space_ok, of "0x10000000" "0x2000" Dev] show ?thesis by auto
qed

lemma vmap_translates:
  fixes s :: "'z kernel_scheme"
  defines "desc p attrs \<equiv> of_nat p OR COMMON_FLAGS OR attrs :: u64"
  assumes ok: "as_ok s root" and n: "n mod 4096 = 0" and p: "p mod 4096 = 0" "p + n \<le> 2 ^ 48" "attrs AND 0xFFFFFFFFF000 = 0"
    and hole: "find_hole (mem s) root 0x50000000 n = Inr (Some v)" "v mod 2 ^ 30 + n \<le> 2 ^ 30"
  obtains (oom) "vmap b root p n attrs s = Inl (ExpectFailed ''OOM'')" "card (free_pages (PAGE_ALLOC s)) < 3 * (n div 4096)"
  | (mapped) s' where "vmap b root p n attrs s = Inr (v, s')" "as_ok s' root" "v + n \<le> 2 ^ 39"
      "remaps s s' root (\<lambda>u. if v \<le> u \<and> u < v + n then desc (p + (u - v) div 4096 * 4096) attrs else leaf (mem s) root u)"
      "\<And>u. v \<le> u \<Longrightarrow> u < v + n \<Longrightarrow> translate (mem s) root u = None"
      "\<And>u. u < 2 ^ 39 \<Longrightarrow> translate (mem s') root u = (if v \<le> u \<and> u < v + n
         then Some (p + (u - v), desc (p + (u - v) div 4096 * 4096) attrs) else translate (mem s) root u)"
proof -
  have "p + n \<le> 2 ^ 64" using p(2) by simp
  note vm = vmap_ok(1-3) [OF ok n this hole] and vm4 = vmap_ok(4) [OF ok n this hole, of b attrs]
  from vm4 consider "vmap b root p n attrs s = Inl (ExpectFailed ''OOM'') \<and> card (free_pages (PAGE_ALLOC s)) < 3 * (n div 4096)"
    | s' where "vmap b root p n attrs s = Inr (v, s')" "as_ok s' root"
      "remaps s s' root (\<lambda>u. if v \<le> u \<and> u < v + n then desc (p + (u - v) div 4096 * 4096) attrs else leaf (mem s) root u)"
    unfolding desc_def by blast
  then show thesis
  proof cases
    case (2 s')
    have out: "out_addr (desc (p + (u - v) div 4096 * 4096) attrs) + u mod 4096 = p + (u - v)" if "v \<le> u" "u < v + n" for u
    proof -
      have "(p + (u - v) div 4096 * 4096) mod 4096 = 0" using p(1) by (simp add: mod_eq_0_iff_dvd)
      moreover have "p + (u - v) div 4096 * 4096 < 2 ^ 48"
        using that p(2) div_times_less_eq_dividend [of "u - v" 4096] by linarith
      moreover have "u mod 4096 = (u - v) mod 4096" using vm(1) that(1) mod_add_right_eq [of "u - v" v 4096] by simp
      ultimately show ?thesis using out_addr_page [OF _ _ p(3), of "p + (u - v) div 4096 * 4096"] by (simp add: desc_def del: of_nat_add)
    qed
    have nz: "desc x y \<noteq> 0" for x y by (simp add: desc_def)
    have tr: "translate (mem s') root u = (if v \<le> u \<and> u < v + n
        then Some (p + (u - v), desc (p + (u - v) div 4096 * 4096) attrs) else translate (mem s) root u)" if "u < 2 ^ 39" for u
      by (rule remaps_translate [OF ok 2(2,3) that]) (simp add: out nz)
    have no: "translate (mem s) root u = None" if "v \<le> u" "u < v + n" for u
      using vm(2,3) translate_as [OF ok, of u] that by simp
    show thesis by (rule mapped [OF 2(1,2) vm(2) 2(3) no tr])
  qed (use oom in blast)
qed

text \<open>
  C15: \<open>vmap\<close> maps the whole region at the hole it found, when that hole ends within its gigabyte:
  byte by byte the range translates to the physical region, every other address as before. It fails
  for lack of memory only with fewer than three free pages for each page of the region.
\<close>

theorem vmap_maps_region:
  assumes ok: "as_ok s root" and n: "n mod 4096 = 0" and p: "p mod 4096 = 0" "p + n \<le> 2 ^ 48" "attrs AND 0xFFFFFFFFF000 = 0"
    and hole: "find_hole (mem s) root 0x50000000 n = Inr (Some v)" "v mod 2 ^ 30 + n \<le> 2 ^ 30"
  shows "vmap b root p n attrs s = Inl (ExpectFailed ''OOM'') \<and> card (free_pages (PAGE_ALLOC s)) < 3 * (n div 4096) \<or>
    (\<exists>s'. vmap b root p n attrs s = Inr (v, s') \<and> as_ok s' root \<and>
      (\<forall>u < 2 ^ 39. if v \<le> u \<and> u < v + n
         then translate (mem s) root u = None \<and> (\<exists>e. translate (mem s') root u = Some (p + (u - v), e))
         else translate (mem s') root u = translate (mem s) root u) \<and>
      (\<forall>a. \<not> is_table_byte (mem s') root a \<longrightarrow> mem s' a = mem s a) \<and>
      taken (PAGE_ALLOC s) \<subseteq> taken (PAGE_ALLOC s'))"
proof (cases rule: vmap_translates [OF ok n p hole, of b])
  case (2 s')
  have "if v \<le> u \<and> u < v + n
       then translate (mem s) root u = None \<and> (\<exists>e. translate (mem s') root u = Some (p + (u - v), e))
       else translate (mem s') root u = translate (mem s) root u" if "u < 2 ^ 39" for u
    using 2(5) [of u] 2(6) [OF that] by simp
  with 2(1,2) remaps_frame [OF 2(4)] show ?thesis by blast
qed simp

lemma empty_space_holes:
  assumes "n \<le> 0x40000000"
  shows "find_hole (mem empty_space) empty_root 0x50000000 n = Inr (Some 0x50000000)"
proof -
  have upt: "[0..<512] = 0 # [1..<512]" using upt_conv_Cons [of 0 512] by (simp del: upt_rec_numeral)
  have "measure_contiguous_region (mem empty_space) empty_root 0x50000000 ma n = Inr (FreeRegion 0x40000000)" for ma
    unfolding measure_contiguous_region_def using assms
    by (subst measure_contiguous_region_helper.simps)
      (simp add: upt measure_loop_step measure_entry_def entry_kind_eq empty_space_def read_zero
        del: measure_loop.simps(2) upt_rec_numeral)
  then show ?thesis using assms by (subst find_hole.simps) simp
qed

lemma empty_space_hole: "find_hole (mem empty_space) empty_root 0x50000000 0x2000 = Inr (Some 0x50000000)"
  by (rule empty_space_holes) simp

theorem vmap_maps_region_witness:
  "\<exists>s' e. vmap Dev empty_root 0x40000000 0x2000 PT_RW_EL0 empty_space = Inr (0x50000000, s') \<and>
     translate (mem s') empty_root 0x50001234 = Some (0x40001234, e)"
proof -
  have "0x50000000 mod 2 ^ 30 + 0x2000 \<le> (2 :: nat) ^ 30" by simp
  with vmap_maps_region [OF empty_space_ok _ _ _ _ empty_space_hole, of "0x40000000" PT_RW_EL0 Dev] empty_space_free
  obtain s' where "vmap Dev empty_root 0x40000000 0x2000 PT_RW_EL0 empty_space = Inr (0x50000000, s')"
    and "\<forall>u < 2 ^ 39. if 0x50000000 \<le> u \<and> u < 0x50002000
      then translate (mem empty_space) empty_root u = None \<and>
        (\<exists>e. translate (mem s') empty_root u = Some (0x40000000 + (u - 0x50000000), e))
      else translate (mem s') empty_root u = translate (mem empty_space) empty_root u"
    by (auto simp: PT_RW_EL0_def)
  from this(1) this(2) [rule_format, of "0x50001234"] show ?thesis by auto
qed

text \<open>
  What \<open>vmap\<close> mapped, \<open>vunmap\<close> of the returned range unmaps: every user address is translated as
  it was before the two calls.
\<close>

theorem vmap_vunmap_roundtrip:
  assumes ok: "as_ok s root" and n: "n mod 4096 = 0" "p + n \<le> 2 ^ 64"
    and hole: "find_hole (mem s) root 0x50000000 n = Inr (Some v)" "v mod 2 ^ 30 + n \<le> 2 ^ 30"
    and vmap: "vmap b root p n attrs s = Inr (v', s1)"
  shows "v' = v \<and> (\<exists>s2. vunmap b root v' n s1 = Inr s2 \<and> as_ok s2 root \<and>
    (\<forall>u < 2 ^ 39. translate (mem s2) root u = translate (mem s) root u))"
proof -
  note vm = vmap_ok(1-3) [OF ok n hole] and vm4 = vmap_ok(4) [OF ok n hole, of b attrs]
  from vm4 vmap have v': "v' = v" and ok1: "as_ok s1 root" and r1: "remaps s s1 root (\<lambda>u. if v \<le> u \<and> u < v + n
      then of_nat (p + (u - v) div 4096 * 4096) OR COMMON_FLAGS OR attrs else leaf (mem s) root u)" by auto
  from vunmap_ok [OF ok1 vm(1,2), of b] pages_of [OF n(1)] obtain s2 where s2: "vunmap b root v n s1 = Inr s2"
    "as_ok s2 root" "remaps s1 s2 root (\<lambda>u. if v \<le> u \<and> u < v + n then 0 else leaf (mem s1) root u)" by auto
  have "leaf (mem s2) root u = leaf (mem s) root u" if "u < 2 ^ 39" for u
    using r1 s2(3) vm(3) that by (auto simp: remaps_def)
  then have "translate (mem s2) root u = translate (mem s) root u" if "u < 2 ^ 39" for u
    using translate_as [OF ok that] translate_as [OF s2(2) that] that by simp
  with v' s2 show ?thesis by blast
qed

theorem vmap_vunmap_roundtrip_witness:
  "\<exists>s1 s2. vmap Dev empty_root 0x40000000 0x2000 PT_RW_EL0 empty_space = Inr (0x50000000, s1) \<and>
     vunmap Dev empty_root 0x50000000 0x2000 s1 = Inr s2 \<and> translate (mem s2) empty_root 0x50001234 = None"
proof -
  have hole: "0x50000000 mod 2 ^ 30 + 0x2000 \<le> (2 :: nat) ^ 30" by simp
  obtain s1 where s1: "vmap Dev empty_root 0x40000000 0x2000 PT_RW_EL0 empty_space = Inr (0x50000000, s1)"
    using vmap_ok(4) [OF empty_space_ok _ _ empty_space_hole hole, of "0x40000000" Dev PT_RW_EL0] empty_space_free by auto
  have "translate (mem empty_space) empty_root 0x50001234 = None"
    using translate_as [OF empty_space_ok, of "0x50001234"] by (simp add: leaf_def va_path_def empty_space_def read_zero)
  with s1 vmap_vunmap_roundtrip [OF empty_space_ok _ _ empty_space_hole hole s1] show ?thesis by auto
qed

section \<open>Interleavings with the hardware\<close>

lemma vmap_at_returns:
  assumes ok: "as_ok s root" and ret: "vmap_at b root v p attrs s = Inr s'"
  shows "as_ok s' root" "\<exists>g. remaps s s' root g"
proof -
  have v: "v < 2 ^ 39" "v mod 4096 = 0" using ret by (auto simp: vmap_at_def PAGE_SIZE_def returns_iff)
  have "pt_ok s root" using ok by (simp add: as_ok_def)
  from vmap_at_ok [OF this v, of b p attrs] ret
  have r: "remaps s s' root (\<lambda>u. if u div 4096 = v div 4096 then of_nat p OR COMMON_FLAGS OR attrs else leaf (mem s) root u)"
    by (auto split: if_splits)
  then show "as_ok s' root" by (rule as_ok_remaps [OF ok]) (use page_entry_valid in auto)
  from r show "\<exists>g. remaps s s' root g" by blast
qed

lemma vunmap_single_returns:
  assumes ok: "as_ok s root" and ret: "vunmap_single root v s = Inr s'"
  shows "as_ok s' root" "\<exists>g. remaps s s' root g"
proof -
  have v: "v < 2 ^ 39" "v mod 4096 = 0" using ret by (auto simp: vunmap_single_def PAGE_SIZE_def returns_iff)
  have "pt_ok s root" using ok by (simp add: as_ok_def)
  from vunmap_single_ok [OF this v] ret
  have r: "remaps s s' root (\<lambda>u. if u div 4096 = v div 4096 then 0 else leaf (mem s) root u)" by auto
  then show "as_ok s' root" by (rule as_ok_remaps [OF ok]) auto
  from r show "\<exists>g. remaps s s' root g" by blast
qed

text \<open>
  What may happen to an address space: the kernel maps or unmaps (a call that panics changes nothing
  the user sees again), and between its calls the hardware caches translations it finds in the
  tables and drops cached ones.
\<close>

inductive as_step :: "usize \<Rightarrow> kernel \<Rightarrow> kernel \<Rightarrow> bool" for root where
  step_vmap_at: "vmap_at b root v p attrs s = Inr s' \<Longrightarrow> as_step root s s'"
| step_vmap: "vmap b root p n attrs s = Inr (v, s') \<Longrightarrow> as_step root s s'"
| step_vunmap: "vunmap b root v n s = Inr s' \<Longrightarrow> as_step root s s'"
| step_fill: "v < 2 ^ 39 \<Longrightarrow> translate (mem s) root v = Some (p, e) \<Longrightarrow> as_step root s (s\<lparr>tlb := (tlb s)(v \<mapsto> e)\<rparr>)"
| step_evict: "as_step root s (s\<lparr>tlb := (tlb s)(v := None)\<rparr>)"

lemma as_step_ok:
  assumes "as_step root s s'" "as_ok s root"
  shows "as_ok s' root"
  using assms
proof cases
  case (step_vmap_at b v p attrs)
  then show ?thesis using vmap_at_returns(1) assms(2) by blast
next
  case (step_vmap b p n attrs v)
  then have "foldM (\<lambda>offset s. bnd (usize_add b v offset) (\<lambda>v. bnd (usize_add b p offset) (\<lambda>p. vmap_at b root v p attrs s)))
      (page_offsets n) s = Inr s'"
    by (auto simp: vmap_def returns_iff)
  then show ?thesis
    by (rule foldM_invariant [where P = "\<lambda>s. as_ok s root"]) (use assms(2) vmap_at_returns(1) in \<open>auto simp: returns_iff\<close>)
next
  case (step_vunmap b v n)
  then show ?thesis
    unfolding vunmap_def
    by (rule foldM_invariant [where P = "\<lambda>s. as_ok s root"]) (use assms(2) vunmap_single_returns(1) in \<open>auto simp: returns_iff\<close>)
next
  case (step_fill v p e)
  then show ?thesis
    using translate_as [OF assms(2), of v] assms(2) by (auto simp: as_ok_def pt_ok_def split: if_splits)
next
  case (step_evict v)
  then show ?thesis using assms(2) by (auto simp: as_ok_def pt_ok_def split: if_splits)
qed

text \<open>
  Whatever sequence of mappings, unmappings, cached and dropped translations an address space
  goes through, it stays sound: its tables are well formed, its entries valid, and a translation the
  hardware has cached is the one the tables give now, so that no stale translation is ever used.
\<close>

theorem address_space_stays_sound:
  assumes "(as_step root)\<^sup>*\<^sup>* s s'" "as_ok s root"
  shows "as_ok s' root \<and> (\<forall>v < 2 ^ 39. \<forall>e. tlb s' v = Some e \<longrightarrow> (\<exists>p. translate (mem s') root v = Some (p, e)))"
proof -
  have "as_ok s' root" using assms by (induction rule: rtranclp_induct) (auto intro: as_step_ok)
  moreover from this have "\<exists>p. translate (mem s') root v = Some (p, e)" if "v < 2 ^ 39" "tlb s' v = Some e" for v e
    using that translate_as [OF \<open>as_ok s' root\<close> that(1)] by (auto simp: as_ok_def)
  ultimately show ?thesis by blast
qed

theorem address_space_stays_sound_witness:
  "\<exists>s. (as_step empty_root)\<^sup>*\<^sup>* empty_space s \<and> s \<noteq> empty_space \<and> as_ok s empty_root"
proof -
  have hole: "0x50000000 mod 2 ^ 30 + 0x2000 \<le> (2 :: nat) ^ 30" by simp
  obtain s where s: "vmap Dev empty_root 0x40000000 0x2000 PT_RW_EL0 empty_space = Inr (0x50000000, s)"
    and r: "\<forall>u < 2 ^ 39. 0x50000000 \<le> u \<and> u < 0x50002000 \<longrightarrow> leaf (mem s) empty_root u \<noteq> 0"
    using vmap_ok(4) [OF empty_space_ok _ _ empty_space_hole hole, of "0x40000000" Dev PT_RW_EL0] empty_space_free
    by (auto simp: remaps_def)
  have "(as_step empty_root)\<^sup>*\<^sup>* empty_space s" using step_vmap [OF s] by blast
  moreover have "leaf (mem empty_space) empty_root 0x50000000 = 0"
    by (simp add: leaf_def va_path_def empty_space_def read_zero)
  with r have "s \<noteq> empty_space" by auto
  ultimately show ?thesis using address_space_stays_sound [OF _ empty_space_ok] by blast
qed

end
