(* ===== verification/Boot.thy ===== *)
theory Boot
  imports Page_Map Console
begin

text \<open>
  The boot page tables of \<open>src/kernel/src/aarch64/mmu.rs\<close> (\<open>make_page_table_l0\<close>,
  \<open>make_page_table_l1\<close>, \<open>init\<close>) and the move to high addresses (\<open>eject_lowmem\<close>, \<open>himem_func\<close> of
  \<open>src/kernel/src/main.rs\<close>).

  The tables are static variables; where they lie is a parameter. \<open>init\<close> runs with the MMU off,
  where a reference is a physical address, and memory is indexed by the kernel's window, so the
  byte at physical address \<open>p\<close> is the one at \<open>virt p\<close>. The encodings of system register fields come
  from the crate \<open>aarch64_cpu\<close>: the values written are parameters.
\<close>

section \<open>Registers\<close>

record cpu = kernel +
  mair :: u64
  tcr :: u64
  ttbr1 :: u64
  sctlr :: u64
  vbar :: u64
  sp_el1 :: u64

text \<open>
  The static tables (physical addresses), the vector table, and the register values:
  \<open>mair_val\<close> and \<open>tcr_val\<close> as composed in \<open>init\<close>, \<open>ttbr_val x\<close> for \<open>CnP::SET + BADDR.val(x)\<close>, and
  \<open>sctlr_set\<close> for \<open>modify(M::SET + C::SET + I::SET)\<close>.
\<close>

record boot_env =
  TABLE_L0 :: PhyAddr
  TABLE_L1_MEM :: PhyAddr
  TABLE_L1_DEV :: PhyAddr
  vectors :: u64
  mair_val :: u64
  tcr_val :: u64
  ttbr_val :: "u64 \<Rightarrow> u64"
  sctlr_set :: "u64 \<Rightarrow> u64"

section \<open>The boot tables\<close>

text \<open>A store to entry \<open>idx\<close> of the table at physical address \<open>t\<close>.\<close>

definition phys_entry :: "PhyAddr \<Rightarrow> nat \<Rightarrow> usize" where
  "phys_entry t idx = virt (t + 8 * idx)"

definition make_page_table_l0 :: "boot_env \<Rightarrow> PhyAddr \<Rightarrow> memory \<Rightarrow> memory" where
  "make_page_table_l0 env page_table m =
     (let m = write_u64 m (phys_entry page_table 0) (of_nat (TABLE_L1_MEM env) OR PT_PAGE);
          m = write_u64 m (phys_entry page_table 510) (of_nat (TABLE_L1_MEM env) OR PT_PAGE)
      in write_u64 m (phys_entry page_table 511) (of_nat (TABLE_L1_DEV env) OR PT_PAGE))"

definition l1_entry :: "u64 \<Rightarrow> nat \<Rightarrow> u64" where
  "l1_entry attr i = push_bit 30 (of_nat i) OR PT_BLOCK OR PT_AF OR PT_RW_EL1 OR PT_ISH OR attr"

definition make_page_table_l1 :: "PhyAddr \<Rightarrow> u64 \<Rightarrow> memory \<Rightarrow> memory" where
  "make_page_table_l1 page_table attr m =
     fold (\<lambda>i m. write_u64 m (phys_entry page_table i) (l1_entry attr i)) [0..<512] m"

text \<open>\<open>mmu::init\<close>; the \<open>tlbi vmalle1\<close> drops every cached translation.\<close>

definition mmu_init :: "boot_env \<Rightarrow> 'z cpu_scheme \<Rightarrow> 'z cpu_scheme" where
  "mmu_init env s =
     (let s = s\<lparr>mem := make_page_table_l0 env (TABLE_L0 env) (mem s)\<rparr>;
          s = s\<lparr>mem := make_page_table_l1 (TABLE_L1_MEM env) PT_MEM (mem s)\<rparr>;
          s = s\<lparr>mem := make_page_table_l1 (TABLE_L1_DEV env) PT_DEV (mem s)\<rparr>;
          s = s\<lparr>mair := mair_val env\<rparr>;
          s = s\<lparr>tcr := tcr_val env\<rparr>;
          table_l0_ptr = of_nat (TABLE_L0 env) :: u64;
          s = s\<lparr>ttbr0 := ttbr_val env (drop_bit 1 table_l0_ptr)\<rparr>;
          s = s\<lparr>ttbr1 := ttbr_val env (drop_bit 1 table_l0_ptr)\<rparr>;
          s = s\<lparr>tlb := (\<lambda>_. None)\<rparr>;
          s = s\<lparr>sctlr := sctlr_set env (sctlr s)\<rparr>
      in s\<lparr>sctlr := sctlr s AND NOT (push_bit 57 1 OR push_bit 23 1)\<rparr>)"

text \<open>\<open>mmu::eject_lowmem\<close>, from here on with high addresses only.\<close>

definition eject_lowmem :: "boot_env \<Rightarrow> 'z cpu_scheme \<Rightarrow> 'z cpu_scheme" where
  "eject_lowmem env s =
     (let s = s\<lparr>vbar := vectors env\<rparr>;
          s = s\<lparr>sp_el1 := sp_el1 s OR 0xffffff0000000000\<rparr>;
          s = console_eject_lowmem s;
          s = s\<lparr>ttbr0 := 0\<rparr>
      in tlb_flush s)"

definition himem_func :: "usize \<Rightarrow> usize" where
  "himem_func f = virt f"

section \<open>Contents of the boot tables\<close>

text \<open>What \<open>init\<close> relies on: the static tables are distinct pages below 512 GiB.\<close>

definition env_ok :: "boot_env \<Rightarrow> bool" where
  "env_ok env \<longleftrightarrow> TABLE_L0 env mod 4096 = 0 \<and> TABLE_L1_MEM env mod 4096 = 0 \<and> TABLE_L1_DEV env mod 4096 = 0 \<and>
     TABLE_L0 env < 2 ^ 39 \<and> TABLE_L1_MEM env < 2 ^ 39 \<and> TABLE_L1_DEV env < 2 ^ 39 \<and>
     distinct [TABLE_L0 env, TABLE_L1_MEM env, TABLE_L1_DEV env]"

lemma phys_entry_add:
  assumes "t < 2 ^ 39" "i < 512"
  shows "phys_entry t i = t + 0xffffff0000000000 + 8 * i"
  using assms virt_add [of "t + 8 * i"] by (simp add: phys_entry_def)

lemma l1_read:
  assumes t: "t < 2 ^ 39" and n: "n \<le> 512" and i: "i < 512"
  shows "read_u64 (fold (\<lambda>i m. write_u64 m (phys_entry t i) (l1_entry attr i)) [0..<n] m) (phys_entry t i) =
    (if i < n then l1_entry attr i else read_u64 m (phys_entry t i))"
  using n
proof (induction n)
  case (Suc n)
  have "i \<noteq> n \<Longrightarrow> phys_entry t i + 8 \<le> phys_entry t n \<or> phys_entry t n + 8 \<le> phys_entry t i"
    using Suc.prems i by (simp add: phys_entry_add [OF t]) linarith
  with Suc show ?case by (cases "i = n") (auto simp: read_write_same read_write_other)
qed simp

lemma l1_other:
  assumes t: "t < 2 ^ 39" "t mod 4096 = 0" and u: "u < 2 ^ 39" "u mod 4096 = 0" "u \<noteq> t" and n: "n \<le> 512" and i: "i < 512"
  shows "read_u64 (fold (\<lambda>i m. write_u64 m (phys_entry t i) (l1_entry attr i)) [0..<n] m) (phys_entry u i) =
    read_u64 m (phys_entry u i)"
  using n
proof (induction n)
  case (Suc n)
  have "phys_entry u i + 8 \<le> phys_entry t n \<or> phys_entry t n + 8 \<le> phys_entry u i"
    using Suc.prems i pages_apart [OF u(2) t(2) u(3)] by (simp add: phys_entry_add [OF t(1)] phys_entry_add [OF u(1)]) linarith
  with Suc show ?case by (auto simp: read_write_other)
qed simp

lemma boot_tables:
  fixes s :: "'z cpu_scheme"
  assumes env: "env_ok env" and i: "i < 512"
  defines "m \<equiv> mem (mmu_init env s)"
  shows "read_u64 m (phys_entry (TABLE_L0 env) 0) = of_nat (TABLE_L1_MEM env) OR PT_PAGE"
    and "read_u64 m (phys_entry (TABLE_L0 env) 510) = of_nat (TABLE_L1_MEM env) OR PT_PAGE"
    and "read_u64 m (phys_entry (TABLE_L0 env) 511) = of_nat (TABLE_L1_DEV env) OR PT_PAGE"
    and "read_u64 m (phys_entry (TABLE_L1_MEM env) i) = l1_entry PT_MEM i"
    and "read_u64 m (phys_entry (TABLE_L1_DEV env) i) = l1_entry PT_DEV i"
proof -
  from env have t: "TABLE_L0 env < 2 ^ 39" "TABLE_L1_MEM env < 2 ^ 39" "TABLE_L1_DEV env < 2 ^ 39"
    "TABLE_L0 env mod 4096 = 0" "TABLE_L1_MEM env mod 4096 = 0" "TABLE_L1_DEV env mod 4096 = 0"
    "TABLE_L0 env \<noteq> TABLE_L1_MEM env" "TABLE_L0 env \<noteq> TABLE_L1_DEV env" "TABLE_L1_MEM env \<noteq> TABLE_L1_DEV env"
    by (simp_all add: env_ok_def)
  have m: "m = make_page_table_l1 (TABLE_L1_DEV env) PT_DEV (make_page_table_l1 (TABLE_L1_MEM env) PT_MEM
      (make_page_table_l0 env (TABLE_L0 env) (mem s)))"
    by (simp add: m_def mmu_init_def Let_def)
  note l1 = l1_read [OF t(2) order.refl, folded make_page_table_l1_def] l1_read [OF t(3) order.refl, folded make_page_table_l1_def]
    l1_other [OF t(3,6,2,5) t(9) order.refl, folded make_page_table_l1_def]
    l1_other [OF t(3,6,1,4) t(8) order.refl, folded make_page_table_l1_def]
    l1_other [OF t(2,5,1,4) t(7) order.refl, folded make_page_table_l1_def]
  show "read_u64 m (phys_entry (TABLE_L1_MEM env) i) = l1_entry PT_MEM i"
    "read_u64 m (phys_entry (TABLE_L1_DEV env) i) = l1_entry PT_DEV i"
    using i by (simp_all add: m l1)
  have l0: "read_u64 m (phys_entry (TABLE_L0 env) j) = read_u64 (make_page_table_l0 env (TABLE_L0 env) (mem s)) (phys_entry (TABLE_L0 env) j)"
    if "j < 512" for j using that by (simp add: m l1)
  show "read_u64 m (phys_entry (TABLE_L0 env) 0) = of_nat (TABLE_L1_MEM env) OR PT_PAGE"
    "read_u64 m (phys_entry (TABLE_L0 env) 510) = of_nat (TABLE_L1_MEM env) OR PT_PAGE"
    "read_u64 m (phys_entry (TABLE_L0 env) 511) = of_nat (TABLE_L1_DEV env) OR PT_PAGE"
    by (subst l0, simp, simp add: make_page_table_l0_def Let_def phys_entry_add [OF t(1)] read_write_same read_write_other)+
qed

lemma l1_entry_block:
  assumes "i < 512" "attr = PT_MEM \<or> attr = PT_DEV"
  shows "out_addr (l1_entry attr i) = i * 2 ^ 30" "bit (l1_entry attr i) 0" "\<not> bit (l1_entry attr i) 1"
    "\<not> bit (l1_entry attr i) 6" "bit (l1_entry attr i) 2 \<longleftrightarrow> attr = PT_DEV"
proof -
  define low where "low = PT_BLOCK OR PT_AF OR PT_RW_EL1 OR PT_ISH OR attr"
  have low: "low = 0x701 \<and> attr = PT_MEM \<or> low = 0x705 \<and> attr = PT_DEV"
    using assms(2) by (auto simp: low_def PT_BLOCK_def PT_AF_def PT_RW_EL1_def PT_ISH_def PT_MEM_def PT_DEV_def)
  have e: "l1_entry attr i = of_nat (i * 2 ^ 30) OR low"
    by (simp add: l1_entry_def low_def or.assoc push_bit_eq_mult mult.commute)
  have "(i * 2 ^ 30) mod 4096 = 0" "i * 2 ^ 30 < 2 ^ 48" using assms(1) by (simp_all add: mod_eq_0_iff_dvd)
  with low show "out_addr (l1_entry attr i) = i * 2 ^ 30" unfolding e by (intro out_addr_flags) auto
  have "bit (l1_entry attr i) k \<longleftrightarrow> bit low k" if "k < 30" for k
    using that by (simp add: l1_entry_def low_def bit_or_iff bit_push_bit_iff)
  with low show "bit (l1_entry attr i) 0" "\<not> bit (l1_entry attr i) 1" "\<not> bit (l1_entry attr i) 6"
    "bit (l1_entry attr i) 2 \<longleftrightarrow> attr = PT_DEV"
    by (auto simp: PT_MEM_def PT_DEV_def bit_numeral_rec)
qed

lemma table_entry:
  assumes "t mod 4096 = 0" "t < 2 ^ 39"
  shows "bit (of_nat t OR PT_PAGE) 0" "bit (of_nat t OR PT_PAGE :: u64) 1" "out_addr (of_nat t OR PT_PAGE) = t"
  using assms by (simp_all add: PT_PAGE_def bit_or_iff out_addr_flags)

text \<open>A walk through one of the boot tables ends at the block that maps its gigabyte.\<close>

lemma boot_walk:
  assumes root: "read_u64 m (phys_entry l0 ((v div 2 ^ 39) mod 512)) = of_nat t OR PT_PAGE" and t: "t mod 4096 = 0" "t < 2 ^ 39"
    and l1: "\<forall>i < 512. read_u64 m (phys_entry t i) = l1_entry attr i" and attr: "attr = PT_MEM \<or> attr = PT_DEV"
  shows "hw_walk m [39, 30, 21, 12] l0 v = Some (v mod 2 ^ 39, l1_entry attr ((v div 2 ^ 30) mod 512))"
proof -
  let ?i = "(v div 2 ^ 30) mod 512"
  have i: "?i < 512" by simp
  have "v mod 2 ^ 39 = ?i * 2 ^ 30 + v mod 2 ^ 30"
    using mod_mult2_eq [of v "2 ^ 30" 512] by (simp add: mult.commute)
  then show ?thesis
    using root table_entry [OF t] l1 l1_entry_block [OF i attr]
    by (simp add: hw_walk.simps phys_entry_def Let_def)
qed

lemma window_index:
  fixes p w :: nat
  assumes "p < 2 ^ 39"
  shows "(p + w * 2 ^ 39) div 2 ^ 39 = w" "((p + w * 2 ^ 39) div 2 ^ 30) mod 512 = p div 2 ^ 30" "(p + w * 2 ^ 39) mod 2 ^ 39 = p"
proof -
  have "p + w * 2 ^ 39 = p + (w * 512) * 2 ^ 30" by simp
  then have "(p + w * 2 ^ 39) div 2 ^ 30 = p div 2 ^ 30 + w * 512" by (simp only: div_mult_self3) simp
  moreover have "p div 2 ^ 30 < 512" using assms by (simp add: div_less_iff_less_mult)
  ultimately show "((p + w * 2 ^ 39) div 2 ^ 30) mod 512 = p div 2 ^ 30" by simp
qed (use assms in simp_all)

lemma windows:
  assumes "p < 2 ^ 39"
  shows "virt p = p + 33554430 * 2 ^ 39" "virt_dev p = p + 33554431 * 2 ^ 39" "p = p + 0 * 2 ^ 39"
  using assms by (simp_all add: virt_add virt_dev_add)

section \<open>Properties\<close>

text \<open>A walk from the base in a translation table base register.\<close>

definition mmu_walk :: "'z machine_scheme \<Rightarrow> u64 \<Rightarrow> usize \<Rightarrow> (PhyAddr \<times> u64) option" where
  "mmu_walk s ttbr v = hw_walk (mem s) [39, 30, 21, 12] (out_addr ttbr) v"

text \<open>What the code relies on in the encoding of the table base registers.\<close>

definition ttbr_ok :: "boot_env \<Rightarrow> bool" where
  "ttbr_ok env \<longleftrightarrow> out_addr (ttbr_val env (drop_bit 1 (of_nat (TABLE_L0 env)))) = TABLE_L0 env"

lemma boot_map:
  fixes s :: "'z cpu_scheme"
  assumes env: "env_ok env" "ttbr_ok env" and p: "p < 2 ^ 39"
  defines "s' \<equiv> mmu_init env s"
  shows "mmu_walk s' (ttbr0 s') p = Some (p, l1_entry PT_MEM (p div 2 ^ 30))"
    and "mmu_walk s' (ttbr1 s') (virt p) = Some (p, l1_entry PT_MEM (p div 2 ^ 30))"
    and "mmu_walk s' (ttbr1 s') (virt_dev p) = Some (p, l1_entry PT_DEV (p div 2 ^ 30))"
proof -
  have roots: "out_addr (ttbr0 s') = TABLE_L0 env" "out_addr (ttbr1 s') = TABLE_L0 env"
    using env(2) by (simp_all add: s'_def mmu_init_def Let_def ttbr_ok_def)
  note tab = boot_tables [OF env(1), of _ s, folded s'_def]
  from env(1) have t: "TABLE_L1_MEM env mod 4096 = 0" "TABLE_L1_MEM env < 2 ^ 39"
    "TABLE_L1_DEV env mod 4096 = 0" "TABLE_L1_DEV env < 2 ^ 39" by (simp_all add: env_ok_def)
  have l1: "\<forall>i < 512. read_u64 (mem s') (phys_entry (TABLE_L1_MEM env) i) = l1_entry PT_MEM i"
    "\<forall>i < 512. read_u64 (mem s') (phys_entry (TABLE_L1_DEV env) i) = l1_entry PT_DEV i" using tab(4,5) by blast+
  note idx = window_index [OF p, of 33554430] window_index [OF p, of 33554431]
  show "mmu_walk s' (ttbr0 s') p = Some (p, l1_entry PT_MEM (p div 2 ^ 30))"
    using boot_walk [OF _ t(1,2) l1(1), of "TABLE_L0 env" p] tab(1) [of 0] window_index [OF p, of 0] p by (simp add: mmu_walk_def roots)
  show "mmu_walk s' (ttbr1 s') (virt p) = Some (p, l1_entry PT_MEM (p div 2 ^ 30))"
    using boot_walk [OF _ t(1,2) l1(1), of "TABLE_L0 env" "virt p"] tab(2) [of 0] unfolding mmu_walk_def windows(1) [OF p] roots idx by simp
  show "mmu_walk s' (ttbr1 s') (virt_dev p) = Some (p, l1_entry PT_DEV (p div 2 ^ 30))"
    using boot_walk [OF _ t(3,4) l1(2), of "TABLE_L0 env" "virt_dev p"] tab(3) [of 0] unfolding mmu_walk_def windows(2) [OF p] roots idx by simp
qed


text \<open>Tables at fixed addresses, and registers whose base field is the address as such.\<close>

definition sample_env :: boot_env where
  "sample_env = \<lparr>TABLE_L0 = 0x40300000, TABLE_L1_MEM = 0x40301000, TABLE_L1_DEV = 0x40302000,
     vectors = 0xffffff0040100800, mair_val = 0xff, tcr_val = 0, ttbr_val = (\<lambda>x. push_bit 1 x OR 1),
     sctlr_set = (\<lambda>r. r OR 0x1005)\<rparr>"

definition reset_state :: cpu where
  "reset_state = \<lparr>mem = (\<lambda>_. 0), daif = 0x3c0, uart0_addr = 0x9000000, dev_writes = [], ttbr0 = 0, tlb = (\<lambda>_. Some 5),
     PAGE_ALLOC = page_alloc_new 1 0, mair = 0, tcr = 0, ttbr1 = 0, sctlr = 0, vbar = 0, sp_el1 = 0x40308000\<rparr>"

lemma sample_env_ok: "env_ok sample_env" "ttbr_ok sample_env"
  by (simp_all add: env_ok_def ttbr_ok_def sample_env_def out_addr_def)


text \<open>
  C40: after \<open>mmu::init\<close> and \<open>eject_lowmem\<close> the console stores to the UART through the window of
  normal memory: its address translates to the UART with the attributes of cached memory, where the
  device window would give the attributes of a device. No user address is translated from the
  tables of \<open>init\<close> any longer.
\<close>

theorem console_keeps_memory_window:
  assumes "env_ok env" "ttbr_ok env" "uart0_addr s = 0x9000000"
  shows "let s' = eject_lowmem env (mmu_init env s) in
    uart0_addr s' = virt 0x9000000 \<and> uart0_addr s' \<noteq> virt_dev 0x9000000 \<and>
    (\<exists>e. mmu_walk s' (ttbr1 s') (uart0_addr s') = Some (0x9000000, e) \<and> \<not> bit e 2) \<and>
    (\<exists>d. mmu_walk s' (ttbr1 s') (virt_dev 0x9000000) = Some (0x9000000, d) \<and> bit d 2) \<and>
    ttbr0 s' = 0 \<and> tlb s' = (\<lambda>_. None)"
proof -
  let ?s = "mmu_init env s"
  have p: "0x9000000 < (2 :: nat) ^ 39" "0x9000000 div 2 ^ 30 < (512 :: nat)" by simp_all
  have "uart0_addr (eject_lowmem env ?s) = virt 0x9000000"
    using assms(3) by (simp add: eject_lowmem_def mmu_init_def console_eject_lowmem_def tlb_flush_def Let_def virt_def)
  moreover have "mmu_walk (eject_lowmem env ?s) (ttbr1 (eject_lowmem env ?s)) v = mmu_walk ?s (ttbr1 ?s) v"
    "ttbr0 (eject_lowmem env ?s) = 0" "tlb (eject_lowmem env ?s) = (\<lambda>_. None)" for v
    by (simp_all add: eject_lowmem_def console_eject_lowmem_def tlb_flush_def Let_def mmu_walk_def)
  moreover have "virt 0x9000000 \<noteq> virt_dev 0x9000000" by (simp add: virt_def virt_dev_def)
  moreover have "PT_MEM \<noteq> PT_DEV" by (simp add: PT_MEM_def PT_DEV_def)
  ultimately show ?thesis
    using boot_map(2,3) [OF assms(1,2) p(1), of s] l1_entry_block(5) [OF p(2), of PT_MEM] l1_entry_block(5) [OF p(2), of PT_DEV]
    unfolding Let_def by simp
qed

theorem console_keeps_memory_window_witness:
  "let s' = eject_lowmem sample_env (mmu_init sample_env reset_state) in
    uart0_addr s' = 0xffffff0009000000 \<and> (\<exists>e. mmu_walk s' (ttbr1 s') (uart0_addr s') = Some (0x9000000, e) \<and> \<not> bit e 2)"
proof -
  have "uart0_addr reset_state = 0x9000000" by (simp add: reset_state_def)
  moreover have "virt 0x9000000 = 0xffffff0009000000" by (simp add: virt_def)
  ultimately show ?thesis using console_keeps_memory_window [OF sample_env_ok, of reset_state] unfolding Let_def by auto
qed

end
