(* ===== verification/Gic.thy ===== *)
theory Gic
  imports Boot
begin

text \<open>
  The driver of the interrupt controller and of the timer, \<open>src/kernel/src/drv/arm_gic.rs\<close>.

  What a register of the controller reads is a function of all accesses made before; the counter
  frequency and the value of the counter at each of its reads are given by the hardware. All three
  are parameters.
\<close>

section \<open>Definitions\<close>

record soc = cpu +
  GICD_BASE :: usize
  GICC_BASE :: usize
  cntkctl :: u64
  cntp_tval :: u64
  cntp_ctl :: u64
  time_reads :: nat \<comment> \<open>reads of the system counter so far\<close>

record hw =
  dev_read :: "dev_access list \<Rightarrow> usize \<Rightarrow> u32"
  cntfrq :: u64
  cntpct :: "nat \<Rightarrow> u64"

definition GICD_CTLR :: usize where "GICD_CTLR = 0x000"
definition GICD_ISENABLER0 :: usize where "GICD_ISENABLER0 = 0x100"
definition GICD_IPRIORITYR0 :: usize where "GICD_IPRIORITYR0 = 0x400"
definition GICC_CTLR :: usize where "GICC_CTLR = 0x000"
definition GICC_PMR :: usize where "GICC_PMR = 0x004"
definition GICC_IAR :: usize where "GICC_IAR = 0x00C"
definition GICC_EOIR :: usize where "GICC_EOIR = 0x010"

definition mmio_write :: "profile \<Rightarrow> usize \<Rightarrow> usize \<Rightarrow> u32 \<Rightarrow> 'z machine_scheme \<Rightarrow> 'z machine_scheme res" where
  "mmio_write b base_addr offset val s =
     bnd (usize_add b base_addr offset) (\<lambda>a.
     Inr (s\<lparr>dev_writes := dev_writes s @ [W32 (virt_dev_mut a) val]\<rparr>))"

definition mmio_read :: "hw \<Rightarrow> profile \<Rightarrow> usize \<Rightarrow> usize \<Rightarrow> 'z machine_scheme \<Rightarrow> (u32 \<times> 'z machine_scheme) res" where
  "mmio_read h b base_addr offset s =
     bnd (usize_add b base_addr offset) (\<lambda>a.
     Inr (dev_read h (dev_writes s) (virt_dev a), s\<lparr>dev_writes := dev_writes s @ [R32 (virt_dev a)]\<rparr>))"

definition init_gic :: "hw \<Rightarrow> profile \<Rightarrow> usize \<Rightarrow> usize \<Rightarrow> u32 \<Rightarrow> 'z soc_scheme \<Rightarrow> 'z soc_scheme res" where
  "init_gic h b gicd_base gicc_base timer_ppi_interrupt s =
     (let s = s\<lparr>GICD_BASE := gicd_base\<rparr>;
          s = s\<lparr>GICC_BASE := gicc_base\<rparr>;
          s = console_println ''  drv: Initializing ARM GIC'' s in
      bnd (mmio_write b gicd_base GICD_CTLR 0 s) (\<lambda>s.
      let reg_idx = unat timer_ppi_interrupt div 32;
          interrupt_enable_reg = GICD_ISENABLER0 + reg_idx * 4;
          interrupt_enable_shift = unat timer_ppi_interrupt mod 32 in
      bnd (mmio_read h b gicd_base interrupt_enable_reg s) (\<lambda>(enable_bits, s).
      bnd (mmio_write b gicd_base interrupt_enable_reg (enable_bits OR push_bit interrupt_enable_shift 1) s) (\<lambda>s.
      let reg_idx = unat timer_ppi_interrupt div 4;
          interrupt_priority_reg = GICD_IPRIORITYR0 + reg_idx * 4;
          interrupt_priority_shift = (unat timer_ppi_interrupt mod 4) * 8 in
      bnd (mmio_read h b gicd_base interrupt_priority_reg s) (\<lambda>(priority, s).
      let priority = priority AND NOT (push_bit interrupt_priority_shift 0xFF);
          priority = priority OR push_bit interrupt_priority_shift 0xA0 in
      bnd (mmio_write b gicd_base interrupt_priority_reg priority s) (\<lambda>s.
      bnd (mmio_write b gicd_base GICD_CTLR 1 s) (\<lambda>s.
      let s = s\<lparr>cntkctl := 1\<rparr> in
      bnd (mmio_write b gicc_base GICC_PMR 0xF0 s) (\<lambda>s.
      mmio_write b gicc_base GICC_CTLR 1 s))))))))"

definition timer_set_timeout :: "hw \<Rightarrow> profile \<Rightarrow> u64 \<Rightarrow> 'z soc_scheme \<Rightarrow> 'z soc_scheme res" where
  "timer_set_timeout h b ms s =
     bnd (assert (GICC_BASE s \<noteq> 0) ''GIC must be initialized before sleeping'') (\<lambda>_.
     let freq = cntfrq h in
     bnd (u64_mul b (freq div 1000) ms) (\<lambda>v.
     Inr (s\<lparr>cntp_tval := v, cntp_ctl := 1\<rparr>)))"

definition timer_clear :: "'z soc_scheme \<Rightarrow> 'z soc_scheme" where
  "timer_clear s = s\<lparr>cntp_ctl := 3\<rparr>"

definition timer_get_absolute_time_ms :: "hw \<Rightarrow> profile \<Rightarrow> 'z soc_scheme \<Rightarrow> (u64 \<times> 'z soc_scheme) res" where
  "timer_get_absolute_time_ms h b s =
     (let freq = cntfrq h;
          ticks = cntpct h (time_reads s);
          s = s\<lparr>time_reads := Suc (time_reads s)\<rparr> in
      bnd (u64_mul b ticks 1000) (\<lambda>t.
      if freq = 0 then Inl DivisionByZero else Inr (t div freq, s)))"

definition handle_irq :: "hw \<Rightarrow> profile \<Rightarrow> 'z soc_scheme \<Rightarrow> 'z soc_scheme res" where
  "handle_irq h b s =
     (let gicc_base = GICC_BASE s in
      bnd (mmio_read h b gicc_base GICC_IAR s) (\<lambda>(iar, s).
      let interrupt_id = iar AND 0x3FF in
      if interrupt_id = 30 then
        let s = console_println ''  irq: Timer Ticked!'' s;
            s = timer_clear s in
        mmio_write b gicc_base GICC_EOIR iar s
      else if interrupt_id = 1023 then Inr s
      else
        let s = console_println (''Unhandled interrupt ID: '' @ radix 10 (unat interrupt_id)) s in
        mmio_write b gicc_base GICC_EOIR iar s))"

section \<open>Lemmas\<close>

lemma mmio_write_ok:
  "base_addr + offset < 2 ^ 64 \<Longrightarrow>
     mmio_write b base_addr offset val s = Inr (s\<lparr>dev_writes := dev_writes s @ [W32 (virt_dev (base_addr + offset)) val]\<rparr>)"
  by (simp add: mmio_write_def usize_simps)

lemma mmio_read_ok:
  "base_addr + offset < 2 ^ 64 \<Longrightarrow>
     mmio_read h b base_addr offset s = Inr (dev_read h (dev_writes s) (virt_dev (base_addr + offset)),
       s\<lparr>dev_writes := dev_writes s @ [R32 (virt_dev (base_addr + offset))]\<rparr>)"
  by (simp add: mmio_read_def usize_simps)

lemma byte_field:
  fixes p a :: u32
  assumes "k < 4" and a: "take_bit 8 a = a"
  shows "drop_bit (8 * k) (p AND NOT (push_bit (8 * k) (mask 8)) OR push_bit (8 * k) a) AND mask 8 = a"
    and "n < 8 * k \<or> 8 * k + 8 \<le> n \<Longrightarrow>
      bit (p AND NOT (push_bit (8 * k) (mask 8)) OR push_bit (8 * k) a) n = bit p n"
proof -
  have low: "bit a i \<Longrightarrow> i < 8" for i using a by (metis bit_take_bit_iff)
  have low': "bit a i \<Longrightarrow> 8 * k + i < 32" for i using low [of i] assms(1) by auto
  show "drop_bit (8 * k) (p AND NOT (push_bit (8 * k) (mask 8)) OR push_bit (8 * k) a) AND mask 8 = a"
    by (intro bit_word_eqI)
      (auto simp: bit_and_iff bit_or_iff bit_not_iff bit_push_bit_iff bit_drop_bit_eq bit_mask_iff dest: low low')
  show "bit (p AND NOT (push_bit (8 * k) (mask 8)) OR push_bit (8 * k) a) n = bit p n" if "n < 8 * k \<or> 8 * k + 8 \<le> n"
    using that by (auto simp: bit_and_iff bit_or_iff bit_not_iff bit_push_bit_iff bit_mask_iff dest: bit_imp_le_length low)
qed

lemma priority_field:
  fixes p :: u32
  assumes "k < 4"
  shows "drop_bit (8 * k) (p AND NOT (push_bit (8 * k) 0xFF) OR push_bit (8 * k) 0xA0) AND 0xFF = 0xA0"
    and "n < 8 * k \<or> 8 * k + 8 \<le> n \<Longrightarrow>
      bit (p AND NOT (push_bit (8 * k) 0xFF) OR push_bit (8 * k) 0xA0) n = bit p n"
proof -
  have ff: "(0xFF :: u32) = mask 8" and a0: "take_bit 8 (0xA0 :: u32) = 0xA0" by (simp_all add: mask_numeral)
  show "drop_bit (8 * k) (p AND NOT (push_bit (8 * k) 0xFF) OR push_bit (8 * k) 0xA0) AND 0xFF = 0xA0"
    "n < 8 * k \<or> 8 * k + 8 \<le> n \<Longrightarrow> bit (p AND NOT (push_bit (8 * k) 0xFF) OR push_bit (8 * k) 0xA0) n = bit p n"
    unfolding ff by (rule byte_field [OF assms a0], assumption?)+
qed

lemma println_soc: "console_println str s = s\<lparr>dev_writes := dev_writes s @ map (W8 (uart0_addr s)) (as_bytes (str @ [CHR 0x0A]))\<rparr>"
  by (simp add: console_println_def print_writes)

text \<open>Apart from the log and the accesses to the controller, an interrupt at most masks the timer.\<close>

lemma handle_irq_frame:
  assumes "GICC_BASE s + 0x10 < 2 ^ 64"
  shows "\<exists>dw ctl. handle_irq h b s = Inr (s\<lparr>cntp_ctl := ctl, dev_writes := dw\<rparr>)"
proof -
  have r: "GICC_BASE s + GICC_IAR < 2 ^ 64" "GICC_BASE s + GICC_EOIR < 2 ^ 64"
    using assms by (simp_all add: GICC_IAR_def GICC_EOIR_def)
  have same: "s\<lparr>dev_writes := dw\<rparr> = s\<lparr>cntp_ctl := cntp_ctl s, dev_writes := dw\<rparr>" for dw by simp
  show ?thesis
    unfolding handle_irq_def Let_def mmio_read_ok [OF r(1)] using r(2)
    by (simp add: println_soc timer_clear_def mmio_write_ok) (metis same)
qed

section \<open>Properties\<close>

text \<open>
  C27: \<open>init_gic\<close> programs the controller by exactly these accesses, in this order, all in the device
  window: the distributor is off while the timer interrupt is enabled and given priority \<open>0xA0\<close>, and
  then on; last the CPU interface. In the two registers it updates it keeps every other bit it read.
\<close>

theorem init_gic_programs_timer:
  assumes "gicd + 0x500 + unat ppi < 2 ^ 64" "gicc + 0x10 < 2 ^ 64"
  shows "\<exists>s' w0 en en' pr pr'. init_gic h b gicd gicc ppi s = Inr s' \<and>
    dev_writes s' = dev_writes s @ map (W8 (uart0_addr s)) w0 @
      [W32 (virt_dev gicd) 0,
       R32 (virt_dev (gicd + (0x100 + unat ppi div 32 * 4))), W32 (virt_dev (gicd + (0x100 + unat ppi div 32 * 4))) en',
       R32 (virt_dev (gicd + (0x400 + unat ppi div 4 * 4))), W32 (virt_dev (gicd + (0x400 + unat ppi div 4 * 4))) pr',
       W32 (virt_dev gicd) 1, W32 (virt_dev (gicc + 4)) 0xF0, W32 (virt_dev gicc) 1] \<and>
    (\<exists>t. en = dev_read h t (virt_dev (gicd + (0x100 + unat ppi div 32 * 4)))) \<and>
    (\<exists>t. pr = dev_read h t (virt_dev (gicd + (0x400 + unat ppi div 4 * 4)))) \<and>
    (\<forall>n < 32. bit en' n \<longleftrightarrow> n = unat ppi mod 32 \<or> bit en n) \<and>
    drop_bit (8 * (unat ppi mod 4)) pr' AND 0xFF = 0xA0 \<and>
    (\<forall>n. n < 8 * (unat ppi mod 4) \<or> 8 * (unat ppi mod 4) + 8 \<le> n \<longrightarrow> bit pr' n = bit pr n) \<and>
    GICD_BASE s' = gicd \<and> GICC_BASE s' = gicc \<and> cntkctl s' = 1"
proof -
  let ?er = "gicd + (0x100 + unat ppi div 32 * 4)" and ?pr = "gicd + (0x400 + unat ppi div 4 * 4)"
  have le: "unat ppi div 32 * 4 \<le> unat ppi" "unat ppi div 4 * 4 \<le> unat ppi"
    using div_times_less_eq_dividend [of "unat ppi" 32] by simp_all
  then have r: "gicd + 0 < 2 ^ 64" "?er < 2 ^ 64" "?pr < 2 ^ 64" "gicc + 4 < 2 ^ 64" "gicc + 0 < 2 ^ 64"
    using assms by linarith+
  define s1 where "s1 = console_println ''  drv: Initializing ARM GIC'' (s\<lparr>GICD_BASE := gicd, GICC_BASE := gicc\<rparr>)"
  define t1 where "t1 = dev_writes s1 @ [W32 (virt_dev gicd) 0]"
  define en where "en = dev_read h t1 (virt_dev ?er)"
  define en' where "en' = en OR push_bit (unat ppi mod 32) 1"
  define t2 where "t2 = t1 @ [R32 (virt_dev ?er), W32 (virt_dev ?er) en']"
  define pr where "pr = dev_read h t2 (virt_dev ?pr)"
  define pr' where "pr' = pr AND NOT (push_bit (8 * (unat ppi mod 4)) 0xFF) OR push_bit (8 * (unat ppi mod 4)) 0xA0"
  define s' where "s' = s1\<lparr>dev_writes := t2 @ [R32 (virt_dev ?pr), W32 (virt_dev ?pr) pr', W32 (virt_dev gicd) 1,
      W32 (virt_dev (gicc + 4)) 0xF0, W32 (virt_dev gicc) 1], cntkctl := 1\<rparr>"
  let ?log = "as_bytes (''  drv: Initializing ARM GIC'' @ [CHR 0x0A])"
  have run: "init_gic h b gicd gicc ppi s = Inr s'"
    using r unfolding init_gic_def
    by (simp add: Let_def mmio_write_ok mmio_read_ok GICD_CTLR_def GICD_ISENABLER0_def GICD_IPRIORITYR0_def GICC_CTLR_def
        GICC_PMR_def s'_def pr'_def pr_def t2_def en'_def en_def t1_def s1_def println_soc mult.commute)
  have enable: "\<forall>n < 32. bit en' n \<longleftrightarrow> n = unat ppi mod 32 \<or> bit en n"
    by (auto simp: en'_def bit_or_iff bit_exp_iff)
  have "unat ppi mod 4 < 4" by simp
  note prio = priority_field [OF this, where p = pr, folded pr'_def]
  have acc: "dev_writes s' = dev_writes s @ map (W8 (uart0_addr s)) ?log @
      [W32 (virt_dev gicd) 0, R32 (virt_dev ?er), W32 (virt_dev ?er) en', R32 (virt_dev ?pr), W32 (virt_dev ?pr) pr',
       W32 (virt_dev gicd) 1, W32 (virt_dev (gicc + 4)) 0xF0, W32 (virt_dev gicc) 1]"
    and base_regs: "GICD_BASE s' = gicd" "GICC_BASE s' = gicc" "cntkctl s' = 1"
    by (simp_all add: s'_def t2_def t1_def s1_def println_soc)
  have reads: "\<exists>t. en = dev_read h t (virt_dev ?er)" "\<exists>t. pr = dev_read h t (virt_dev ?pr)"
    unfolding en_def pr_def by blast+
  show ?thesis
    by (rule exI [of _ s'], rule exI [of _ ?log], rule exI [of _ en], rule exI [of _ en'], rule exI [of _ pr], rule exI [of _ pr'])
      (intro conjI run acc reads enable prio(1) base_regs allI impI prio(2))
qed

text \<open>A board whose controller reads \<open>iar\<close> in every register.\<close>

definition sample_hw :: "u32 \<Rightarrow> hw" where
  "sample_hw iar = \<lparr>dev_read = (\<lambda>_ _. iar), cntfrq = 62500000, cntpct = (\<lambda>k. of_nat (62500000 * min k 100))\<rparr>"

definition sample_soc :: soc where
  "sample_soc = \<lparr>mem = (\<lambda>_. 0), daif = 0, uart0_addr = 0xffffff0009000000, dev_writes = [], ttbr0 = 0, tlb = (\<lambda>_. None),
     PAGE_ALLOC = page_alloc_new 1 0, mair = 0, tcr = 0, ttbr1 = 0, sctlr = 0, vbar = 0, sp_el1 = 0,
     GICD_BASE = 0x8000000, GICC_BASE = 0x8010000, cntkctl = 0, cntp_tval = 0, cntp_ctl = 1, time_reads = 0\<rparr>"

lemma dev_read_sample: "dev_read (sample_hw iar) t a = iar"
  by (simp add: sample_hw_def)

theorem init_gic_programs_timer_witness:
  "\<exists>s' pr'. init_gic (sample_hw 0) Dev 0x8000000 0x8010000 30 sample_soc = Inr s' \<and>
    drop_bit 16 (pr' :: u32) AND 0xFF = 0xA0 \<and> GICC_BASE s' = 0x8010000 \<and>
    W32 (virt_dev 0x8000100) 0x40000000 \<in> set (dev_writes s') \<and> W32 (virt_dev 0x800041c) pr' \<in> set (dev_writes s')"
proof -
  have "(0x8000000 :: nat) + 0x500 + unat (30 :: u32) < 2 ^ 64" "(0x8010000 :: nat) + 0x10 < 2 ^ 64" by simp_all
  from init_gic_programs_timer [OF this, of "sample_hw 0" Dev sample_soc] obtain s' w0 and en' pr' :: u32 where
    ok: "init_gic (sample_hw 0) Dev 0x8000000 0x8010000 30 sample_soc = Inr s'" "GICC_BASE s' = 0x8010000"
    and acc: "dev_writes s' = dev_writes sample_soc @ map (W8 (uart0_addr sample_soc)) w0 @
      [W32 (virt_dev 0x8000000) 0, R32 (virt_dev 0x8000100), W32 (virt_dev 0x8000100) en', R32 (virt_dev 0x800041c),
       W32 (virt_dev 0x800041c) pr', W32 (virt_dev 0x8000000) 1, W32 (virt_dev 0x8010004) 0xF0, W32 (virt_dev 0x8010000) 1]"
    and en: "\<forall>n < 32. bit en' n \<longleftrightarrow> n = 30" and pr: "drop_bit 16 pr' AND 0xFF = 0xA0"
    by (auto simp: dev_read_sample)
  have "en' = push_bit 30 1"
  proof (rule bit_word_eqI)
    fix n assume "n < LENGTH(32)"
    then show "bit en' n = bit (push_bit 30 1 :: u32) n" using en by (auto simp only: bit_push_bit_iff bit_1_iff) auto
  qed
  then have "en' = 0x40000000" by simp
  with ok pr show ?thesis by (intro exI [of _ s'] exI [of _ pr'] conjI) (simp_all add: acc)
qed

text \<open>
  C28: \<open>handle_irq\<close> acknowledges one interrupt and, unless the controller reports a spurious one,
  signals its end with the very value it acknowledged, after everything else. The timer interrupt,
  and no other, masks the timer. Apart from the log it touches no other register.
\<close>

theorem irq_acknowledged_and_completed:
  assumes "GICC_BASE s + 0x10 < 2 ^ 64"
  shows "let iar = dev_read h (dev_writes s) (virt_dev (GICC_BASE s + 0xC)); irq = iar AND 0x3FF in
    \<exists>s' log. handle_irq h b s = Inr s' \<and>
      dev_writes s' = dev_writes s @ [R32 (virt_dev (GICC_BASE s + 0xC))] @ map (W8 (uart0_addr s)) log @
        (if irq = 1023 then [] else [W32 (virt_dev (GICC_BASE s + 0x10)) iar]) \<and>
      cntp_ctl s' = (if irq = 30 then 3 else cntp_ctl s) \<and>
      s'\<lparr>dev_writes := dev_writes s, cntp_ctl := cntp_ctl s\<rparr> = s"
proof -
  have r: "GICC_BASE s + GICC_IAR < 2 ^ 64" "GICC_BASE s + GICC_EOIR < 2 ^ 64"
    using assms by (simp_all add: GICC_IAR_def GICC_EOIR_def)
  define iar where "iar = dev_read h (dev_writes s) (virt_dev (GICC_BASE s + 0xC))"
  define t1 where "t1 = dev_writes s @ [R32 (virt_dev (GICC_BASE s + 0xC))]"
  have read: "mmio_read h b (GICC_BASE s) GICC_IAR s = Inr (iar, s\<lparr>dev_writes := t1\<rparr>)"
    using r(1) by (simp add: mmio_read_ok iar_def t1_def GICC_IAR_def)
  consider (timer) "iar AND 0x3FF = 30" | (spurious) "iar AND 0x3FF = 1023"
    | (other) "iar AND 0x3FF \<noteq> 30" "iar AND 0x3FF \<noteq> 1023" by blast
  then show ?thesis
  proof cases
    case timer
    show ?thesis
      unfolding Let_def iar_def [symmetric]
      by (intro exI [of _ "s\<lparr>cntp_ctl := 3, dev_writes := t1 @ map (W8 (uart0_addr s)) (as_bytes (''  irq: Timer Ticked!'' @ [CHR 0x0A])) @
            [W32 (virt_dev (GICC_BASE s + 0x10)) iar]\<rparr>"]
          exI [of _ "as_bytes (''  irq: Timer Ticked!'' @ [CHR 0x0A])"])
        (use timer r(2) in \<open>simp add: handle_irq_def Let_def read println_soc timer_clear_def mmio_write_ok t1_def GICC_EOIR_def\<close>)
  next
    case spurious
    show ?thesis
      unfolding Let_def iar_def [symmetric]
      by (intro exI [of _ "s\<lparr>dev_writes := t1\<rparr>"] exI [of _ "[]"]) (use spurious in \<open>simp add: handle_irq_def Let_def read t1_def\<close>)
  next
    case other
    let ?log = "as_bytes ((''Unhandled interrupt ID: '' @ radix 10 (unat (iar AND 0x3FF))) @ [CHR 0x0A])"
    show ?thesis
      unfolding Let_def iar_def [symmetric]
      by (intro exI [of _ "s\<lparr>dev_writes := t1 @ map (W8 (uart0_addr s)) ?log @ [W32 (virt_dev (GICC_BASE s + 0x10)) iar]\<rparr>"]
          exI [of _ ?log])
        (use other r(2) in \<open>simp add: handle_irq_def Let_def read println_soc mmio_write_ok t1_def GICC_EOIR_def\<close>)
  qed
qed

theorem irq_acknowledged_and_completed_witness:
  "\<exists>s'. handle_irq (sample_hw 30) Dev sample_soc = Inr s' \<and> last (dev_writes s') = W32 0xffffff8008010010 30 \<and> cntp_ctl s' = 3"
proof -
  have "GICC_BASE sample_soc + 0x10 < 2 ^ 64" by (simp add: sample_soc_def)
  from irq_acknowledged_and_completed [OF this, of "sample_hw 30" Dev] show ?thesis
    by (auto simp: Let_def sample_hw_def sample_soc_def virt_dev_def)
qed

end
