(* ===== verification/Kernel_Api.thy ===== *)
theory Kernel_Api
  imports Machine
begin

text \<open>
  The interface between the kernel and user programs, \<open>src/kernel_api/src/lib.rs\<close>: system call
  numbers, error codes, flags and the request to load the interrupt controller.

  The conversions derived by the crates \<open>num_enum\<close> and \<open>bitflags\<close> are parameters, collected in a
  record; \<open>crates_ok\<close> states what their documentation promises.
\<close>

section \<open>System calls, errors and flags\<close>

datatype Syscall = Exit | Log | PhyMap | MemMap | MemUnmap | DownloadMoreRam | LoadKernelDevice | SleepSec

primrec syscall_nr :: "Syscall \<Rightarrow> u32" where
  "syscall_nr Exit = 0"
| "syscall_nr Log = 1"
| "syscall_nr PhyMap = 2"
| "syscall_nr MemMap = 3"
| "syscall_nr MemUnmap = 4"
| "syscall_nr DownloadMoreRam = 5"
| "syscall_nr LoadKernelDevice = 6"
| "syscall_nr SleepSec = 7"

type_synonym i32 = "32 word"

datatype KError = Unknown i32 | AlreadyExists | OOM | InvalidArgument

text \<open>The code of an error; \<open>Unknown\<close> carries its own.\<close>

primrec kerror_code :: "KError \<Rightarrow> i32" where
  "kerror_code (Unknown n) = n"
| "kerror_code AlreadyExists = - 1"
| "kerror_code OOM = - 2"
| "kerror_code InvalidArgument = - 3"

definition PhyMapFlags_ReadWrite :: u64 where "PhyMapFlags_ReadWrite = push_bit 0 1"
definition PhyMapFlags_DeviceMem :: u64 where "PhyMapFlags_DeviceMem = push_bit 1 1"
definition MemMapFlags_ReadWrite :: u64 where "MemMapFlags_ReadWrite = push_bit 0 1"

record crates =
  Syscall_try_from :: "u32 \<Rightarrow> Syscall option"
  KError_from_primitive :: "i32 \<Rightarrow> KError"
  KError_into_i32 :: "KError \<Rightarrow> i32"
  PhyMapFlags_from_bits_truncate :: "u64 \<Rightarrow> u64"
  MemMapFlags_from_bits_truncate :: "u64 \<Rightarrow> u64"
  flags_contains :: "u64 \<Rightarrow> u64 \<Rightarrow> bool"

text \<open>
  \<open>try_from\<close> inverts the discriminants, \<open>from_primitive\<close> gives the error with that code, or
  \<open>Unknown\<close>; truncation keeps the flags that are defined, \<open>contains\<close> asks for all bits of a flag.
\<close>

definition crates_ok :: "crates \<Rightarrow> bool" where
  "crates_ok c \<longleftrightarrow>
     (\<forall>n k. Syscall_try_from c n = Some k \<longleftrightarrow> syscall_nr k = n) \<and>
     (\<forall>n. KError_from_primitive c n = (if n = - 1 then AlreadyExists else if n = - 2 then OOM
        else if n = - 3 then InvalidArgument else Unknown n)) \<and>
     (\<forall>e. KError_into_i32 c e = kerror_code e) \<and>
     (\<forall>x. PhyMapFlags_from_bits_truncate c x = x AND (PhyMapFlags_ReadWrite OR PhyMapFlags_DeviceMem)) \<and>
     (\<forall>x. MemMapFlags_from_bits_truncate c x = x AND MemMapFlags_ReadWrite) \<and>
     (\<forall>x f. flags_contains c x f \<longleftrightarrow> x AND f = f)"

text \<open>\<open>Into<u64> for KError\<close>: the cast from \<open>i32\<close> extends the sign.\<close>

definition kerror_into_u64 :: "crates \<Rightarrow> KError \<Rightarrow> u64" where
  "kerror_into_u64 c self = scast (KError_into_i32 c self)"

section \<open>The request for the interrupt controller\<close>

record GicAndTimer =
  gicd_base :: u64
  gicc_base :: u64
  timer_ppi_interrupt :: u32
  padding :: u32

definition GicAndTimer_ID :: u32 where
  "GicAndTimer_ID = 1"

definition GicAndTimer_size :: usize where
  "GicAndTimer_size = 24"

text \<open>
  A value as bytes and back: \<open>repr(C)\<close> lays the fields out in order, and no padding is needed
  between them.
\<close>

definition le_bytes :: "nat \<Rightarrow> 'a::len word \<Rightarrow> u8 list" where
  "le_bytes n w = map (\<lambda>i. ucast (drop_bit (8 * i) w)) [0..<n]"

primrec le_word :: "u8 list \<Rightarrow> 'a::len word" where
  "le_word [] = 0"
| "le_word (x # xs) = ucast x OR push_bit 8 (le_word xs)"

definition gic_bytes :: "GicAndTimer \<Rightarrow> u8 list" where
  "gic_bytes g = le_bytes 8 (gicd_base g) @ le_bytes 8 (gicc_base g) @
     le_bytes 4 (timer_ppi_interrupt g) @ le_bytes 4 (padding g)"

definition gic_of_bytes :: "u8 list \<Rightarrow> GicAndTimer" where
  "gic_of_bytes bs = \<lparr>gicd_base = le_word (take 8 bs), gicc_base = le_word (take 8 (drop 8 bs)),
     timer_ppi_interrupt = le_word (take 4 (drop 16 bs)), padding = le_word (take 4 (drop 20 bs))\<rparr>"

lemma le_word_bytes:
  assumes "LENGTH('a) \<le> 8 * n"
  shows "le_word (le_bytes n w) = (w :: 'a::len word)"
proof -
  have bits: "bit (le_word (map (\<lambda>i. ucast (drop_bit (8 * (j + i)) w)) [0..<k]) :: 'a word) b \<longleftrightarrow> b < 8 * k \<and> bit w (8 * j + b)" for j k b
  proof (induction k arbitrary: j b)
    case (Suc k)
    have "map (\<lambda>i. ucast (drop_bit (8 * (j + i)) w) :: u8) [0..<Suc k] =
        ucast (drop_bit (8 * j) w) # map (\<lambda>i. ucast (drop_bit (8 * (Suc j + i)) w)) [0..<k]"
      by (simp add: upt_conv_Cons map_Suc_upt [symmetric] ac_simps del: upt_Suc)
    then show ?case
      using Suc.IH [of "Suc j" "b - 8"]
      by (cases "b < 8") (auto simp: bit_or_iff bit_push_bit_iff bit_unsigned_iff bit_drop_bit_eq dest: bit_imp_le_length)
  qed simp
  show ?thesis
    using bits [of 0 n] assms unfolding le_bytes_def by (intro bit_word_eqI) auto
qed


lemma length_le_bytes [simp]: "length (le_bytes n w) = n"
  by (simp add: le_bytes_def)

lemma gic_bytes_length: "length (gic_bytes g) = GicAndTimer_size"
  by (simp add: gic_bytes_def GicAndTimer_size_def)

lemma gic_bytes_roundtrip: "gic_of_bytes (gic_bytes g) = g"
  by (simp add: gic_of_bytes_def gic_bytes_def le_word_bytes)

lemma ucast_scast_i32: "ucast (scast x :: u64) = (x :: i32)"
proof (rule bit_word_eqI)
  fix n assume "n < LENGTH(32)"
  then have "min 31 n = n" by simp
  with \<open>n < LENGTH(32)\<close> show "bit (ucast (scast x :: u64) :: i32) n \<longleftrightarrow> bit x n"
    by (simp add: bit_unsigned_iff bit_signed_iff)
qed

lemma kerror_roundtrip:
  assumes "crates_ok c" "e \<in> {AlreadyExists, OOM, InvalidArgument}"
  shows "KError_from_primitive c (ucast (kerror_into_u64 c e)) = e" "sint (kerror_into_u64 c e) < 0"
  using assms by (auto simp: crates_ok_def kerror_into_u64_def ucast_scast_i32)

text \<open>Instances of the derived conversions, as documented.\<close>

definition sample_crates :: crates where
  "sample_crates = \<lparr>Syscall_try_from = (\<lambda>n. find (\<lambda>k. syscall_nr k = n)
       [Exit, Log, PhyMap, MemMap, MemUnmap, DownloadMoreRam, LoadKernelDevice, SleepSec]),
     KError_from_primitive = (\<lambda>n. if n = - 1 then AlreadyExists else if n = - 2 then OOM
       else if n = - 3 then InvalidArgument else Unknown n),
     KError_into_i32 = kerror_code,
     PhyMapFlags_from_bits_truncate = (\<lambda>x. x AND 3), MemMapFlags_from_bits_truncate = (\<lambda>x. x AND 1),
     flags_contains = (\<lambda>x f. x AND f = f)\<rparr>"

lemma sample_crates_ok: "crates_ok sample_crates"
proof -
  have "Syscall_try_from sample_crates n = Some k \<longleftrightarrow> syscall_nr k = n" for n k
    by (cases k) (auto simp: sample_crates_def)
  then show ?thesis
    by (simp add: crates_ok_def sample_crates_def PhyMapFlags_ReadWrite_def PhyMapFlags_DeviceMem_def MemMapFlags_ReadWrite_def)
qed

end
