(* ===== verification/Usermode.thy ===== *)
theory Usermode
  imports Gic Kernel_Api
begin

text \<open>
  User mode and system calls, \<open>src/kernel/src/aarch64/usermode.rs\<close>, with the register context of
  \<open>src/kernel/src/aarch64/exceptions.rs\<close>.

  Parameters are what the sources leave open: the image of the init program (\<open>INIT_BIN\<close>, a file the
  build generates), the order the compiler gives the fields of \<open>Thread\<close>, and the functions of other
  crates: the derived conversions of theory \<open>Kernel_Api\<close>, \<open>FromZeros::zero\<close> of \<open>zerocopy\<close>, and
  \<open>TTBR0_EL1.set_baddr\<close> of \<open>aarch64_cpu\<close>.
\<close>

section \<open>State\<close>

record sys = soc +
  INIT_THREAD :: usize \<comment> \<open>the pointer in the static; arbitrary until \<open>GlobalThread::init\<close>\<close>
  spsr_el1 :: u64
  sp_el0 :: u64
  elr_el1 :: u64

text \<open>Size of \<open>Thread\<close> and offsets of the fields the code accesses.\<close>

record thread_layout =
  th_size :: usize
  th_page_table :: usize
  th_stack :: usize
  th_pc :: usize
  th_sp :: usize
  th_spsr :: usize

record user_env =
  lds :: layout
  INIT_BIN :: "u8 list"
  Thread :: thread_layout
  zero :: "usize \<Rightarrow> usize \<Rightarrow> memory \<Rightarrow> memory" \<comment> \<open>\<open>zero\<close> of a value of some size at some address\<close>
  set_baddr :: "u64 \<Rightarrow> u64 \<Rightarrow> u64" \<comment> \<open>new value of the register from the old one and the address\<close>
  crate :: crates
  board :: hw

record ExceptionContext =
  gpr :: "u64 list"
  ctx_lr :: u64
  ctx_pc :: u64
  ctx_spsr :: u64
  ctx_sp :: u64

definition set_x0 :: "u64 \<Rightarrow> ExceptionContext \<Rightarrow> ExceptionContext" where
  "set_x0 v e = e\<lparr>gpr := (gpr e)[0 := v]\<rparr>"

section \<open>Threads\<close>

definition DEFAULT_PC :: u64 where "DEFAULT_PC = 0x10000000"
definition DEFAULT_SP :: u64 where "DEFAULT_SP = 0x8000000"
definition DEFAULT_STACK_SIZE :: u64 where "DEFAULT_STACK_SIZE = 0x4000"

text \<open>\<open>Thread::enter\<close> of the thread at \<open>self\<close>, up to and including the \<open>eret\<close> that starts user code.\<close>

definition thread_enter :: "user_env \<Rightarrow> usize \<Rightarrow> 'z sys_scheme \<Rightarrow> 'z sys_scheme" where
  "thread_enter ue self s =
     (let s = s\<lparr>ttbr0 := set_baddr ue (ttbr0 s) (of_nat (from_virt (self + th_page_table (Thread ue))))\<rparr>;
          s = s\<lparr>spsr_el1 := read_u64 (mem s) (self + th_spsr (Thread ue))\<rparr>;
          s = s\<lparr>sp_el0 := read_u64 (mem s) (self + th_sp (Thread ue))\<rparr>;
          s = s\<lparr>elr_el1 := read_u64 (mem s) (self + th_pc (Thread ue))\<rparr>
      in tlb_flush s)"

definition thread_init :: "user_env \<Rightarrow> usize \<Rightarrow> memory \<Rightarrow> memory" where
  "thread_init ue self m =
     (let m = zero ue self (th_size (Thread ue)) m;
          m = write_u64 m (self + th_pc (Thread ue)) DEFAULT_PC;
          m = write_u64 m (self + th_sp (Thread ue)) DEFAULT_SP
      in write_u64 m (self + th_spsr (Thread ue)) 0x140)"

definition global_thread_init :: "profile \<Rightarrow> user_env \<Rightarrow> 'z sys_scheme \<Rightarrow> 'z sys_scheme res" where
  "global_thread_init b ue s =
     bnd (pagebox_new_zeroed b (th_size (Thread ue)) s) (\<lambda>(thread, s).
     let s = s\<lparr>mem := thread_init ue (pagebox_as_ref thread) (mem s)\<rparr> in
     Inr (s\<lparr>INIT_THREAD := pagebox_as_ref thread\<rparr>))"

definition PAGE_FLAGS :: u64 where
  "PAGE_FLAGS = PT_RW_EL0 OR PT_ISH OR PT_MEM"

text \<open>The statement of \<open>start\<close> that allocates the pages of the program.\<close>

definition alloc_code :: "profile \<Rightarrow> usize \<Rightarrow> 'z sys_scheme \<Rightarrow> (PageSlice \<times> 'z sys_scheme) res" where
  "alloc_code b n = with_guard (\<lambda>s.
     bnd (kalloc_zeroed b n s) (\<lambda>(r, s). bnd (expect r ''OOM'') (\<lambda>sl. Inr (sl, s))))"

definition map_code :: "profile \<Rightarrow> user_env \<Rightarrow> usize \<Rightarrow> PageSlice \<Rightarrow> 'z sys_scheme \<Rightarrow> 'z sys_scheme res" where
  "map_code b ue page_table code_slice =
     foldM (\<lambda>code_page s.
       bnd (usize_mul b code_page PAGE_SIZE) (\<lambda>off.
       bnd (usize_add b (unat DEFAULT_PC) off) (\<lambda>v.
       vmap_at b page_table v (from_virt (slice_as_ptr code_slice + off)) PAGE_FLAGS s)))
     [0..<div_ceil (length (INIT_BIN ue)) PAGE_SIZE]"

definition map_stack :: "profile \<Rightarrow> usize \<Rightarrow> usize \<Rightarrow> 'z sys_scheme \<Rightarrow> 'z sys_scheme res" where
  "map_stack b page_table stack =
     foldM (\<lambda>stack_page s.
       vmap_at b page_table (unat (DEFAULT_SP - DEFAULT_STACK_SIZE) + stack_page) (from_virt (stack + stack_page)) PAGE_FLAGS s)
     (page_offsets (unat DEFAULT_STACK_SIZE))"

definition start :: "profile \<Rightarrow> user_env \<Rightarrow> 'z sys_scheme \<Rightarrow> 'z sys_scheme res" where
  "start b ue s =
     (let s = console_println '' user: Starting usermode'' s in
      bnd (alloc_code b (div_ceil (length (INIT_BIN ue)) PAGE_SIZE) s) (\<lambda>(code_slice, s).
      if length (INIT_BIN ue) > len code_slice then Inl IndexOutOfBounds else
      let s = s\<lparr>mem := write_slice (mem s) (slice_as_ptr code_slice) (INIT_BIN ue)\<rparr> in
      bnd (global_thread_init b ue s) (\<lambda>s.
      let thread = INIT_THREAD s in
      bnd (map_code b ue (thread + th_page_table (Thread ue)) code_slice s) (\<lambda>s.
      bnd (map_stack b (thread + th_page_table (Thread ue)) (thread + th_stack (Thread ue)) s) (\<lambda>s.
      Inr (thread_enter ue thread s))))))"

section \<open>Access to user memory\<close>

text \<open>
  A load with the rights of user mode: low addresses are translated by the user tables, high ones by
  the kernel's, and the descriptor must grant user mode access (bit 6).
\<close>

definition user_walk :: "'z cpu_scheme \<Rightarrow> usize \<Rightarrow> (PhyAddr \<times> u64) option" where
  "user_walk s v =
     (if v < 2 ^ 48 then mmu_walk s (ttbr0 s) v
      else if 2 ^ 64 - 2 ^ 48 \<le> v then mmu_walk s (ttbr1 s) v else None)"

definition user_load :: "'z cpu_scheme \<Rightarrow> usize \<Rightarrow> u8 res" where
  "user_load s v = (case user_walk s v of
     None \<Rightarrow> Inl (Fault v)
   | Some (p, e) \<Rightarrow> if bit e 6 then Inr (mem s (virt p)) else Inl (Fault v))"

definition copy_from_user :: "profile \<Rightarrow> usize \<Rightarrow> usize \<Rightarrow> usize \<Rightarrow> 'z cpu_scheme \<Rightarrow> u8 list res" where
  "copy_from_user b user_pointer user_len target_len s =
     bnd (assert (user_len = target_len) ''user_len == target.len()'') (\<lambda>_.
     foldM (\<lambda>i target.
       bnd (usize_add b user_pointer i) (\<lambda>a.
       bnd (user_load s a) (\<lambda>value. Inr (target @ [value])))) [0..<user_len] [])"

section \<open>System calls\<close>

definition sys_log :: "profile \<Rightarrow> ExceptionContext \<Rightarrow> 'z sys_scheme \<Rightarrow> (ExceptionContext \<times> 'z sys_scheme) res" where
  "sys_log b e s =
     (let ptr = gpr e ! 0;
          l = min (unat (gpr e ! 1)) 256 in
      bnd (copy_from_user b (unat ptr) l l s) (\<lambda>buf. Inr (e, puts buf s)))"

definition phymap_attrs :: "crates \<Rightarrow> u64 \<Rightarrow> u64" where
  "phymap_attrs c bits =
     (let flags = PhyMapFlags_from_bits_truncate c bits;
          page_flags = PT_ISH;
          page_flags = page_flags OR (if flags_contains c flags PhyMapFlags_ReadWrite then PT_RW_EL0 else PT_RO_EL0)
      in page_flags OR (if flags_contains c flags PhyMapFlags_DeviceMem then PT_DEV else PT_MEM))"

definition sys_phymap ::
  "profile \<Rightarrow> user_env \<Rightarrow> ExceptionContext \<Rightarrow> 'z sys_scheme \<Rightarrow> (ExceptionContext \<times> 'z sys_scheme) res" where
  "sys_phymap b ue e s =
     (let phy_addr = gpr e ! 0;
          l = gpr e ! 1;
          page_table = INIT_THREAD s + th_page_table (Thread ue) in
      bnd (vmap b page_table (unat phy_addr) (unat l) (phymap_attrs (crate ue) (gpr e ! 2)) s) (\<lambda>(v, s).
      Inr (set_x0 (of_nat v) e, s)))"

definition memmap_attrs :: "crates \<Rightarrow> u64 \<Rightarrow> u64" where
  "memmap_attrs c bits =
     (let flags = MemMapFlags_from_bits_truncate c bits;
          page_flags = PT_ISH OR PT_MEM
      in page_flags OR (if flags_contains c flags MemMapFlags_ReadWrite then PT_RW_EL0 else PT_RO_EL0))"

definition sys_memmap ::
  "profile \<Rightarrow> user_env \<Rightarrow> ExceptionContext \<Rightarrow> 'z sys_scheme \<Rightarrow> (ExceptionContext \<times> 'z sys_scheme) res" where
  "sys_memmap b ue e s =
     (let l = unat (gpr e ! 0);
          page_table = INIT_THREAD s + th_page_table (Thread ue) in
      bnd (kalloc b (div_ceil l PAGE_SIZE) s) (\<lambda>(page_slice, s).
      let phy_addr = from_virt (slice_as_ptr page_slice) in
      bnd (vmap b page_table phy_addr l (memmap_attrs (crate ue) (gpr e ! 1)) s) (\<lambda>(v, s).
      Inr (set_x0 (of_nat v) e, s))))"

definition sys_memunmap ::
  "profile \<Rightarrow> user_env \<Rightarrow> ExceptionContext \<Rightarrow> 'z sys_scheme \<Rightarrow> (ExceptionContext \<times> 'z sys_scheme) res" where
  "sys_memunmap b ue e s =
     (let virt_addr = gpr e ! 0;
          l = gpr e ! 1;
          page_table = INIT_THREAD s + th_page_table (Thread ue) in
      bnd (vunmap b page_table (unat virt_addr) (unat l) s) (\<lambda>s. Inr (set_x0 0 e, s)))"

definition sys_download_more_ram ::
  "profile \<Rightarrow> user_env \<Rightarrow> ExceptionContext \<Rightarrow> 'z sys_scheme \<Rightarrow> (ExceptionContext \<times> 'z sys_scheme) res" where
  "sys_download_more_ram b ue e s =
     bnd (add_memory_node b (lds ue) (unat (gpr e ! 0)) (unat (gpr e ! 1)) s) (\<lambda>(_, s). Inr (e, s))"

text \<open>The derived \<open>Debug\<close> output of \<open>GicAndTimer\<close>.\<close>

definition gic_debug :: "GicAndTimer \<Rightarrow> string" where
  "gic_debug g = ''GicAndTimer { gicd_base: '' @ radix 10 (unat (gicd_base g)) @
     '', gicc_base: '' @ radix 10 (unat (gicc_base g)) @
     '', timer_ppi_interrupt: '' @ radix 10 (unat (timer_ppi_interrupt g)) @
     '', _padding: '' @ radix 10 (unat (padding g)) @ '' }''"

definition sys_load_kernel_device ::
  "profile \<Rightarrow> user_env \<Rightarrow> ExceptionContext \<Rightarrow> 'z sys_scheme \<Rightarrow> (ExceptionContext \<times> 'z sys_scheme) res" where
  "sys_load_kernel_device b ue e s =
     (let ptr = gpr e ! 0;
          l = gpr e ! 1;
          dev_id = gpr e ! 2 in
      if dev_id = ucast GicAndTimer_ID then
        bnd (assert (l = of_nat GicAndTimer_size) ''Invalid length for GicAndTimer'') (\<lambda>_.
        bnd (copy_from_user b (unat ptr) (unat l) GicAndTimer_size s) (\<lambda>bytes.
        let gic_and_timer = gic_of_bytes bytes;
            s = console_println ('' user: LoadKernelDevice: '' @ gic_debug gic_and_timer) s;
            s = timer_clear s in
        bnd (init_gic (board ue) b (unat (gicd_base gic_and_timer)) (unat (gicc_base gic_and_timer))
               (timer_ppi_interrupt gic_and_timer) s) (\<lambda>s.
        Inr (set_x0 0 e, s))))
      else Inr (set_x0 (kerror_into_u64 (crate ue) InvalidArgument) e, s))"

text \<open>
  The loop of \<open>SleepSec\<close>. It returns \<open>None\<close> when it never ends; waiting (\<open>wfi\<close>) changes nothing but
  the time, which is read again.
\<close>

partial_function (option) sleep_loop :: "hw \<Rightarrow> profile \<Rightarrow> u64 \<Rightarrow> 'z sys_scheme \<Rightarrow> 'z sys_scheme res option" where
  "sleep_loop h b deadline s =
     (case timer_get_absolute_time_ms h b s of
        Inl p \<Rightarrow> Some (Inl p)
      | Inr (now, s) \<Rightarrow>
          let sleep_left = (if now \<le> deadline then deadline - now else 0) in
          if sleep_left = 0 then Some (Inr s)
          else (case timer_set_timeout h b sleep_left s of
                  Inl p \<Rightarrow> Some (Inl p)
                | Inr s \<Rightarrow> sleep_loop h b deadline s))"

definition sys_sleep_sec ::
  "profile \<Rightarrow> user_env \<Rightarrow> ExceptionContext \<Rightarrow> 'z sys_scheme \<Rightarrow> (ExceptionContext \<times> 'z sys_scheme) res option" where
  "sys_sleep_sec b ue e s =
     (let sec = gpr e ! 0 in
      case bnd (timer_get_absolute_time_ms (board ue) b s) (\<lambda>(now, s).
           bnd (u64_mul b sec 1000) (\<lambda>ms.
           bnd (u64_add b now ms) (\<lambda>deadline. Inr (deadline, s)))) of
        Inl p \<Rightarrow> Some (Inl p)
      | Inr (deadline, s) \<Rightarrow>
          let s = console_println ('' user: Sleeping for '' @ radix 10 (unat sec) @ '' seconds'') s in
          (case sleep_loop (board ue) b deadline s of
             None \<Rightarrow> None
           | Some (Inl p) \<Rightarrow> Some (Inl p)
           | Some (Inr s) \<Rightarrow> Some (Inr (set_x0 0 e, s))))"

definition handle_syscall ::
  "profile \<Rightarrow> user_env \<Rightarrow> ExceptionContext \<Rightarrow> 'z sys_scheme \<Rightarrow> (ExceptionContext \<times> 'z sys_scheme) res option" where
  "handle_syscall b ue e s =
     (case Syscall_try_from (crate ue) (ucast (gpr e ! 8)) of
        None \<Rightarrow> Some (Inr (set_x0 (- 1) e, console_println (''Unknown syscall: '' @ radix 10 (unat (gpr e ! 8))) s))
      | Some Exit \<Rightarrow> Some (Inl (NotImplemented ''Syscall::Exit not implemented''))
      | Some Log \<Rightarrow> Some (sys_log b e s)
      | Some PhyMap \<Rightarrow> Some (sys_phymap b ue e s)
      | Some MemMap \<Rightarrow> Some (sys_memmap b ue e s)
      | Some MemUnmap \<Rightarrow> Some (sys_memunmap b ue e s)
      | Some DownloadMoreRam \<Rightarrow> Some (sys_download_more_ram b ue e s)
      | Some LoadKernelDevice \<Rightarrow> Some (sys_load_kernel_device b ue e s)
      | Some SleepSec \<Rightarrow> sys_sleep_sec b ue e s)"

section \<open>Sleeping\<close>

text \<open>The time in milliseconds at read \<open>k\<close> of the counter.\<close>

definition clock_ms :: "hw \<Rightarrow> nat \<Rightarrow> nat" where
  "clock_ms h k = unat (cntpct h k) * 1000 div unat (cntfrq h)"

text \<open>The counter runs at some frequency, and counts slowly enough for the products not to overflow.\<close>

definition clock_ok :: "hw \<Rightarrow> bool" where
  "clock_ok h \<longleftrightarrow> 0 < unat (cntfrq h) \<and> (\<forall>k. unat (cntpct h k) * 1000 < 2 ^ 64)"

lemma unat_of_nat_small: "n < 2 ^ 64 \<Longrightarrow> unat (of_nat n :: u64) = n"
  by (simp add: unsigned_of_nat take_bit_nat_eq_self)

lemma time_ms:
  assumes "clock_ok h"
  shows "timer_get_absolute_time_ms h b s =
    Inr (of_nat (clock_ms h (time_reads s)), s\<lparr>time_reads := Suc (time_reads s)\<rparr>)"
    and "unat (of_nat (clock_ms h k) :: u64) = clock_ms h k"
proof -
  have freq: "cntfrq h \<noteq> 0" and ok: "unat (cntpct h j) * 1000 < 2 ^ 64" for j
    using assms by (auto simp: clock_ok_def unat_gt_0)
  have "clock_ms h j \<le> unat (cntpct h j) * 1000" for j by (simp add: clock_ms_def div_le_dividend)
  with ok have bound: "clock_ms h j < 2 ^ 64" for j using le_less_trans by blast
  then show "unat (of_nat (clock_ms h k) :: u64) = clock_ms h k" by (simp add: unat_of_nat_small)
  have "unat (cntpct h j * 1000) = unat (cntpct h j) * 1000" for j
    using ok [of j] by (subst unat_mult_lem [THEN iffD1]) simp_all
  then have "cntpct h j * 1000 div cntfrq h = of_nat (clock_ms h j)" for j
    using bound [of j] by (simp add: word_unat_eq_iff unat_div clock_ms_def unat_of_nat_small)
  with freq ok [of "time_reads s"] show "timer_get_absolute_time_ms h b s =
    Inr (of_nat (clock_ms h (time_reads s)), s\<lparr>time_reads := Suc (time_reads s)\<rparr>)"
    by (simp add: timer_get_absolute_time_ms_def Let_def usize_simps)
qed

lemma sleep_loop_returns:
  assumes clk: "clock_ok h" and gic: "GICC_BASE s \<noteq> 0" and tval: "unat (cntfrq h) div 1000 * unat deadline < 2 ^ 64"
    and k: "time_reads s \<le> k" "unat deadline \<le> clock_ms h k"
    and early: "\<And>j. time_reads s \<le> j \<Longrightarrow> j < k \<Longrightarrow> clock_ms h j < unat deadline"
  shows "\<exists>s'. sleep_loop h b deadline s = Some (Inr s') \<and> time_reads s' = Suc k \<and>
    s'\<lparr>time_reads := time_reads s, cntp_tval := cntp_tval s, cntp_ctl := cntp_ctl s\<rparr> = s"
  using gic k(1) early
proof (induction "k - time_reads s" arbitrary: s)
  case 0
  then have "time_reads s = k" by simp
  with k(2) have "sleep_loop h b deadline s = Some (Inr (s\<lparr>time_reads := Suc k\<rparr>))"
    by (subst sleep_loop.simps) (auto simp: time_ms [OF clk] word_le_nat_alt Let_def)
  then show ?case using \<open>time_reads s = k\<close> by auto
next
  case (Suc n)
  let ?now = "of_nat (clock_ms h (time_reads s)) :: u64"
  have "clock_ms h (time_reads s) < unat deadline" using Suc.prems(3) [of "time_reads s"] Suc.hyps(2) by simp
  then have now: "?now \<le> deadline" "deadline - ?now \<noteq> 0" using time_ms(2) [OF clk, of "time_reads s"]
    by (auto simp: word_le_nat_alt)
  have "unat (deadline - ?now) \<le> unat deadline" using now(1) by (simp add: unat_sub)
  then have "unat (cntfrq h) div 1000 * unat (deadline - ?now) < 2 ^ 64"
    using tval mult_le_mono2 le_less_trans by blast
  then have "timer_set_timeout h b (deadline - ?now) (s\<lparr>time_reads := Suc (time_reads s)\<rparr>) =
      Inr (s\<lparr>cntp_tval := cntfrq h div 1000 * (deadline - ?now), cntp_ctl := 1, time_reads := Suc (time_reads s)\<rparr>)"
    using Suc.prems(1) by (simp add: timer_set_timeout_def Let_def usize_simps unat_div)
  with now have step: "sleep_loop h b deadline s = sleep_loop h b deadline
      (s\<lparr>cntp_tval := cntfrq h div 1000 * (deadline - ?now), cntp_ctl := 1, time_reads := Suc (time_reads s)\<rparr>)"
    by (subst sleep_loop.simps) (simp add: time_ms(1) [OF clk] Let_def)
  have le: "n = k - Suc (time_reads s)" "Suc (time_reads s) \<le> k" using Suc.hyps(2) by simp_all
  have early: "clock_ms h j < unat deadline" if "Suc (time_reads s) \<le> j" "j < k" for j
    using Suc.prems(3) [of j] that by simp
  obtain s' where s': "sleep_loop h b deadline
      (s\<lparr>cntp_tval := cntfrq h div 1000 * (deadline - ?now), cntp_ctl := 1, time_reads := Suc (time_reads s)\<rparr>) = Some (Inr s')"
    "time_reads s' = Suc k" and rest: "s'\<lparr>time_reads := Suc (time_reads s), cntp_tval := cntfrq h div 1000 * (deadline - ?now), cntp_ctl := 1\<rparr> =
      s\<lparr>cntp_tval := cntfrq h div 1000 * (deadline - ?now), cntp_ctl := 1, time_reads := Suc (time_reads s)\<rparr>"
    using Suc.hyps(1) [of "s\<lparr>cntp_tval := cntfrq h div 1000 * (deadline - ?now), cntp_ctl := 1, time_reads := Suc (time_reads s)\<rparr>"]
      le early Suc.prems(1) by auto
  from arg_cong [OF rest, of "\<lambda>x. x\<lparr>time_reads := time_reads s, cntp_tval := cntp_tval s, cntp_ctl := cntp_ctl s\<rparr>"]
  have "s'\<lparr>time_reads := time_reads s, cntp_tval := cntp_tval s, cntp_ctl := cntp_ctl s\<rparr> = s" by simp
  with step s' show ?case by auto
qed

lemma try_from_nr:
  assumes "crates_ok c" "gpr e ! 8 = ucast (syscall_nr k)"
  shows "Syscall_try_from c (ucast (gpr e ! 8)) = Some k"
proof -
  have "(ucast (ucast (syscall_nr k) :: u64) :: u32) = syscall_nr k" by (cases k) simp_all
  with assms show ?thesis by (simp add: crates_ok_def)
qed

lemma sleep_sec_run:
  assumes c: "crates_ok (crate ue)" and clk: "clock_ok (board ue)" and gic: "GICC_BASE s \<noteq> 0"
    and e: "gpr e ! 8 = 7" "gpr e \<noteq> []" "unat (gpr e ! 0) * 1000 < 2 ^ 64"
    and ovf: "clock_ms (board ue) (time_reads s) + unat (gpr e ! 0) * 1000 < 2 ^ 64"
      "unat (cntfrq (board ue)) div 1000 * (clock_ms (board ue) (time_reads s) + unat (gpr e ! 0) * 1000) < 2 ^ 64"
    and reach: "time_reads s < n" "clock_ms (board ue) (time_reads s) + unat (gpr e ! 0) * 1000 \<le> clock_ms (board ue) n"
  shows "\<exists>s' k. handle_syscall b ue e s = Some (Inr (set_x0 0 e, s')) \<and> time_reads s' = Suc k \<and>
    clock_ms (board ue) (time_reads s) + unat (gpr e ! 0) * 1000 \<le> clock_ms (board ue) k \<and>
    (\<forall>j. time_reads s < j \<and> j < k \<longrightarrow>
       clock_ms (board ue) j < clock_ms (board ue) (time_reads s) + unat (gpr e ! 0) * 1000) \<and>
    s'\<lparr>cntp_tval := cntp_tval s, cntp_ctl := cntp_ctl s, time_reads := time_reads s\<rparr> =
      console_println ('' user: Sleeping for '' @ radix 10 (unat (gpr e ! 0)) @ '' seconds'') s"
proof -
  let ?h = "board ue" and ?x0 = "gpr e ! 0"
  let ?T = "clock_ms ?h (time_reads s) + unat ?x0 * 1000"
  define k where "k = (LEAST k. time_reads s < k \<and> ?T \<le> clock_ms ?h k)"
  have k: "time_reads s < k \<and> ?T \<le> clock_ms ?h k"
    unfolding k_def by (rule LeastI [of _ n]) (use reach in blast)
  have early: "clock_ms ?h j < ?T" if "time_reads s < j" "j < k" for j
    using not_less_Least [of j "\<lambda>k. time_reads s < k \<and> ?T \<le> clock_ms ?h k"] that unfolding k_def by auto
  define d :: u64 where "d = of_nat (clock_ms ?h (time_reads s)) + ?x0 * 1000"
  have "unat (?x0 * 1000) = unat ?x0 * 1000" using e(3) by (subst unat_mult_lem [THEN iffD1]) simp_all
  then have d: "unat d = ?T" and add: "unat (of_nat (clock_ms ?h (time_reads s)) :: u64) + unat (?x0 * 1000) < 2 ^ 64"
    using ovf(1) unfolding d_def by (simp_all add: unat_word_ariths time_ms(2) [OF clk])
  define s1 where "s1 = console_println ('' user: Sleeping for '' @ radix 10 (unat ?x0) @ '' seconds'')
      (s\<lparr>time_reads := Suc (time_reads s)\<rparr>)"
  have s1: "time_reads s1 = Suc (time_reads s)" "GICC_BASE s1 = GICC_BASE s" "mem s1 = mem s"
    by (simp_all add: s1_def println_soc)
  obtain s' where s': "sleep_loop ?h b d s1 = Some (Inr s')" "time_reads s' = Suc k"
    and rest: "s'\<lparr>time_reads := time_reads s1, cntp_tval := cntp_tval s1, cntp_ctl := cntp_ctl s1\<rparr> = s1"
    using sleep_loop_returns [OF clk, of s1 d k b] gic ovf(2) k early unfolding s1 d by (auto simp: Suc_le_eq)
  have "Syscall_try_from (crate ue) (ucast (gpr e ! 8)) = Some SleepSec" using try_from_nr [OF c, of e SleepSec] e(1) by simp
  then have "handle_syscall b ue e s = Some (Inr (set_x0 0 e, s'))"
    using s'(1) [unfolded s1_def] e(3) add
    by (simp add: handle_syscall_def sys_sleep_sec_def time_ms(1) [OF clk] usize_simps d_def [symmetric])
  moreover have "s'\<lparr>cntp_tval := cntp_tval s, cntp_ctl := cntp_ctl s, time_reads := time_reads s\<rparr> =
      console_println ('' user: Sleeping for '' @ radix 10 (unat ?x0) @ '' seconds'') s"
    using arg_cong [OF rest, of "\<lambda>t. t\<lparr>time_reads := time_reads s\<rparr>"] by (simp add: s1_def println_soc)
  ultimately show ?thesis using s'(2) k early by blast
qed

text \<open>
  C25: \<open>SleepSec\<close> returns once the clock has advanced by the requested time, if the clock ever does:
  it stops at the first reading of the counter at or past the deadline, and returns 0. Before that
  reading it was too early, and memory is as it was.
\<close>

theorem sleep_sec_returns:
  assumes c: "crates_ok (crate ue)" and clk: "clock_ok (board ue)" and gic: "GICC_BASE s \<noteq> 0"
    and e: "gpr e ! 8 = 7" "gpr e \<noteq> []" "unat (gpr e ! 0) * 1000 < 2 ^ 64"
    and ovf: "clock_ms (board ue) (time_reads s) + unat (gpr e ! 0) * 1000 < 2 ^ 64"
      "unat (cntfrq (board ue)) div 1000 * (clock_ms (board ue) (time_reads s) + unat (gpr e ! 0) * 1000) < 2 ^ 64"
    and reach: "time_reads s < n" "clock_ms (board ue) (time_reads s) + unat (gpr e ! 0) * 1000 \<le> clock_ms (board ue) n"
  shows "\<exists>e' s' k. handle_syscall b ue e s = Some (Inr (e', s')) \<and> gpr e' ! 0 = 0 \<and> time_reads s' = Suc k \<and>
    clock_ms (board ue) (time_reads s) + unat (gpr e ! 0) * 1000 \<le> clock_ms (board ue) k \<and>
    (\<forall>j. time_reads s < j \<and> j < k \<longrightarrow>
       clock_ms (board ue) j < clock_ms (board ue) (time_reads s) + unat (gpr e ! 0) * 1000) \<and> mem s' = mem s"
proof -
  obtain s' k where s': "handle_syscall b ue e s = Some (Inr (set_x0 0 e, s'))" "time_reads s' = Suc k"
    "clock_ms (board ue) (time_reads s) + unat (gpr e ! 0) * 1000 \<le> clock_ms (board ue) k"
    "\<forall>j. time_reads s < j \<and> j < k \<longrightarrow> clock_ms (board ue) j < clock_ms (board ue) (time_reads s) + unat (gpr e ! 0) * 1000"
    and frame: "s'\<lparr>cntp_tval := cntp_tval s, cntp_ctl := cntp_ctl s, time_reads := time_reads s\<rparr> =
      console_println ('' user: Sleeping for '' @ radix 10 (unat (gpr e ! 0)) @ '' seconds'') s"
    using sleep_sec_run [OF assms, of b] by blast
  moreover have "gpr (set_x0 0 e) ! 0 = 0" using e(2) by (simp add: set_x0_def)
  moreover have "mem s' = mem s" using arg_cong [OF frame, of mem] by (simp add: println_soc)
  ultimately show ?thesis by blast
qed

text \<open>A small board: the init program is four bytes, and the fields of \<open>Thread\<close> lie in the order declared.\<close>

definition sample_ue :: user_env where
  "sample_ue = \<lparr>lds = virt_layout, INIT_BIN = [1, 2, 3, 4],
     Thread = \<lparr>th_size = 0x4000, th_page_table = 0, th_stack = 0x1000, th_pc = 0x3100, th_sp = 0x3108, th_spsr = 0x3110\<rparr>,
     zero = (\<lambda>a n m. write_bytes m a 1 0 n), set_baddr = (\<lambda>_ a. a), crate = sample_crates, board = sample_hw 0\<rparr>"

definition sample_sys :: sys where
  "sample_sys = \<lparr>mem = (\<lambda>_. 7), daif = 0, uart0_addr = 0xffffff0009000000, dev_writes = [], ttbr0 = 0, tlb = (\<lambda>_. None),
     PAGE_ALLOC = page_alloc_new 1 0xffffff0040200000, mair = 0, tcr = 0, ttbr1 = 0, sctlr = 0, vbar = 0, sp_el1 = 0,
     GICD_BASE = 0x8000000, GICC_BASE = 0x8010000, cntkctl = 0, cntp_tval = 0, cntp_ctl = 1, time_reads = 0,
     INIT_THREAD = 0, spsr_el1 = 0, sp_el0 = 0, elr_el1 = 0\<rparr>"

definition sample_ctx :: "u64 \<Rightarrow> u64 \<Rightarrow> u64 \<Rightarrow> u64 \<Rightarrow> ExceptionContext" where
  "sample_ctx nr x0 x1 x2 = \<lparr>gpr = (replicate 30 0)[8 := nr, 0 := x0, 1 := x1, 2 := x2], ctx_lr = 0, ctx_pc = 0x10000000, ctx_spsr = 0x140, ctx_sp = 0x8000000\<rparr>"

lemma sample_gpr [simp]:
  "gpr (sample_ctx nr x0 x1 x2) ! 8 = nr" "gpr (sample_ctx nr x0 x1 x2) ! 0 = x0" "gpr (sample_ctx nr x0 x1 x2) ! Suc 0 = x1"
  "gpr (sample_ctx nr x0 x1 x2) ! 2 = x2" "gpr (sample_ctx nr x0 x1 x2) \<noteq> []"
  by (simp_all add: sample_ctx_def)

lemma sample_clock: "clock_ok (sample_hw x)" "clock_ms (sample_hw x) k = 1000 * min k 100"
proof -
  have "unat (cntpct (sample_hw x) k) = 62500000 * min k 100" for k
    unfolding sample_hw_def by (simp add: unat_of_nat_small del: of_nat_mult)
  moreover have "62500000 * min k 100 \<le> 62500000 * (100 :: nat)" for k by simp
  then have "62500000 * min k 100 * 1000 < (2 :: nat) ^ 64" for k by (rule le_less_trans [OF mult_le_mono1]) simp
  moreover have "cntfrq (sample_hw x) = 62500000" by (simp add: sample_hw_def)
  ultimately show "clock_ok (sample_hw x)" "clock_ms (sample_hw x) k = 1000 * min k 100"
    by (simp_all add: clock_ok_def clock_ms_def)
qed

theorem sleep_sec_returns_witness:
  "\<exists>e' s'. handle_syscall Dev sample_ue (sample_ctx 7 5 0 0) sample_sys = Some (Inr (e', s')) \<and> gpr e' ! 0 = 0 \<and> 5 < time_reads s'"
proof -
  have b: "board sample_ue = sample_hw 0" "crate sample_ue = sample_crates" by (simp_all add: sample_ue_def)
  have "GICC_BASE sample_sys \<noteq> 0" "time_reads sample_sys = 0" "cntfrq (sample_hw 0) = 62500000"
    by (simp_all add: sample_sys_def sample_hw_def)
  with sleep_sec_returns [of sample_ue sample_sys "sample_ctx 7 5 0 0" 7 Dev] show ?thesis
    by (auto simp: b sample_crates_ok sample_clock min_def split: if_splits)
qed

end
