(* ===== verification/User_Start.thy ===== *)
theory User_Start
  imports Usermode
begin

text \<open>
  Correctness of \<open>start\<close> of \<open>src/kernel/src/aarch64/usermode.rs\<close>: what the init program finds when
  the kernel enters user mode, and what of the kernel it can reach through its stack.
\<close>

section \<open>What start relies on\<close>

text \<open>The functions of other crates, as documented.\<close>

definition user_env_ok :: "user_env \<Rightarrow> bool" where
  "user_env_ok ue \<longleftrightarrow>
     (\<forall>a n m. zero ue a n m = write_bytes m a 1 0 n) \<and>
     (\<forall>old p. p mod 4096 = 0 \<longrightarrow> p < 2 ^ 48 \<longrightarrow> out_addr (set_baddr ue old (of_nat p)) = p)"

text \<open>
  The fields of a \<open>Thread\<close> do not overlap, the table and the stack are page-aligned, and its size is
  a number of pages.
\<close>

definition apart8 :: "usize \<Rightarrow> usize \<Rightarrow> bool" where
  "apart8 f g \<longleftrightarrow> f + 8 \<le> g \<or> g + 8 \<le> f"

definition thread_ok :: "thread_layout \<Rightarrow> bool" where
  "thread_ok t \<longleftrightarrow> th_size t mod 4096 = 0 \<and> th_page_table t mod 4096 = 0 \<and> th_stack t mod 4096 = 0 \<and>
     th_page_table t + 4096 \<le> th_size t \<and> th_stack t + 0x2000 \<le> th_size t \<and>
     (\<forall>f \<in> {th_pc t, th_sp t, th_spsr t}. f + 8 \<le> th_size t \<and> (f + 8 \<le> th_page_table t \<or> th_page_table t + 4096 \<le> f)) \<and>
     apart8 (th_pc t) (th_sp t) \<and> apart8 (th_pc t) (th_spsr t) \<and> apart8 (th_sp t) (th_spsr t)"

text \<open>A heap whose free pages are the \<open>m\<close> pages from \<open>a\<close> on, in the linear window.\<close>

definition heap_run :: "'z kernel_scheme \<Rightarrow> usize \<Rightarrow> nat \<Rightarrow> bool" where
  "heap_run s a m \<longleftrightarrow> pa_inv (PAGE_ALLOC s) \<and> heap_linear (PAGE_ALLOC s) \<and> free_pages (PAGE_ALLOC s) = pages_at a m"

lemma heap_run_alloc:
  assumes "heap_run s a m" "0 < n" "n \<le> m"
  obtains pa where "pa_alloc b (PAGE_ALLOC s) n = Inr (Some \<lparr>buf = a, len = n * 4096\<rparr>, pa)"
    "taken pa = taken (PAGE_ALLOC s) \<union> pages_at a n" "\<And>c. heap_run (s\<lparr>PAGE_ALLOC := pa, mem := c\<rparr>) (a + n * 4096) (m - n)"
    "in_window pa = in_window (PAGE_ALLOC s)"
proof -
  from assms have inv: "pa_inv (PAGE_ALLOC s)" and lin: "heap_linear (PAGE_ALLOC s)"
    and free: "free_pages (PAGE_ALLOC s) = pages_at a m" by (simp_all add: heap_run_def)
  from pa_alloc_run [OF inv free assms(2,3), of b] obtain pa where
    pa: "pa_alloc b (PAGE_ALLOC s) n = Inr (Some \<lparr>buf = a, len = n * 4096\<rparr>, pa)" "pa_inv pa"
    "ram_base pa = ram_base (PAGE_ALLOC s)" "pa_capacity pa = pa_capacity (PAGE_ALLOC s)"
    "taken pa = taken (PAGE_ALLOC s) \<union> pages_at a n" "free_pages pa = pages_at (a + n * 4096) (m - n)" by blast
  show thesis
    by (rule that [OF pa(1,5) _ in_window_same [OF pa(3,4)]]) (use pa lin in \<open>simp add: heap_run_def heap_linear_def\<close>)
qed

lemma heap_run_bounds:
  assumes "heap_run s a m" "0 < m"
  shows "a mod 4096 = 0" "0xffffff0000000000 \<le> a" "a + m * 4096 \<le> 0xffffff8000000000"
proof -
  have page: "in_window (PAGE_ALLOC s) (a + i * 4096) 1" if "i < m" for i
    using assms(1) that by (auto simp: heap_run_def free_pages_def set_eq_iff in_pages_at)
  have lin: "heap_linear (PAGE_ALLOC s)" using assms(1) by (simp add: heap_run_def)
  have "m * 4096 = (m - 1) * 4096 + 4096" using assms(2) by (cases m) simp_all
  with page [of 0] page [of "m - 1"] lin assms(2) show "a mod 4096 = 0" "0xffffff0000000000 \<le> a" "a + m * 4096 \<le> 0xffffff8000000000"
    unfolding in_window_def heap_linear_def by simp_all
qed

section \<open>The new thread\<close>

lemma write_u64_outside: "x < a \<or> a + 8 \<le> x \<Longrightarrow> write_u64 m a v x = m x"
  by (auto simp: write_u64_def)

lemma thread_init_mem:
  fixes self :: usize and m :: memory
  assumes ue: "user_env_ok ue" "thread_ok (Thread ue)"
  defines "m' \<equiv> thread_init ue self m" and "t \<equiv> Thread ue"
  shows "self + th_page_table t \<le> x \<Longrightarrow> x < self + th_page_table t + 4096 \<Longrightarrow> m' x = 0"
    and "x < self \<or> self + th_size t \<le> x \<Longrightarrow> m' x = m x"
    and "read_u64 m' (self + th_pc t) = DEFAULT_PC" "read_u64 m' (self + th_sp t) = DEFAULT_SP"
    and "read_u64 m' (self + th_spsr t) = 0x140"
proof -
  from ue have z: "zero ue self (th_size t) m = write_bytes m self 1 0 (th_size t)" by (simp add: user_env_ok_def)
  have f: "f + 8 \<le> th_size t \<and> (f + 8 \<le> th_page_table t \<or> th_page_table t + 4096 \<le> f)" if "f \<in> {th_pc t, th_sp t, th_spsr t}" for f
    using ue(2) that unfolding thread_ok_def t_def by blast
  have ap: "apart8 (th_pc t) (th_sp t)" "apart8 (th_pc t) (th_spsr t)" "apart8 (th_sp t) (th_spsr t)"
    and pt: "th_page_table t + 4096 \<le> th_size t" using ue(2) by (simp_all add: thread_ok_def t_def)
  have m': "m' = write_u64 (write_u64 (write_u64 (write_bytes m self 1 0 (th_size t)) (self + th_pc t) DEFAULT_PC)
      (self + th_sp t) DEFAULT_SP) (self + th_spsr t) 0x140"
    by (simp add: m'_def thread_init_def z [unfolded t_def] t_def Let_def)
  show "m' x = 0" if "self + th_page_table t \<le> x" "x < self + th_page_table t + 4096"
  proof -
    have "x < self + g \<or> self + g + 8 \<le> x" if "g \<in> {th_pc t, th_sp t, th_spsr t}" for g
      using f [OF that] \<open>self + th_page_table t \<le> x\<close> \<open>x < self + th_page_table t + 4096\<close> by linarith
    then show ?thesis using that pt unfolding m' by (simp add: write_u64_outside write_bytes_def)
  qed
  show "m' x = m x" if "x < self \<or> self + th_size t \<le> x"
    using that f [of "th_pc t"] f [of "th_sp t"] f [of "th_spsr t"]
    unfolding m' by (auto simp: write_u64_outside write_bytes_def)
  show "read_u64 m' (self + th_pc t) = DEFAULT_PC" "read_u64 m' (self + th_sp t) = DEFAULT_SP"
    "read_u64 m' (self + th_spsr t) = 0x140"
    using ap unfolding m' apart8_def by (auto simp: read_write_same read_write_other)
qed

lemma empty_table_ok:
  assumes s: "pa_inv (PAGE_ALLOC s)" "heap_linear (PAGE_ALLOC s)" "root \<in> taken (PAGE_ALLOC s)" "root mod 4096 = 0"
    "tlb s = (\<lambda>_. None)" and empty: "\<And>x. root \<le> x \<Longrightarrow> x < root + 4096 \<Longrightarrow> mem s x = 0"
  shows "as_ok s root" "leaf (mem s) root u = 0 \<or> 2 ^ 39 \<le> u" "is_table_byte (mem s) root a \<longleftrightarrow> root \<le> a \<and> a < root + 4096"
proof -
  have rd: "read_u64 (mem s) (root + 8 * i) = 0" if "i < 512" for i
    using empty that by (intro bit_word_eqI) (simp add: bit_read_u64)
  have at: "table_at (mem s) p root = (if p = [] then Some root else None)" if "wf_path p" for p
    using that rd by (cases p) (simp_all add: wf_path_def)
  have tree: "tree (mem s) root (taken (PAGE_ALLOC s))"
    using s(3,4) rd by (auto simp: tree_def at)
  have leaf: "leaf (mem s) root u = 0" if "u < 2 ^ 39" for u
    using wf_va_path [OF that] at [of "va_path u"] by (auto simp: leaf_slot slot_def)
  then show "leaf (mem s) root u = 0 \<or> 2 ^ 39 \<le> u" by (cases "u < 2 ^ 39") auto
  show "as_ok s root" using s tree leaf by (simp add: as_ok_def pt_ok_def)
  show "is_table_byte (mem s) root a \<longleftrightarrow> root \<le> a \<and> a < root + 4096"
    unfolding is_table_byte_def using at by (auto split: if_splits intro: exI [of _ "[]"])
qed

section \<open>Mapping the program and its stack\<close>

lemma from_virt_sub:
  assumes "0xffffff0000000000 \<le> a" "a < 0xffffff8000000000"
  shows "from_virt a = a - 0xffffff0000000000"
proof -
  define p where "p = a - 0xffffff0000000000"
  have "a = p + 0xffffff0000000000" "p < 2 ^ 40" using assms by (simp_all add: p_def)
  then show ?thesis by (simp only: from_virt_mod window_mod)
qed

lemma from_virt_add:
  assumes "0xffffff0000000000 \<le> a" "a + off < 0xffffff8000000000"
  shows "from_virt (a + off) = from_virt a + off"
  using assms by (simp add: from_virt_sub)

text \<open>Mapping \<open>k\<close> pages of the kernel's window, with memory to spare for the tables.\<close>

lemma map_region:
  assumes ok: "as_ok s root" and v: "v mod 4096 = 0" "v + k * 4096 \<le> 2 ^ 39"
    and a: "a mod 4096 = 0" "0xffffff0000000000 \<le> a" "a + k * 4096 \<le> 0xffffff8000000000"
    and mem: "n + 3 * k \<le> card (free_pages (PAGE_ALLOC s))" and attrs: "attrs AND 0xFFFFFFFFF000 = 0"
    and free: "\<And>u. v \<le> u \<Longrightarrow> u < v + k * 4096 \<Longrightarrow> leaf (mem s) root u = 0"
  obtains s' where "foldM (\<lambda>i s. vmap_at b root (v + i * 4096) (from_virt (a + i * 4096)) attrs s) [0..<k] s = Inr s'"
    "as_ok s' root" "n \<le> card (free_pages (PAGE_ALLOC s'))"
    "remaps s s' root (\<lambda>u. if v \<le> u \<and> u < v + k * 4096
       then of_nat (from_virt a + (u - v) div 4096 * 4096) OR COMMON_FLAGS OR attrs else leaf (mem s) root u)"
    "\<And>u. u < 2 ^ 39 \<Longrightarrow> translate (mem s') root u = (if v \<le> u \<and> u < v + k * 4096
       then Some (from_virt a + (u - v), of_nat (from_virt a + (u - v) div 4096 * 4096) OR COMMON_FLAGS OR attrs)
       else translate (mem s) root u)"
proof -
  let ?p = "from_virt a"
  have p: "?p = a - 0xffffff0000000000 \<or> k = 0" using a by (cases "k = 0") (auto simp: from_virt_sub)
  let ?body = "\<lambda>offset s. bnd (usize_add b v offset) (\<lambda>v. bnd (usize_add b ?p offset) (\<lambda>p. vmap_at b root v p attrs s))"
  let ?fold = "foldM (\<lambda>i s. vmap_at b root (v + i * 4096) (from_virt (a + i * 4096)) attrs s) [0..<k] s"
  have eq: "foldM ?body (map (\<lambda>i. i * 4096) [0..<k]) s = ?fold"
    unfolding foldM_map
  proof (rule foldM_cong)
    fix i s' assume "i \<in> set [0..<k]"
    then have i: "i * 4096 + 4096 \<le> k * 4096" by simp
    then have "from_virt (a + i * 4096) = ?p + i * 4096" using a by (intro from_virt_add) simp_all
    moreover have "?p + i * 4096 < 2 ^ 64" using p i a by auto
    ultimately show "?body (i * 4096) s' = vmap_at b root (v + i * 4096) (from_virt (a + i * 4096)) attrs s'"
      using i v(2) by (simp add: usize_simps)
  qed
  have pt: "pt_ok s root" "pa_inv (PAGE_ALLOC s)" using ok by (simp_all add: as_ok_def pt_ok_def)
  have "k * 4096 \<le> 0x8000000000" "?p + k * 4096 \<le> 2 ^ 40" using a p by (auto simp: from_virt_mod)
  then have p64: "?p + k * 4096 \<le> 2 ^ 64" by simp
  have left: "case ?fold of Inl e \<Rightarrow> e \<noteq> ExpectFailed ''OOM'' | Inr s' \<Rightarrow> pa_inv (PAGE_ALLOC s') \<and> n \<le> card (free_pages (PAGE_ALLOC s'))"
    using vmap_pages_serve [OF pt(2), of n "map (\<lambda>i. i * 4096) [0..<k]" b v ?p root attrs] mem unfolding eq by simp
  with vmap_pages [OF pt(1) v(1), of k ?p b attrs, OF v(2) p64 free] obtain s' where
    s': "?fold = Inr s'" and r: "remaps s s' root (\<lambda>u. if v \<le> u \<and> u < v + k * 4096
       then of_nat (?p + (u - v) div 4096 * 4096) OR COMMON_FLAGS OR attrs else leaf (mem s) root u)"
    unfolding eq by auto
  have ok': "as_ok s' root" by (rule as_ok_remaps [OF ok r]) (use page_entry_valid in auto)
  have out: "out_addr (of_nat (?p + (u - v) div 4096 * 4096) OR COMMON_FLAGS OR attrs) + u mod 4096 = ?p + (u - v)"
    if u: "v \<le> u" "u < v + k * 4096" for u
  proof -
    have "?p mod 4096 = 0" using a p u by (auto simp: mod_eq_0_iff_dvd dvd_diff_nat)
    moreover have "(u - v) div 4096 * 4096 \<le> u - v" by (rule div_times_less_eq_dividend)
    ultimately have "(?p + (u - v) div 4096 * 4096) mod 4096 = 0" "?p + (u - v) div 4096 * 4096 < 2 ^ 48"
      using u \<open>?p + k * 4096 \<le> 2 ^ 40\<close> by (auto simp: mod_eq_0_iff_dvd)
    moreover have "u mod 4096 = (u - v) mod 4096" using v(1) u(1) mod_add_right_eq [of "u - v" v 4096] by simp
    ultimately show ?thesis
      using out_addr_page [OF _ _ attrs, of "?p + (u - v) div 4096 * 4096"] by (simp del: of_nat_add)
  qed
  have "translate (mem s') root u = (if v \<le> u \<and> u < v + k * 4096
       then Some (?p + (u - v), of_nat (?p + (u - v) div 4096 * 4096) OR COMMON_FLAGS OR attrs)
       else translate (mem s) root u)" if "u < 2 ^ 39" for u
    by (rule remaps_translate [OF ok ok' r that]) (simp add: out del: of_nat_add)
  with s' ok' left r that show thesis by simp
qed

section \<open>Allocating the program and the thread\<close>

lemma pages_at_add: "pages_at a n \<union> pages_at (a + n * 4096) k = pages_at a (n + k)"
proof -
  have "pages_at a n \<subseteq> pages_at a (n + k)" by (auto simp: in_pages_at)
  with pages_at_rest [of n "n + k" a] show ?thesis by auto
qed

lemma alloc_code_run:
  assumes "heap_run s a m" "0 < n" "n \<le> m"
  obtains pa where "alloc_code b n s = Inr (\<lparr>buf = a, len = n * 4096\<rparr>, s\<lparr>PAGE_ALLOC := pa, mem := write_bytes (mem s) a 8 0 512\<rparr>)"
    "taken pa = taken (PAGE_ALLOC s) \<union> pages_at a n" "\<And>c. heap_run (s\<lparr>PAGE_ALLOC := pa, mem := c\<rparr>) (a + n * 4096) (m - n)"
    "in_window pa = in_window (PAGE_ALLOC s)"
proof -
  obtain pa where pa: "pa_alloc b (PAGE_ALLOC s) n = Inr (Some \<lparr>buf = a, len = n * 4096\<rparr>, pa)"
    "taken pa = taken (PAGE_ALLOC s) \<union> pages_at a n" "\<And>c. heap_run (s\<lparr>PAGE_ALLOC := pa, mem := c\<rparr>) (a + n * 4096) (m - n)"
    "in_window pa = in_window (PAGE_ALLOC s)"
    by (rule heap_run_alloc [OF assms, of b]) blast
  have "alloc_code b n s = Inr (\<lparr>buf = a, len = n * 4096\<rparr>, s\<lparr>PAGE_ALLOC := pa, mem := write_bytes (mem s) a 8 0 512\<rparr>)"
    using pa(1) by (simp add: alloc_code_def with_guard_eq kalloc_zeroed_def slice_zero_def slice_as_ptr_def PAGE_SIZE_def)
  with pa(2-4) that show thesis by blast
qed

lemma global_thread_init_run:
  assumes s: "heap_run s a m" and t: "thread_ok (Thread ue)" "th_size (Thread ue) \<le> m * 4096"
  obtains pa where "global_thread_init b ue s = Inr (s\<lparr>PAGE_ALLOC := pa,
      mem := thread_init ue a (write_bytes (mem s) a 8 0 512), INIT_THREAD := a\<rparr>)"
    "taken pa = taken (PAGE_ALLOC s) \<union> pages_at a (th_size (Thread ue) div 4096)"
    "\<And>c. heap_run (s\<lparr>PAGE_ALLOC := pa, mem := c\<rparr>) (a + th_size (Thread ue)) (m - th_size (Thread ue) div 4096)"
    "in_window pa = in_window (PAGE_ALLOC s)"
proof -
  let ?k = "th_size (Thread ue) div 4096"
  have k: "div_ceil (th_size (Thread ue)) 4096 = ?k" "?k * 4096 = th_size (Thread ue)" "0 < ?k" "?k \<le> m"
    using t by (auto simp: thread_ok_def div_ceil_def)
  obtain pa where pa: "pa_alloc b (PAGE_ALLOC s) ?k = Inr (Some \<lparr>buf = a, len = ?k * 4096\<rparr>, pa)"
    "taken pa = taken (PAGE_ALLOC s) \<union> pages_at a ?k" "\<And>c. heap_run (s\<lparr>PAGE_ALLOC := pa, mem := c\<rparr>) (a + ?k * 4096) (m - ?k)"
    "in_window pa = in_window (PAGE_ALLOC s)"
    by (rule heap_run_alloc [OF s k(3,4), of b]) blast
  have "pa_inv (PAGE_ALLOC s)" using s by (simp add: heap_run_def)
  from new_zeroed_ok [OF this, of b "th_size (Thread ue)"] pa(1)
  have "global_thread_init b ue s = Inr (s\<lparr>PAGE_ALLOC := pa,
      mem := thread_init ue a (write_bytes (mem s) a 8 0 512), INIT_THREAD := a\<rparr>)"
    by (simp add: k(1) global_thread_init_def slice_zero_def slice_as_ptr_def pagebox_as_ref_def PAGE_SIZE_def)
  with pa(2-4) k(2) that show thesis by simp
qed

text \<open>The state of \<open>start\<close> before it maps anything.\<close>

lemma start_prepared:
  fixes s :: "'z sys_scheme"
  assumes s: "heap_run s a m" and ue: "user_env_ok ue" "thread_ok (Thread ue)" "INIT_BIN ue \<noteq> []"
  defines "n \<equiv> div_ceil (length (INIT_BIN ue)) 4096"
  defines "T \<equiv> a + n * 4096" and "t \<equiv> Thread ue"
  assumes m: "n + th_size t div 4096 \<le> m"
  obtains s2 :: "'z sys_scheme" where
    "start b ue s = bnd (map_code b ue (T + th_page_table t) \<lparr>buf = a, len = n * 4096\<rparr> s2) (\<lambda>s.
       bnd (map_stack b (T + th_page_table t) (T + th_stack t) s) (\<lambda>s. Inr (thread_enter ue T s)))"
    "INIT_THREAD s2 = T" "tlb s2 = tlb s" "heap_run s2 (T + th_size t) (m - n - th_size t div 4096)"
    "taken (PAGE_ALLOC s2) = taken (PAGE_ALLOC s) \<union> pages_at a (n + th_size t div 4096)"
    "\<And>i. i < length (INIT_BIN ue) \<Longrightarrow> mem s2 (a + i) = INIT_BIN ue ! i"
    "\<And>x. T + th_page_table t \<le> x \<Longrightarrow> x < T + th_page_table t + 4096 \<Longrightarrow> mem s2 x = 0"
    "read_u64 (mem s2) (T + th_pc t) = DEFAULT_PC" "read_u64 (mem s2) (T + th_sp t) = DEFAULT_SP"
    "read_u64 (mem s2) (T + th_spsr t) = 0x140"
    "\<And>x. x < a \<or> T + th_size t \<le> x \<Longrightarrow> mem s2 x = mem s x"
    "s2\<lparr>mem := mem s, PAGE_ALLOC := PAGE_ALLOC s, INIT_THREAD := INIT_THREAD s\<rparr> = console_println '' user: Starting usermode'' s"
    "in_window (PAGE_ALLOC s2) = in_window (PAGE_ALLOC s)"
proof -
  let ?s0 = "console_println '' user: Starting usermode'' s" and ?k = "th_size t div 4096"
  have k: "?k * 4096 = th_size t" using ue(2) by (auto simp: thread_ok_def t_def)
  have L: "length (INIT_BIN ue) \<le> n * 4096" unfolding n_def by (rule div_ceil_le) simp
  then have n0: "0 < n" "n \<le> m" using ue(3) m by (cases "n = 0"; simp)+
  have "heap_run ?s0 a m" using s by (simp add: println_soc heap_run_def)
  then obtain pa where pa:
    "alloc_code b n ?s0 = Inr (\<lparr>buf = a, len = n * 4096\<rparr>, ?s0\<lparr>PAGE_ALLOC := pa, mem := write_bytes (mem ?s0) a 8 0 512\<rparr>)"
    "taken pa = taken (PAGE_ALLOC ?s0) \<union> pages_at a n" "\<And>c. heap_run (?s0\<lparr>PAGE_ALLOC := pa, mem := c\<rparr>) (a + n * 4096) (m - n)"
    "in_window pa = in_window (PAGE_ALLOC ?s0)"
    by (rule alloc_code_run [OF _ n0, of _ _ b]) blast
  define s1 where "s1 = ?s0\<lparr>PAGE_ALLOC := pa, mem := write_slice (write_bytes (mem ?s0) a 8 0 512) a (INIT_BIN ue)\<rparr>"
  have "heap_run s1 T (m - n)" unfolding s1_def T_def by (rule pa(3))
  moreover have "th_size (Thread ue) \<le> (m - n) * 4096" using m k by (simp add: t_def)
  ultimately obtain pb where pb: "global_thread_init b ue s1 = Inr (s1\<lparr>PAGE_ALLOC := pb,
      mem := thread_init ue T (write_bytes (mem s1) T 8 0 512), INIT_THREAD := T\<rparr>)"
    "taken pb = taken (PAGE_ALLOC s1) \<union> pages_at T ?k"
    "\<And>c. heap_run (s1\<lparr>PAGE_ALLOC := pb, mem := c\<rparr>) (T + th_size t) (m - n - ?k)" "in_window pb = in_window (PAGE_ALLOC s1)"
    unfolding t_def by (rule global_thread_init_run [OF _ ue(2)]) blast
  define s2 where "s2 = s1\<lparr>PAGE_ALLOC := pb, mem := thread_init ue T (write_bytes (mem s1) T 8 0 512), INIT_THREAD := T\<rparr>"
  have run: "start b ue s = bnd (map_code b ue (T + th_page_table t) \<lparr>buf = a, len = n * 4096\<rparr> s2) (\<lambda>s.
       bnd (map_stack b (T + th_page_table t) (T + th_stack t) s) (\<lambda>s. Inr (thread_enter ue T s)))"
    using pa(1) pb(1) L by (simp add: start_def n_def [symmetric] PAGE_SIZE_def Let_def slice_as_ptr_def s1_def s2_def t_def)
  have "pages_at a n \<union> pages_at T ?k = pages_at a (n + ?k)"
    unfolding T_def by (rule pages_at_add)
  then have tk: "taken (PAGE_ALLOC s2) = taken (PAGE_ALLOC s) \<union> pages_at a (n + ?k)"
    using pa(2) pb(2) by (auto simp: s1_def s2_def println_soc)
  have hr: "heap_run s2 (T + th_size t) (m - n - ?k)" using pb(3) by (simp add: s2_def heap_run_def)
  note init = thread_init_mem [OF ue(1,2), where self = T, folded t_def]
  have code: "mem s2 (a + i) = INIT_BIN ue ! i" if "i < length (INIT_BIN ue)" for i
  proof -
    have "a + i < T" using that L by (simp add: T_def)
    with that show ?thesis by (simp add: s2_def init(2) write_bytes_def s1_def write_slice_def)
  qed
  have rest: "mem s2 x = mem s x" if x: "x < a \<or> T + th_size t \<le> x" for x
  proof -
    have "4096 \<le> th_size t" using ue(2) by (simp add: thread_ok_def t_def)
    moreover from this have "n * 4096 \<ge> 4096" using n0 by simp
    moreover have "x < T \<or> T + th_size t \<le> x" using x by (auto simp: T_def)
    then have "mem s2 x = write_bytes (mem s1) T 8 0 512 x" by (simp add: s2_def init(2))
    ultimately show ?thesis
      using x L by (auto simp: write_bytes_def s1_def write_slice_def println_soc T_def)
  qed
  show thesis
    by (rule that [OF run _ _ hr tk code _ _ _ _ rest]) (simp_all add: s2_def init, simp_all add: s1_def println_soc pa(4) pb(4))
qed

text \<open>The first table taken from the heap is the first free page.\<close>

lemma first_table:
  fixes s :: "'z sys_scheme"
  assumes s: "heap_run s a m" "0 < m" and ok: "as_ok s root" and free: "read_u64 (mem s) root = 0"
  obtains s1 :: "'z sys_scheme" where "as_ok s1 root" "remaps s s1 root (leaf (mem s) root)" "table_at (mem s1) [0] root = Some a"
    "heap_run s1 (a + 4096) (m - 1)"
    "\<And>v p attrs. v < 2 ^ 39 \<Longrightarrow> vmap_at b root v p attrs s = vmap_at b root v p attrs s1"
proof -
  have inv: "pa_inv (PAGE_ALLOC s)" and pt: "pt_ok s root" using ok by (simp_all add: as_ok_def pt_ok_def)
  obtain pa where pa: "pa_alloc b (PAGE_ALLOC s) 1 = Inr (Some \<lparr>buf = a, len = 1 * 4096\<rparr>, pa)"
    "\<And>c. heap_run (s\<lparr>PAGE_ALLOC := pa, mem := c\<rparr>) (a + 1 * 4096) (m - 1)"
    by (rule heap_run_alloc [OF s(1), of 1 b]) (use s(2) in auto)
  define s1 where "s1 = s\<lparr>PAGE_ALLOC := pa, mem := write_u64 (write_bytes (mem s) a 8 0 512) root (of_nat (from_virt a) OR TABLE_FLAGS)\<rparr>"
  have one: "div_ceil 4096 4096 = 1" by (simp add: div_ceil_def)
  have new: "pagebox_new_zeroed b 4096 s = Inr (\<lparr>slice = \<lparr>buf = a, len = 4096\<rparr>\<rparr>, s\<lparr>PAGE_ALLOC := pa, mem := write_bytes (mem s) a 8 0 512\<rparr>)"
    using new_zeroed_ok [OF inv, of b 4096] pa(1) by (simp add: one slice_zero_def slice_as_ptr_def PAGE_SIZE_def)
  have get: "get_mut_or_alloc b root 0 TABLE_FLAGS s = Inr (a, s1)"
    using free new by (simp add: get_mut_or_alloc_def pt_entry_def pt_set_def s1_def pagebox_leak_def slice_as_ptr_def)
  with get_mut_or_alloc_ok [OF pt wf_path_Nil, of root 0 b] have g: "grows s s1 root"
    and same: "same_slots (mem s) (mem s1) root" and at: "table_at (mem s1) [0] root = Some a" by auto
  have "leaf (mem s1) root u = leaf (mem s) root u" if "u < 2 ^ 39" for u
    using same wf_va_path [OF that] by (simp add: leaf_slot same_slots_def va_path_def leaf_idx_def)
  moreover have "s1\<lparr>tlb := tlb s\<rparr> = s1" by (simp add: s1_def)
  ultimately have r: "remaps s s1 root (leaf (mem s) root)" using g by (simp add: remaps_def s1_def)
  have ok1: "as_ok s1 root" by (rule as_ok_remaps [OF ok r]) simp
  have hr: "heap_run s1 (a + 4096) (m - 1)" unfolding s1_def using pa(2) by simp
  have "get_mut_or_alloc b root 0 TABLE_FLAGS s1 = Inr (a, s1)"
    using at by (simp add: get_mut_or_alloc_def pt_entry_def Let_def split: if_splits)
  with get have "vmap_walk b root v s = vmap_walk b root v s1" if "v < 2 ^ 39" for v
    using that by (simp add: vmap_walk_def)
  then have "vmap_at b root v p attrs s = vmap_at b root v p attrs s1" if "v < 2 ^ 39" for v p attrs
    using that by (simp add: vmap_at_def)
  with ok1 r at hr that show thesis by blast
qed

lemma page_flags: "PAGE_FLAGS AND 0xFFFFFFFFF000 = 0" "bit (x OR COMMON_FLAGS OR PAGE_FLAGS) 6" "\<not> bit PAGE_FLAGS 7"
  by (simp_all add: PAGE_FLAGS_def PT_RW_EL0_def PT_ISH_def PT_MEM_def bit_or_iff)

lemma map_code_eq:
  assumes "unat DEFAULT_PC + div_ceil (length (INIT_BIN ue)) 4096 * 4096 \<le> 2 ^ 39"
  shows "map_code b ue root \<lparr>buf = a, len = l\<rparr> s = foldM (\<lambda>i s. vmap_at b root (0x10000000 + i * 4096) (from_virt (a + i * 4096)) PAGE_FLAGS s)
    [0..<div_ceil (length (INIT_BIN ue)) 4096] s"
  unfolding map_code_def PAGE_SIZE_def
proof (rule foldM_cong)
  fix i s' assume "i \<in> set [0..<div_ceil (length (INIT_BIN ue)) 4096]"
  then have "i * 4096 + 4096 \<le> div_ceil (length (INIT_BIN ue)) 4096 * 4096" by simp
  with assms have "unat DEFAULT_PC + i * 4096 < 2 ^ 64" "i * 4096 < 2 ^ 64" by (simp_all add: DEFAULT_PC_def)
  then show "bnd (usize_mul b i 4096) (\<lambda>off. bnd (usize_add b (unat DEFAULT_PC) off) (\<lambda>v.
      vmap_at b root v (from_virt (slice_as_ptr \<lparr>buf = a, len = l\<rparr> + off)) PAGE_FLAGS s')) =
    vmap_at b root (0x10000000 + i * 4096) (from_virt (a + i * 4096)) PAGE_FLAGS s'"
    by (simp add: usize_simps slice_as_ptr_def) (simp add: DEFAULT_PC_def)
qed

lemma map_stack_eq:
  "map_stack b root st s = foldM (\<lambda>i s. vmap_at b root (0x7FFC000 + i * 4096) (from_virt (st + i * 4096)) PAGE_FLAGS s) [0..<4] s"
proof -
  have "div_ceil 0x4000 4096 = 4" by (simp add: div_ceil_def)
  then show ?thesis
    by (simp add: map_stack_def page_offsets_eq foldM_map PAGE_SIZE_def DEFAULT_SP_def DEFAULT_STACK_SIZE_def)
qed

lemma card_pages_at: "card (pages_at a n) = n"
  by (simp add: pages_at_def card_image inj_on_def)

lemma page_of_byte:
  assumes "a mod 4096 = 0" "a \<le> x" "x < a + q * 4096"
  shows "x - x mod 4096 \<in> pages_at a q"
proof -
  have "x mod 4096 = (x - a) mod 4096" using assms(1,2) mod_add_right_eq [of "x - a" a 4096] by simp
  then have "x - x mod 4096 = a + (x - a) div 4096 * 4096"
    using assms(2) by (simp add: minus_mod_eq_div_mult [symmetric])
  moreover have "(x - a) div 4096 < q" using assms(2,3) by (simp add: less_mult_imp_div_less)
  ultimately show ?thesis unfolding in_pages_at by blast
qed

lemma set_baddr_root:
  assumes "user_env_ok ue" "0xffffff0000000000 \<le> root" "root < 0xffffff8000000000" "root mod 4096 = 0"
  shows "out_addr (set_baddr ue old (of_nat (from_virt root))) = from_virt root"
proof -
  have "from_virt root mod 4096 = 0" "from_virt root < 2 ^ 48"
    using assms(2-4) by (simp_all add: from_virt_sub mod_eq_0_iff_dvd dvd_diff_nat)
  with assms(1) show ?thesis by (simp add: user_env_ok_def)
qed

text \<open>The two loops of \<open>start\<close>, on an empty table.\<close>

lemma program_maps:
  fixes s :: "'z sys_scheme"
  defines "fl p \<equiv> of_nat p OR COMMON_FLAGS OR PAGE_FLAGS :: u64"
  assumes s: "heap_run s h q" "as_ok s root" "read_u64 (mem s) root = 0" "\<And>u. u < 2 ^ 39 \<Longrightarrow> leaf (mem s) root u = 0"
    and n: "0 < n" "n \<le> 0x10000" "3 * (n + 4) < q"
    and a: "a mod 4096 = 0" "0xffffff0000000000 \<le> a" "a + n * 4096 \<le> 0xffffff8000000000"
    and st: "st mod 4096 = 0" "0xffffff0000000000 \<le> st" "st + 0x4000 \<le> 0xffffff8000000000"
  obtains s' :: "'z sys_scheme" and g where
    "bnd (foldM (\<lambda>i s. vmap_at b root (0x10000000 + i * 4096) (from_virt (a + i * 4096)) PAGE_FLAGS s) [0..<n] s)
       (foldM (\<lambda>i s. vmap_at b root (0x7FFC000 + i * 4096) (from_virt (st + i * 4096)) PAGE_FLAGS s) [0..<4]) = Inr s'"
    "as_ok s' root" "remaps s s' root g" "table_at (mem s') [0] root = Some h"
    "\<And>u. u < 2 ^ 39 \<Longrightarrow> translate (mem s') root u =
       (if 0x10000000 \<le> u \<and> u < 0x10000000 + n * 4096
        then Some (from_virt a + (u - 0x10000000), fl (from_virt a + (u - 0x10000000) div 4096 * 4096))
        else if 0x7FFC000 \<le> u \<and> u < 0x8000000
        then Some (from_virt st + (u - 0x7FFC000), fl (from_virt st + (u - 0x7FFC000) div 4096 * 4096))
        else None)"
proof -
  let ?code = "\<lambda>i s. vmap_at b root (0x10000000 + i * 4096) (from_virt (a + i * 4096)) PAGE_FLAGS s"
  let ?stack = "\<lambda>i s. vmap_at b root (0x7FFC000 + i * 4096) (from_virt (st + i * 4096)) PAGE_FLAGS s"
  obtain s1 :: "'z sys_scheme" where s1: "as_ok s1 root" "remaps s s1 root (leaf (mem s) root)" "table_at (mem s1) [0] root = Some h"
    "heap_run s1 (h + 4096) (q - 1)" "\<And>v p attrs. v < 2 ^ 39 \<Longrightarrow> vmap_at b root v p attrs s = vmap_at b root v p attrs s1"
    by (rule first_table [OF s(1) _ s(2,3), of b]) (use n(3) in auto)
  have lf1: "leaf (mem s1) root u = 0" if "u < 2 ^ 39" for u using s1(2) s(4) that by (simp add: remaps_def)
  have "foldM ?code [0..<n] s = foldM ?code [0..<n] s1"
    using n(1) s1(5) [of "0x10000000"] by (simp add: upt_conv_Cons)
  moreover have "free_pages (PAGE_ALLOC s1) = pages_at (h + 4096) (q - 1)" using s1(4) by (simp add: heap_run_def)
  then have c1: "12 + 3 * n \<le> card (free_pages (PAGE_ALLOC s1))" using n(3) by (simp add: card_pages_at)
  obtain s2 where s2: "foldM ?code [0..<n] s1 = Inr s2" "as_ok s2 root" "12 \<le> card (free_pages (PAGE_ALLOC s2))"
    "remaps s1 s2 root (\<lambda>u. if 0x10000000 \<le> u \<and> u < 0x10000000 + n * 4096
       then fl (from_virt a + (u - 0x10000000) div 4096 * 4096) else leaf (mem s1) root u)"
    "\<And>u. u < 2 ^ 39 \<Longrightarrow> translate (mem s2) root u = (if 0x10000000 \<le> u \<and> u < 0x10000000 + n * 4096
       then Some (from_virt a + (u - 0x10000000), fl (from_virt a + (u - 0x10000000) div 4096 * 4096)) else translate (mem s1) root u)"
    unfolding fl_def by (rule map_region [OF s1(1) _ _ a _ page_flags(1), where v = "0x10000000" and n = 12 and b = b]) (use n(2) lf1 c1 in auto)
  have lf2: "leaf (mem s2) root u = 0" if "u < 0x8000000" for u using s2(4) lf1 that by (simp add: remaps_def)
  obtain s3 where s3: "foldM ?stack [0..<4] s2 = Inr s3" "as_ok s3 root"
    "remaps s2 s3 root (\<lambda>u. if 0x7FFC000 \<le> u \<and> u < 0x7FFC000 + 4 * 4096
       then fl (from_virt st + (u - 0x7FFC000) div 4096 * 4096) else leaf (mem s2) root u)"
    "\<And>u. u < 2 ^ 39 \<Longrightarrow> translate (mem s3) root u = (if 0x7FFC000 \<le> u \<and> u < 0x7FFC000 + 4 * 4096
       then Some (from_virt st + (u - 0x7FFC000), fl (from_virt st + (u - 0x7FFC000) div 4096 * 4096)) else translate (mem s2) root u)"
    unfolding fl_def by (rule map_region [OF s2(2) _ _ st(1,2) _ _ page_flags(1), where v = "0x7FFC000" and k = 4 and n = 0 and b = b]) (use st(3) s2(3) lf2 in auto)
  note r13 = remaps_trans [OF s2(4) s3(3)]
  have "table_at (mem s3) [0] root = Some h"
    using growsD(4) [of s1 "s3\<lparr>tlb := tlb s1\<rparr>" root "[0]" h] r13 s1(3) by (simp add: remaps_def wf_path_def)
  moreover have "translate (mem s1) root u = None" if "u < 2 ^ 39" for u
    using translate_as [OF s1(1) that] lf1 [OF that] by simp
  ultimately show thesis
    using that [OF _ s3(2) remaps_trans [OF s1(2) r13]] s2(1,5) s3(1,4) \<open>foldM ?code [0..<n] s = foldM ?code [0..<n] s1\<close>
    by auto
qed

text \<open>The whole of \<open>start\<close>.\<close>

lemma start_runs:
  fixes s :: "'z sys_scheme"
  assumes s: "heap_run s a m" "tlb s = (\<lambda>_. None)"
    and ue: "user_env_ok ue" "thread_ok (Thread ue)" "INIT_BIN ue \<noteq> []" "length (INIT_BIN ue) \<le> 0x10000000"
  defines "n \<equiv> div_ceil (length (INIT_BIN ue)) 4096"
  defines "T \<equiv> a + n * 4096" and "t \<equiv> Thread ue"
  defines "root \<equiv> T + th_page_table t"
  assumes m: "n + th_size t div 4096 + 3 * (n + 4) < m"
  obtains s' :: "'z sys_scheme" where "start b ue s = Inr s'" "as_ok s' root" "INIT_THREAD s' = T"
    "out_addr (ttbr0 s') = from_virt root" "elr_el1 s' = DEFAULT_PC" "sp_el0 s' = DEFAULT_SP" "spsr_el1 s' = 0x140"
    "\<And>u. u < 2 ^ 39 \<Longrightarrow> translate (mem s') root u =
       (if 0x10000000 \<le> u \<and> u < 0x10000000 + n * 4096
        then Some (from_virt a + (u - 0x10000000), of_nat (from_virt a + (u - 0x10000000) div 4096 * 4096) OR COMMON_FLAGS OR PAGE_FLAGS)
        else if 0x7FFC000 \<le> u \<and> u < 0x8000000
        then Some (from_virt (T + th_stack t) + (u - 0x7FFC000), of_nat (from_virt (T + th_stack t) + (u - 0x7FFC000) div 4096 * 4096) OR COMMON_FLAGS OR PAGE_FLAGS)
        else None)"
    "\<And>i. i < length (INIT_BIN ue) \<Longrightarrow> mem s' (a + i) = INIT_BIN ue ! i"
    "table_at (mem s') [0] root = Some (T + th_size t)"
    "\<And>x. x < a \<or> a + m * 4096 \<le> x \<Longrightarrow> mem s' x = mem s x"
    "\<And>x. x < a \<or> a + m * 4096 \<le> x \<Longrightarrow> \<not> is_table_byte (mem s') root x"
    "taken (PAGE_ALLOC s) \<subseteq> taken (PAGE_ALLOC s')" "in_window (PAGE_ALLOC s') = in_window (PAGE_ALLOC s)"
    "\<And>x. a \<le> x \<Longrightarrow> x < T + th_size t \<Longrightarrow> x < root \<or> root + 4096 \<le> x \<Longrightarrow> \<not> is_table_byte (mem s') root x"
    "s'\<lparr>mem := mem s, PAGE_ALLOC := PAGE_ALLOC s, tlb := tlb s, INIT_THREAD := INIT_THREAD s, ttbr0 := ttbr0 s,
       spsr_el1 := spsr_el1 s, sp_el0 := sp_el0 s, elr_el1 := elr_el1 s\<rparr> = console_println '' user: Starting usermode'' s"
proof -
  let ?k = "th_size t div 4096"
  have k: "?k * 4096 = th_size t" and t: "th_page_table t mod 4096 = 0" "th_page_table t + 4096 \<le> th_size t"
    "th_stack t mod 4096 = 0" "th_stack t + 0x2000 \<le> th_size t"
    using ue(2) by (auto simp: thread_ok_def t_def)
  have n0: "n \<le> 0x10000" unfolding n_def by (rule div_ceil_least) (use ue(4) in simp_all)
  have L: "length (INIT_BIN ue) \<le> n * 4096" unfolding n_def by (rule div_ceil_le) simp
  have small: "unat DEFAULT_PC + div_ceil (length (INIT_BIN ue)) 4096 * 4096 \<le> 2 ^ 39"
    using n0 by (simp add: n_def DEFAULT_PC_def)
  have a: "a mod 4096 = 0" "0xffffff0000000000 \<le> a" "a + m * 4096 \<le> 0xffffff8000000000"
    using heap_run_bounds [OF s(1)] m by simp_all
  have T: "T mod 4096 = 0" "T + th_size t + (3 * (n + 4) + 1) * 4096 \<le> a + m * 4096"
    using a(1) k m by (simp_all add: T_def)
  have root: "root mod 4096 = 0" "0xffffff0000000000 \<le> root" "root + 4096 \<le> T + th_size t" "root < 0xffffff8000000000"
    using T t a by (simp_all add: root_def mod_eq_0_iff_dvd T_def)
  obtain s2 :: "'z sys_scheme" where run: "start b ue s = bnd (map_code b ue root \<lparr>buf = a, len = n * 4096\<rparr> s2) (\<lambda>s.
       bnd (map_stack b root (T + th_stack t) s) (\<lambda>s. Inr (thread_enter ue T s)))"
    and s2: "INIT_THREAD s2 = T" "tlb s2 = tlb s" "heap_run s2 (T + th_size t) (m - n - ?k)"
    and tk: "taken (PAGE_ALLOC s2) = taken (PAGE_ALLOC s) \<union> pages_at a (n + ?k)"
    and code: "\<And>i. i < length (INIT_BIN ue) \<Longrightarrow> mem s2 (a + i) = INIT_BIN ue ! i"
    and zero: "\<And>x. root \<le> x \<Longrightarrow> x < root + 4096 \<Longrightarrow> mem s2 x = 0"
    and regs: "read_u64 (mem s2) (T + th_pc t) = DEFAULT_PC" "read_u64 (mem s2) (T + th_sp t) = DEFAULT_SP"
      "read_u64 (mem s2) (T + th_spsr t) = 0x140"
    and out2: "\<And>x. x < a \<or> T + th_size t \<le> x \<Longrightarrow> mem s2 x = mem s x"
    and win2: "in_window (PAGE_ALLOC s2) = in_window (PAGE_ALLOC s)"
    and fr2: "s2\<lparr>mem := mem s, PAGE_ALLOC := PAGE_ALLOC s, INIT_THREAD := INIT_THREAD s\<rparr> = console_println '' user: Starting usermode'' s"
    unfolding root_def T_def n_def t_def
    by (rule start_prepared [OF s(1) ue(1-3), of b]) (use m in \<open>auto simp: n_def t_def\<close>)
  have inside: "x - x mod 4096 \<in> taken (PAGE_ALLOC s2)" if "a \<le> x" "x < T + th_size t" for x
    unfolding tk using page_of_byte [OF a(1) that(1), of "n + ?k"] that(2) k by (simp add: T_def)
  have "root \<in> taken (PAGE_ALLOC s2)" using inside [of root] root by (simp add: root_def T_def)
  note empty = empty_table_ok [OF _ _ this root(1) _ zero]
  have ok2: "as_ok s2 root" using empty(1) s2 s(2) by (simp add: heap_run_def)
  have lf2: "leaf (mem s2) root u = 0" if "u < 2 ^ 39" for u
    using empty(2) [of u] s2 s(2) that by (auto simp: heap_run_def)
  have pos: "0 < n" using L ue(3) by (cases n) simp_all
  have rd: "read_u64 (mem s2) root = 0" using zero by (intro bit_word_eqI) (simp add: bit_read_u64)
  have mm: "3 * (n + 4) < m - n - ?k" using m by simp
  have reg: "a + n * 4096 \<le> 0xffffff8000000000" "(T + th_stack t) mod 4096 = 0" "0xffffff0000000000 \<le> T + th_stack t"
    "T + th_stack t + 0x4000 \<le> 0xffffff8000000000"
    using T t a by (simp_all add: mod_eq_0_iff_dvd T_def)
  obtain s4 g where s4: "bnd (map_code b ue root \<lparr>buf = a, len = n * 4096\<rparr> s2) (map_stack b root (T + th_stack t)) = Inr s4"
    "as_ok s4 root" "remaps s2 s4 root g" "table_at (mem s4) [0] root = Some (T + th_size t)"
    and tr: "\<And>u. u < 2 ^ 39 \<Longrightarrow> translate (mem s4) root u =
       (if 0x10000000 \<le> u \<and> u < 0x10000000 + n * 4096
        then Some (from_virt a + (u - 0x10000000), of_nat (from_virt a + (u - 0x10000000) div 4096 * 4096) OR COMMON_FLAGS OR PAGE_FLAGS)
        else if 0x7FFC000 \<le> u \<and> u < 0x8000000
        then Some (from_virt (T + th_stack t) + (u - 0x7FFC000), of_nat (from_virt (T + th_stack t) + (u - 0x7FFC000) div 4096 * 4096) OR COMMON_FLAGS OR PAGE_FLAGS)
        else None)"
    unfolding map_stack_eq map_code_eq [OF small, folded n_def]
    by (rule program_maps [OF s2(3) ok2 rd lf2 pos n0 mm a(1,2) reg, where b = b]) blast+
  have keep: "\<not> is_table_byte (mem s4) root x" "mem s4 x = mem s2 x" if "a \<le> x" "x < T + th_size t" "x < root \<or> root + 4096 \<le> x" for x
    using remaps_keeps [OF s4(3) inside [OF that(1,2)]] empty(3) that(3) s2 s(2) by (auto simp: heap_run_def)
  have fld: "read_u64 (mem s4) (T + f) = read_u64 (mem s2) (T + f)" if "f \<in> {th_pc t, th_sp t, th_spsr t}" for f
  proof -
    have "f + 8 \<le> th_size t \<and> (f + 8 \<le> th_page_table t \<or> th_page_table t + 4096 \<le> f)"
      using ue(2) that unfolding thread_ok_def t_def by blast
    then show ?thesis by (intro read_u64_cong keep(2)) (auto simp: T_def root_def)
  qed
  from s4(3) have fr4: "s4\<lparr>tlb := tlb s2\<rparr> = s2\<lparr>mem := mem s4, PAGE_ALLOC := PAGE_ALLOC s4\<rparr>"
    using growsD(2) [of s2 "s4\<lparr>tlb := tlb s2\<rparr>" root] by (simp add: remaps_def)
  from arg_cong [OF this, of INIT_THREAD] have thr: "INIT_THREAD s4 = T" using s2(1) by simp
  let ?s' = "thread_enter ue T s4"
  have e: "mem ?s' = mem s4" "INIT_THREAD ?s' = INIT_THREAD s4" "PAGE_ALLOC ?s' = PAGE_ALLOC s4" "tlb ?s' = (\<lambda>_. None)"
    "elr_el1 ?s' = DEFAULT_PC" "sp_el0 ?s' = DEFAULT_SP" "spsr_el1 ?s' = 0x140"
    "ttbr0 ?s' = set_baddr ue (ttbr0 s4) (of_nat (from_virt root))"
    using fld regs by (simp_all add: thread_enter_def Let_def tlb_flush_def t_def [symmetric] root_def)
  have "?s'\<lparr>mem := mem s, PAGE_ALLOC := PAGE_ALLOC s, tlb := tlb s, INIT_THREAD := INIT_THREAD s, ttbr0 := ttbr0 s,
       spsr_el1 := spsr_el1 s, sp_el0 := sp_el0 s, elr_el1 := elr_el1 s\<rparr> =
     s4\<lparr>tlb := tlb s2, mem := mem s, PAGE_ALLOC := PAGE_ALLOC s, INIT_THREAD := INIT_THREAD s, ttbr0 := ttbr0 s,
       spsr_el1 := spsr_el1 s, sp_el0 := sp_el0 s, elr_el1 := elr_el1 s\<rparr>"
    by (simp add: thread_enter_def Let_def tlb_flush_def s2(2))
  also have "\<dots> = (s2\<lparr>mem := mem s, PAGE_ALLOC := PAGE_ALLOC s, INIT_THREAD := INIT_THREAD s\<rparr>)
     \<lparr>ttbr0 := ttbr0 s, spsr_el1 := spsr_el1 s, sp_el0 := sp_el0 s, elr_el1 := elr_el1 s\<rparr>"
    unfolding fr4 by simp
  also have "\<dots> = console_println '' user: Starting usermode'' s" unfolding fr2 by (simp add: println_soc)
  finally have frame: "?s'\<lparr>mem := mem s, PAGE_ALLOC := PAGE_ALLOC s, tlb := tlb s, INIT_THREAD := INIT_THREAD s, ttbr0 := ttbr0 s,
       spsr_el1 := spsr_el1 s, sp_el0 := sp_el0 s, elr_el1 := elr_el1 s\<rparr> = console_println '' user: Starting usermode'' s" .
  have alloc': "taken (PAGE_ALLOC s) \<subseteq> taken (PAGE_ALLOC ?s')" "in_window (PAGE_ALLOC ?s') = in_window (PAGE_ALLOC s)"
    using s4(3) tk win2 growsD(3,7) [of s2 "s4\<lparr>tlb := tlb s2\<rparr>" root] by (auto simp: e remaps_def)
  have run': "start b ue s = Inr ?s'" using run s4(1) by (auto simp: bnd_def split: sum.splits)
  have ok': "as_ok ?s' root" using s4(2) by (simp add: as_ok_def pt_ok_def e)
  have code': "mem ?s' (a + i) = INIT_BIN ue ! i" if "i < length (INIT_BIN ue)" for i
  proof -
    have "a + i < T" using that L by (simp add: T_def)
    then have "mem s4 (a + i) = mem s2 (a + i)" by (intro keep(2)) (simp_all add: root_def)
    with code [OF that] show ?thesis by (simp add: e)
  qed
  have rest: "mem ?s' x = mem s x" "\<not> is_table_byte (mem ?s') root x" if x: "x < a \<or> a + m * 4096 \<le> x" for x
  proof -
    have "x - x mod 4096 \<notin> free_pages (PAGE_ALLOC s2)"
    proof
      assume "x - x mod 4096 \<in> free_pages (PAGE_ALLOC s2)"
      then obtain i where i: "i < m - n - ?k" "x - x mod 4096 = T + th_size t + i * 4096"
        using s2(3) by (auto simp: heap_run_def in_pages_at)
      have "x < x - x mod 4096 + 4096" using mod_less_divisor [of 4096 x] by linarith
      moreover have "(n + ?k + (i + 1)) * 4096 \<le> m * 4096" using i(1) by (intro mult_le_mono1) simp
      ultimately show False using x i(2) k by (auto simp: T_def)
    qed
    moreover have "\<not> is_table_byte (mem s2) root x" using empty(3) s2 s(2) x root(3) T by (auto simp: heap_run_def root_def T_def)
    ultimately have out: "\<not> is_table_byte (mem s4) root x" "mem s4 x = mem s2 x" using remaps_outside [OF s4(3), of x] by blast+
    moreover have "x < a \<or> T + th_size t \<le> x" using x T(2) by linarith
    ultimately show "mem ?s' x = mem s x" "\<not> is_table_byte (mem ?s') root x" using out2 [of x] by (simp_all add: e(1))
  qed
  show thesis
    by (rule that [OF run' ok' _ _ e(5-7) tr [folded e(1)] code' s4(4) [folded e(1)] rest alloc' keep(1) [folded e(1)] frame])
      (use thr set_baddr_root [OF ue(1) root(2,4,1)] e in simp_all)
qed

section \<open>Properties\<close>

lemma user_walk_translate:
  "u < 2 ^ 39 \<Longrightarrow> out_addr (ttbr0 s) = from_virt root \<Longrightarrow> user_walk s u = translate (mem s) root u"
  by (simp add: user_walk_def mmu_walk_def translate_def)

lemma user_load_at:
  assumes "user_walk s u = Some (from_virt a + off, e)" "bit e 6" "0xffffff0000000000 \<le> a" "a + off < 0xffffff8000000000"
  shows "user_load s u = Inr (mem s (a + off))"
proof -
  have "virt (from_virt a + off) = a + off"
    using from_virt_add [OF assms(3,4)] virt_from_virt [of "a + off"] assms(3,4) by simp
  with assms(1,2) show ?thesis by (simp add: user_load_def)
qed

lemma aligned_low_bit:
  assumes "4096 dvd p" "j < 12"
  shows "\<not> bit (of_nat p :: u64) j"
proof -
  from assms(1) obtain q where "p = push_bit 12 q" by (auto simp: push_bit_eq_mult mult.commute)
  with assms(2) show ?thesis by (simp add: bit_of_nat_iff bit_push_bit_iff_nat)
qed

lemma stack_access:
  assumes "out_addr (ttbr0 s) = from_virt root" and i: "i < 0x4000"
    and st: "st mod 4096 = 0" "0xffffff0000000000 \<le> st" "st + 0x4000 \<le> 0xffffff8000000000"
    and tr: "translate (mem s) root (0x7FFC000 + i) = Some (from_virt st + i, of_nat (from_virt st + i div 4096 * 4096) OR COMMON_FLAGS OR PAGE_FLAGS)"
  shows "\<exists>e. user_walk s (0x7FFC000 + i) = Some (from_virt (st + i), e) \<and> bit e 6 \<and> \<not> bit e 7"
proof -
  let ?p = "from_virt st + i div 4096 * 4096"
  have "4096 dvd ?p" using st by (simp add: from_virt_sub mod_eq_0_iff_dvd)
  then have "\<not> bit (of_nat ?p OR COMMON_FLAGS OR PAGE_FLAGS :: u64) 7" using page_flags(3) aligned_low_bit [of ?p 7]
    by (simp add: bit_or_iff common_flags_num del: of_nat_add)
  moreover have "from_virt (st + i) = from_virt st + i" using st i by (intro from_virt_add) simp_all
  ultimately show ?thesis
    using user_walk_translate [OF _ assms(1), of "0x7FFC000 + i"] tr page_flags(2) i by simp
qed

lemma start_loads:
  assumes s: "heap_run s a m" "tlb s = (\<lambda>_. None)"
    and ue: "user_env_ok ue" "thread_ok (Thread ue)" "INIT_BIN ue \<noteq> []" "length (INIT_BIN ue) \<le> 0x10000000"
    and m: "div_ceil (length (INIT_BIN ue)) 4096 + th_size (Thread ue) div 4096 + 3 * (div_ceil (length (INIT_BIN ue)) 4096 + 4) < m"
  shows "\<exists>s'. start b ue s = Inr s' \<and> (\<forall>i < length (INIT_BIN ue). user_load s' (0x10000000 + i) = Inr (INIT_BIN ue ! i))"
proof -
  let ?n = "div_ceil (length (INIT_BIN ue)) 4096" and ?t = "Thread ue"
  obtain s' where s': "start b ue s = Inr s'" "out_addr (ttbr0 s') = from_virt (a + ?n * 4096 + th_page_table ?t)"
    and tr: "\<And>u. u < 2 ^ 39 \<Longrightarrow> translate (mem s') (a + ?n * 4096 + th_page_table ?t) u =
       (if 0x10000000 \<le> u \<and> u < 0x10000000 + ?n * 4096
        then Some (from_virt a + (u - 0x10000000), of_nat (from_virt a + (u - 0x10000000) div 4096 * 4096) OR COMMON_FLAGS OR PAGE_FLAGS)
        else if 0x7FFC000 \<le> u \<and> u < 0x8000000
        then Some (from_virt (a + ?n * 4096 + th_stack ?t) + (u - 0x7FFC000),
          of_nat (from_virt (a + ?n * 4096 + th_stack ?t) + (u - 0x7FFC000) div 4096 * 4096) OR COMMON_FLAGS OR PAGE_FLAGS)
        else None)"
    and code: "\<And>i. i < length (INIT_BIN ue) \<Longrightarrow> mem s' (a + i) = INIT_BIN ue ! i"
    by (rule start_runs [OF s ue m]) blast
  have a: "0xffffff0000000000 \<le> a" "a + m * 4096 \<le> 0xffffff8000000000" using heap_run_bounds [OF s(1)] m by simp_all
  have L: "length (INIT_BIN ue) \<le> ?n * 4096" by (rule div_ceil_le) simp
  have n: "?n \<le> 0x10000" by (rule div_ceil_least) (use ue(4) in simp_all)
  have "user_load s' (0x10000000 + i) = Inr (INIT_BIN ue ! i)" if i: "i < length (INIT_BIN ue)" for i
  proof -
    have "user_walk s' (0x10000000 + i) = Some (from_virt a + i, of_nat (from_virt a + i div 4096 * 4096) OR COMMON_FLAGS OR PAGE_FLAGS)"
      using i L n by (simp add: user_walk_translate [OF _ s'(2)] tr del: of_nat_add)
    from user_load_at [OF this page_flags(2) a(1)] a(2) m i L code [OF i] show ?thesis by simp
  qed
  with s'(1) show ?thesis by blast
qed

text \<open>
  C8: with enough free memory \<open>start\<close> enters user mode at the first byte of the init program with the
  top of its stack: user mode reads the program, byte by byte, at \<open>DEFAULT_PC\<close>; the 16 KiB below
  \<open>DEFAULT_SP\<close> are writable memory, consecutive from the field \<open>stack\<close> on; apart from the pages of
  these two regions the user half is unmapped; and the page tables are in order.
\<close>

theorem start_maps_program:
  assumes s: "heap_run s a m" "tlb s = (\<lambda>_. None)"
    and ue: "user_env_ok ue" "thread_ok (Thread ue)" "INIT_BIN ue \<noteq> []" "length (INIT_BIN ue) \<le> 0x10000000"
    and m: "div_ceil (length (INIT_BIN ue)) 4096 + th_size (Thread ue) div 4096 + 3 * (div_ceil (length (INIT_BIN ue)) 4096 + 4) < m"
  shows "\<exists>s'. start b ue s = Inr s' \<and>
    elr_el1 s' = DEFAULT_PC \<and> sp_el0 s' = DEFAULT_SP \<and> spsr_el1 s' = 0x140 \<and>
    (\<forall>i < length (INIT_BIN ue). user_load s' (unat DEFAULT_PC + i) = Inr (INIT_BIN ue ! i)) \<and>
    (\<forall>i < 0x4000. \<exists>e. user_walk s' (unat DEFAULT_SP - 0x4000 + i) = Some (from_virt (INIT_THREAD s' + th_stack (Thread ue) + i), e) \<and>
       bit e 6 \<and> \<not> bit e 7) \<and>
    (\<forall>u < 2 ^ 39. user_walk s' u \<noteq> None \<longrightarrow> unat DEFAULT_PC \<le> u \<and> u < unat DEFAULT_PC + div_ceil (length (INIT_BIN ue)) 4096 * 4096 \<or>
       unat DEFAULT_SP - 0x4000 \<le> u \<and> u < unat DEFAULT_SP) \<and>
    as_ok s' (INIT_THREAD s' + th_page_table (Thread ue))"
proof -
  let ?n = "div_ceil (length (INIT_BIN ue)) 4096" and ?t = "Thread ue"
  obtain s' where s': "start b ue s = Inr s'" "as_ok s' (a + ?n * 4096 + th_page_table ?t)" "INIT_THREAD s' = a + ?n * 4096"
    "out_addr (ttbr0 s') = from_virt (a + ?n * 4096 + th_page_table ?t)" "elr_el1 s' = DEFAULT_PC" "sp_el0 s' = DEFAULT_SP" "spsr_el1 s' = 0x140"
    and tr: "\<And>u. u < 2 ^ 39 \<Longrightarrow> translate (mem s') (a + ?n * 4096 + th_page_table ?t) u =
       (if 0x10000000 \<le> u \<and> u < 0x10000000 + ?n * 4096
        then Some (from_virt a + (u - 0x10000000), of_nat (from_virt a + (u - 0x10000000) div 4096 * 4096) OR COMMON_FLAGS OR PAGE_FLAGS)
        else if 0x7FFC000 \<le> u \<and> u < 0x8000000
        then Some (from_virt (a + ?n * 4096 + th_stack ?t) + (u - 0x7FFC000),
          of_nat (from_virt (a + ?n * 4096 + th_stack ?t) + (u - 0x7FFC000) div 4096 * 4096) OR COMMON_FLAGS OR PAGE_FLAGS)
        else None)"
    by (rule start_runs [OF s ue m]) blast
  note walk = user_walk_translate [OF _ s'(4)]
  have a: "a mod 4096 = 0" "0xffffff0000000000 \<le> a" "a + m * 4096 \<le> 0xffffff8000000000" using heap_run_bounds [OF s(1)] m by simp_all
  have t: "th_stack ?t + 0x2000 \<le> th_size ?t" "th_size ?t div 4096 * 4096 = th_size ?t" "th_stack ?t mod 4096 = 0"
    using ue(2) by (auto simp: thread_ok_def)
  have L: "length (INIT_BIN ue) \<le> ?n * 4096" by (rule div_ceil_le) simp
  have n: "?n \<le> 0x10000" by (rule div_ceil_least) (use ue(4) in simp_all)
  have top: "a + ?n * 4096 + th_stack ?t + 0x4000 \<le> 0xffffff8000000000" using t a(3) m by simp
  have load: "user_load s' (unat DEFAULT_PC + i) = Inr (INIT_BIN ue ! i)" if "i < length (INIT_BIN ue)" for i
    using start_loads [OF s ue m, of b] s'(1) that by (auto simp: DEFAULT_PC_def)
  have stack: "\<exists>e. user_walk s' (unat DEFAULT_SP - 0x4000 + i) = Some (from_virt (INIT_THREAD s' + th_stack ?t + i), e) \<and> bit e 6 \<and> \<not> bit e 7"
    if i: "i < 0x4000" for i
    using stack_access [OF s'(4) i, of "a + ?n * 4096 + th_stack ?t"] a t top i s'(3)
    by (simp add: tr DEFAULT_SP_def mod_eq_0_iff_dvd del: of_nat_add)
  have rest: "0x10000000 \<le> u \<and> u < 0x10000000 + ?n * 4096 \<or> 0x7FFC000 \<le> u \<and> u < 0x8000000"
    if "u < 2 ^ 39" "user_walk s' u \<noteq> None" for u
    using that by (auto simp: walk tr split: if_splits)
  show ?thesis
    by (intro exI [of _ s'] conjI s'(1,5-7) allI impI load stack) (use rest s'(2,3) in \<open>auto simp: DEFAULT_PC_def DEFAULT_SP_def\<close>)
qed

lemma free_pages_eq:
  assumes "pa_inv pa"
  shows "free_pages pa = pages_at (ram_base pa) (pa_capacity pa) - taken pa"
proof -
  have "in_window pa x 1 \<longleftrightarrow> x \<in> pages_at (ram_base pa) (pa_capacity pa)" for x
  proof
    assume x: "in_window pa x 1"
    then have "x - x mod 4096 \<in> pages_at (ram_base pa) (pa_capacity pa)"
      using assms by (intro page_of_byte) (simp_all add: in_window_def pa_inv_def)
    with x show "x \<in> pages_at (ram_base pa) (pa_capacity pa)" by (simp add: in_window_def)
  next
    assume "x \<in> pages_at (ram_base pa) (pa_capacity pa)"
    then obtain i where i: "i < pa_capacity pa" "x = ram_base pa + i * 4096" unfolding in_pages_at by blast
    then have "(i + 1) * 4096 \<le> pa_capacity pa * 4096" by (intro mult_le_mono1) simp
    with i assms show "in_window pa x 1" by (simp add: in_window_def pa_inv_def mod_eq_0_iff_dvd)
  qed
  then show ?thesis by (auto simp: free_pages_def)
qed

lemma sample_start: "user_env_ok sample_ue" "thread_ok (Thread sample_ue)" "heap_run sample_sys 0xffffff0040200000 64"
proof -
  have out: "out_addr (of_nat p) = p" if "p mod 4096 = 0" "p < 2 ^ 48" for p
    using that out_addr_flags [of p 0] by simp
  show "user_env_ok sample_ue" using out by (simp add: user_env_ok_def sample_ue_def)
  show "thread_ok (Thread sample_ue)" by (simp add: thread_ok_def sample_ue_def apart8_def)
  have "free_pages (PAGE_ALLOC sample_sys) = pages_at 0xffffff0040200000 64"
    by (simp add: free_pages_eq pa_inv_def sample_sys_def page_alloc_new_capacity taken_new)
  moreover have "heap_linear (PAGE_ALLOC sample_sys)" by (simp add: sample_sys_def heap_linear_def page_alloc_new_capacity)
  moreover have "pa_inv (PAGE_ALLOC sample_sys)" by (simp add: sample_sys_def pa_inv_def page_alloc_new_capacity)
  ultimately show "heap_run sample_sys 0xffffff0040200000 64" by (simp add: heap_run_def)
qed

lemma sample_program:
  "tlb sample_sys = (\<lambda>_. None)" "INIT_BIN sample_ue \<noteq> []" "length (INIT_BIN sample_ue) \<le> 0x10000000"
  "div_ceil (length (INIT_BIN sample_ue)) 4096 + th_size (Thread sample_ue) div 4096 +
     3 * (div_ceil (length (INIT_BIN sample_ue)) 4096 + 4) < 64"
proof -
  have "div_ceil (length (INIT_BIN sample_ue)) 4096 = 1" "th_size (Thread sample_ue) = 0x4000"
    by (simp_all add: sample_ue_def div_ceil_def)
  then show "div_ceil (length (INIT_BIN sample_ue)) 4096 + th_size (Thread sample_ue) div 4096 +
     3 * (div_ceil (length (INIT_BIN sample_ue)) 4096 + 4) < 64" by simp
qed (simp_all add: sample_ue_def sample_sys_def)

theorem start_maps_program_witness:
  "\<exists>s'. start Dev sample_ue sample_sys = Inr s' \<and> user_load s' 0x10000002 = Inr 3 \<and> elr_el1 s' = 0x10000000 \<and> user_walk s' 0 = None"
proof -
  let ?bin = "INIT_BIN sample_ue"
  have b: "2 < length ?bin" "?bin ! 2 = 3" by (simp_all add: sample_ue_def)
  from start_maps_program [OF sample_start(3) sample_program(1) sample_start(1,2) sample_program(2-4), of Dev]
  obtain s' where s': "start Dev sample_ue sample_sys = Inr s'" "elr_el1 s' = DEFAULT_PC"
    and load: "\<forall>i < length ?bin. user_load s' (unat DEFAULT_PC + i) = Inr (?bin ! i)"
    and rest: "\<forall>u < 2 ^ 39. user_walk s' u \<noteq> None \<longrightarrow> unat DEFAULT_PC \<le> u \<and> u < unat DEFAULT_PC + div_ceil (length ?bin) 4096 * 4096 \<or>
       unat DEFAULT_SP - 0x4000 \<le> u \<and> u < unat DEFAULT_SP"
    by blast
  have "user_walk s' 0 = None" using rest [rule_format, of 0] by (cases "user_walk s' 0") (simp_all add: DEFAULT_PC_def DEFAULT_SP_def)
  moreover have "user_load s' 0x10000002 = Inr 3" using load [rule_format, OF b(1)] b(2) by (simp add: DEFAULT_PC_def)
  ultimately show ?thesis using s' by (simp add: DEFAULT_PC_def)
qed



end
