(* ===== verification/Syscalls.thy ===== *)
theory Syscalls
  imports User_Start
begin

text \<open>
  What the system calls of \<open>src/kernel/src/aarch64/usermode.rs\<close> do for a user program: memory mapped
  by \<open>PhyMap\<close> and \<open>MemMap\<close> as user mode sees it, the text printed by \<open>Log\<close>, and the errors.
\<close>

section \<open>Results\<close>

text \<open>A system call changes no register of its caller but \<open>x0\<close>.\<close>

lemma syscall_x0:
  assumes "handle_syscall b ue e s = Some (Inr (e', s'))"
  shows "\<exists>v. e' = set_x0 v e"
proof -
  have same: "e = set_x0 (gpr e ! 0) e" by (simp add: set_x0_def)
  show ?thesis
    using assms same unfolding handle_syscall_def
    by (auto simp: sys_log_def sys_phymap_def sys_memmap_def sys_memunmap_def sys_download_more_ram_def
        sys_load_kernel_device_def sys_sleep_sec_def Let_def returns_iff split: option.splits Syscall.splits sum.splits if_splits prod.splits)
qed

section \<open>Attributes\<close>

lemma contains_bit: "k < 64 \<Longrightarrow> y AND push_bit k 1 = push_bit k 1 \<longleftrightarrow> bit y k" for y :: u64
  by (auto simp: bit_eq_iff [where ?'a = u64] bit_and_iff bit_exp_iff)

lemma flag_bits:
  assumes "crates_ok c"
  shows "flags_contains c (PhyMapFlags_from_bits_truncate c x) PhyMapFlags_ReadWrite \<longleftrightarrow> bit x 0"
    "flags_contains c (PhyMapFlags_from_bits_truncate c x) PhyMapFlags_DeviceMem \<longleftrightarrow> bit x 1"
    "flags_contains c (MemMapFlags_from_bits_truncate c x) MemMapFlags_ReadWrite \<longleftrightarrow> bit x 0"
proof -
  have c: "PhyMapFlags_from_bits_truncate c x = x AND (PhyMapFlags_ReadWrite OR PhyMapFlags_DeviceMem)"
    "MemMapFlags_from_bits_truncate c x = x AND MemMapFlags_ReadWrite" "flags_contains c y f \<longleftrightarrow> y AND f = f" for y f
    using assms by (simp_all add: crates_ok_def)
  show "flags_contains c (PhyMapFlags_from_bits_truncate c x) PhyMapFlags_ReadWrite \<longleftrightarrow> bit x 0"
    "flags_contains c (PhyMapFlags_from_bits_truncate c x) PhyMapFlags_DeviceMem \<longleftrightarrow> bit x 1"
    "flags_contains c (MemMapFlags_from_bits_truncate c x) MemMapFlags_ReadWrite \<longleftrightarrow> bit x 0"
    unfolding c PhyMapFlags_ReadWrite_def PhyMapFlags_DeviceMem_def MemMapFlags_ReadWrite_def
    by (subst contains_bit, simp, simp add: bit_and_iff bit_or_iff bit_push_bit_iff bit_1_iff)+
qed

lemma attrs_eq:
  assumes "crates_ok c"
  shows "phymap_attrs c x = 0x300 OR (if bit x 0 then 0x40 else 0xC0) OR (if bit x 1 then 4 else 0)"
    and "memmap_attrs c x = 0x300 OR (if bit x 0 then 0x40 else 0xC0)"
  by (simp_all add: phymap_attrs_def memmap_attrs_def flag_bits [OF assms] Let_def
      PT_ISH_def PT_RW_EL0_def PT_RO_EL0_def PT_DEV_def PT_MEM_def)

text \<open>The access a descriptor grants: user mode may write unless bit 7 is set; bit 2 selects device memory.\<close>

lemma desc_bits:
  assumes "4096 dvd p" "attrs = 0x300 OR (if w then 0x40 else 0xC0) OR (if d then 4 else 0)"
  shows "bit (of_nat p OR COMMON_FLAGS OR attrs :: u64) 6" "bit (of_nat p OR COMMON_FLAGS OR attrs :: u64) 7 \<longleftrightarrow> \<not> w"
    "bit (of_nat p OR COMMON_FLAGS OR attrs :: u64) 2 \<longleftrightarrow> d"
  using aligned_low_bit [OF assms(1), of 7] aligned_low_bit [OF assms(1), of 2]
  by (simp_all add: assms(2) bit_or_iff common_flags_num)

lemma as_ok_alloc:
  assumes ok: "as_ok s root" and al: "kalloc b n s = Inr (sl, s')"
  shows "as_ok s' root"
proof -
  from ok have inv: "pa_inv (PAGE_ALLOC s)" by (simp add: as_ok_def pt_ok_def)
  from inv al obtain pa where pa: "pa_alloc b (PAGE_ALLOC s) n = Inr (Some sl, pa)" "s' = s\<lparr>PAGE_ALLOC := pa\<rparr>"
    "taken pa = taken (PAGE_ALLOC s) \<union> pages_at (buf sl) n" by (rule kalloc_slice)
  from pa_alloc_cases [OF inv, of b n] pa(1) have "pa_inv pa" "ram_base pa = ram_base (PAGE_ALLOC s)" "pa_capacity pa = pa_capacity (PAGE_ALLOC s)"
    by auto
  with ok pa(2,3) show ?thesis by (auto simp: as_ok_def pt_ok_def heap_linear_def tree_def)
qed

section \<open>Mapping memory\<close>

lemma syscall_dispatch:
  assumes "crates_ok (crate ue)" "gpr e ! 8 = ucast (syscall_nr k)"
  shows "k = Log \<Longrightarrow> handle_syscall b ue e s = Some (sys_log b e s)"
    "k = PhyMap \<Longrightarrow> handle_syscall b ue e s = Some (sys_phymap b ue e s)"
    "k = MemMap \<Longrightarrow> handle_syscall b ue e s = Some (sys_memmap b ue e s)"
    "k = MemUnmap \<Longrightarrow> handle_syscall b ue e s = Some (sys_memunmap b ue e s)"
    "k = DownloadMoreRam \<Longrightarrow> handle_syscall b ue e s = Some (sys_download_more_ram b ue e s)"
    "k = LoadKernelDevice \<Longrightarrow> handle_syscall b ue e s = Some (sys_load_kernel_device b ue e s)"
    "k = SleepSec \<Longrightarrow> handle_syscall b ue e s = sys_sleep_sec b ue e s"
    "k = Exit \<Longrightarrow> handle_syscall b ue e s = Some (Inl (NotImplemented ''Syscall::Exit not implemented''))"
  using try_from_nr [OF assms] by (simp_all add: handle_syscall_def)

lemma remaps_regs:
  fixes s s' :: "'z sys_scheme"
  assumes "remaps s s' root g"
  shows "ttbr0 s' = ttbr0 s" "INIT_THREAD s' = INIT_THREAD s" "uart0_addr s' = uart0_addr s"
proof -
  from assms have "s'\<lparr>tlb := tlb s\<rparr> = s\<lparr>mem := mem s', PAGE_ALLOC := PAGE_ALLOC s'\<rparr>"
    using growsD(2) [of s "s'\<lparr>tlb := tlb s\<rparr>" root] by (simp add: remaps_def)
  from arg_cong [OF this, of ttbr0] arg_cong [OF this, of INIT_THREAD] arg_cong [OF this, of uart0_addr]
  show "ttbr0 s' = ttbr0 s" "INIT_THREAD s' = INIT_THREAD s" "uart0_addr s' = uart0_addr s" by simp_all
qed

text \<open>\<open>vmap\<close> as user mode sees it, with the attributes of a request.\<close>

lemma vmap_user:
  fixes s :: "'z sys_scheme"
  assumes ok: "as_ok s root" "out_addr (ttbr0 s) = from_virt root"
    and n: "n mod 4096 = 0" and p: "p mod 4096 = 0" "p + n \<le> 2 ^ 48"
    and hole: "find_hole (mem s) root 0x50000000 n = Inr (Some v)" "v mod 2 ^ 30 + n \<le> 2 ^ 30"
    and mem: "3 * (n div 4096) \<le> card (free_pages (PAGE_ALLOC s))"
    and attrs: "attrs = 0x300 OR (if w then 0x40 else 0xC0) OR (if d then 4 else 0)"
  obtains s' :: "'z sys_scheme" and g where "vmap b root p n attrs s = Inr (v, s')" "as_ok s' root" "v + n \<le> 2 ^ 39" "remaps s s' root g"
    "\<And>i. i < n \<Longrightarrow> user_walk s (v + i) = None"
    "\<And>i. i < n \<Longrightarrow> \<exists>e. user_walk s' (v + i) = Some (p + i, e) \<and> bit e 6 \<and> (bit e 7 \<longleftrightarrow> \<not> w) \<and> (bit e 2 \<longleftrightarrow> d)"
    "\<And>u. u < 2 ^ 39 \<Longrightarrow> u < v \<or> v + n \<le> u \<Longrightarrow> user_walk s' u = user_walk s u"
proof -
  have "attrs AND 0xFFFFFFFFF000 = 0" by (auto simp: attrs)
  from ok(1) n p this hole show thesis
  proof (cases rule: vmap_translates [where b = b])
    case (mapped s')
    note 2 = mapped
    note walk' = user_walk_translate [of _ s' root, unfolded remaps_regs [OF 2(4)], OF _ ok(2)]
    have "\<exists>e. user_walk s' (v + i) = Some (p + i, e) \<and> bit e 6 \<and> (bit e 7 \<longleftrightarrow> \<not> w) \<and> (bit e 2 \<longleftrightarrow> d)" if "i < n" for i
    proof -
      have "4096 dvd p + i div 4096 * 4096" using p(1) by (simp add: mod_eq_0_iff_dvd)
      note bits = desc_bits [OF this attrs]
      have "user_walk s' (v + i) = Some (p + i, of_nat (p + i div 4096 * 4096) OR COMMON_FLAGS OR attrs)"
        using that 2(3) 2(6) [of "v + i"] by (simp add: walk' del: of_nat_add)
      with bits show ?thesis by blast
    qed
    moreover have "user_walk s (v + i) = None" if "i < n" for i
      using that 2(3) 2(5) [of "v + i"] user_walk_translate [OF _ ok(2), of "v + i"] by simp
    moreover have "user_walk s' u = user_walk s u" if "u < 2 ^ 39" "u < v \<or> v + n \<le> u" for u
      using 2(6) [OF that(1)] that walk' [OF that(1)] user_walk_translate [OF that(1) ok(2)] by auto
    ultimately show thesis using 2(1-4) that by blast
  qed (use mem in simp)
qed

section \<open>Properties\<close>

text \<open>
  C19: \<open>PhyMap\<close> gives the program the physical region it asked for, byte by byte, at a range that was
  free and whose address is in \<open>x0\<close>: writable exactly when flag \<open>ReadWrite\<close> is set, as device memory
  exactly when flag \<open>DeviceMem\<close> is. Nothing else in the user half changes. The kernel does not restrict
  the region: it may be the kernel's own memory.
\<close>

theorem phymap_grants_access:
  assumes c: "crates_ok (crate ue)" and e: "gpr e ! 8 = 2" "gpr e \<noteq> []"
    and root: "root = INIT_THREAD s + th_page_table (Thread ue)" "as_ok s root" "out_addr (ttbr0 s) = from_virt root"
    and p: "p = unat (gpr e ! 0)" "p mod 4096 = 0" "p + n \<le> 2 ^ 48" and n: "n = unat (gpr e ! 1)" "n mod 4096 = 0"
    and hole: "find_hole (mem s) root 0x50000000 n = Inr (Some v)" "v mod 2 ^ 30 + n \<le> 2 ^ 30"
    and mem: "3 * (n div 4096) \<le> card (free_pages (PAGE_ALLOC s))"
  shows "\<exists>s'. handle_syscall b ue e s = Some (Inr (set_x0 (of_nat v) e, s')) \<and> as_ok s' root \<and>
    (\<forall>i < n. user_walk s (v + i) = None \<and>
      (\<exists>d. user_walk s' (v + i) = Some (p + i, d) \<and> bit d 6 \<and> (bit d 7 \<longleftrightarrow> \<not> bit (gpr e ! 2) 0) \<and> (bit d 2 \<longleftrightarrow> bit (gpr e ! 2) 1))) \<and>
    (\<forall>u < 2 ^ 39. u < v \<or> v + n \<le> u \<longrightarrow> user_walk s' u = user_walk s u)"
proof -
  let ?attrs = "phymap_attrs (crate ue) (gpr e ! 2)"
  obtain s' g where s': "vmap b root p n ?attrs s = Inr (v, s')" "as_ok s' root"
    "\<And>i. i < n \<Longrightarrow> user_walk s (v + i) = None"
    "\<And>i. i < n \<Longrightarrow> \<exists>d. user_walk s' (v + i) = Some (p + i, d) \<and> bit d 6 \<and> (bit d 7 \<longleftrightarrow> \<not> bit (gpr e ! 2) 0) \<and> (bit d 2 \<longleftrightarrow> bit (gpr e ! 2) 1)"
    "\<And>u. u < 2 ^ 39 \<Longrightarrow> u < v \<or> v + n \<le> u \<Longrightarrow> user_walk s' u = user_walk s u"
    by (rule vmap_user [OF root(2,3) n(2) p(2,3) hole mem attrs_eq(1) [OF c]]) blast
  have "handle_syscall b ue e s = Some (sys_phymap b ue e s)" using syscall_dispatch(2) [OF c, of e PhyMap] e(1) by simp
  then have "handle_syscall b ue e s = Some (Inr (set_x0 (of_nat v) e, s'))"
    using s'(1) by (simp add: sys_phymap_def Let_def root(1) p(1) n(1))
  with s' show ?thesis by blast
qed

text \<open>A user program with an empty address space.\<close>

definition sample_user :: sys where
  "sample_user = sample_sys\<lparr>mem := mem empty_space, PAGE_ALLOC := PAGE_ALLOC empty_space, INIT_THREAD := empty_root,
     ttbr0 := of_nat (from_virt empty_root)\<rparr>"

lemma sample_user_ok:
  "empty_root = INIT_THREAD sample_user + th_page_table (Thread sample_ue)" "as_ok sample_user empty_root"
  "out_addr (ttbr0 sample_user) = from_virt empty_root"
  "find_hole (mem sample_user) empty_root 0x50000000 0x2000 = Inr (Some 0x50000000)"
  "6 \<le> card (free_pages (PAGE_ALLOC sample_user))" "crates_ok (crate sample_ue)"
proof -
  have "tlb sample_user = tlb empty_space" by (simp add: sample_user_def sample_sys_def empty_space_def)
  then show "as_ok sample_user empty_root" using empty_space_ok by (simp add: as_ok_def pt_ok_def sample_user_def)
  have "from_virt empty_root = 0x2000" by (simp add: from_virt_sub)
  then show "out_addr (ttbr0 sample_user) = from_virt empty_root" using out_addr_flags [of "0x2000" 0] by (simp add: sample_user_def)
qed (use empty_space_hole empty_space_free sample_crates_ok in \<open>simp_all add: sample_user_def sample_ue_def\<close>)

theorem phymap_grants_access_witness:
  "\<exists>s' d. handle_syscall Dev sample_ue (sample_ctx 2 0x9000000 0x2000 3) sample_user =
     Some (Inr (set_x0 0x50000000 (sample_ctx 2 0x9000000 0x2000 3), s')) \<and>
     user_walk s' 0x50001004 = Some (0x9001004, d) \<and> \<not> bit d 7 \<and> bit d 2"
proof -
  let ?e = "sample_ctx 2 0x9000000 0x2000 3"
  have e: "gpr ?e ! 8 = 2" "gpr ?e \<noteq> []" by simp_all
  have p: "0x9000000 = unat (gpr ?e ! 0)" "0x9000000 mod 4096 = (0 :: nat)" "0x9000000 + 0x2000 \<le> (2 :: nat) ^ 48" by simp_all
  have n: "0x2000 = unat (gpr ?e ! 1)" "0x2000 mod 4096 = (0 :: nat)" "(0x50000000 :: nat) mod 2 ^ 30 + 0x2000 \<le> 2 ^ 30" by simp_all
  have mem: "3 * (0x2000 div 4096) \<le> card (free_pages (PAGE_ALLOC sample_user))" using sample_user_ok(5) by simp
  from phymap_grants_access [OF sample_user_ok(6) e sample_user_ok(1-3) p n(1,2) sample_user_ok(4) n(3) mem, of Dev]
  obtain s' where s': "handle_syscall Dev sample_ue ?e sample_user = Some (Inr (set_x0 0x50000000 ?e, s'))"
    and walk: "\<forall>i < 0x2000. user_walk sample_user (0x50000000 + i) = None \<and>
      (\<exists>d. user_walk s' (0x50000000 + i) = Some (0x9000000 + i, d) \<and> bit d 6 \<and> (bit d 7 \<longleftrightarrow> \<not> bit (gpr ?e ! 2) 0) \<and> (bit d 2 \<longleftrightarrow> bit (gpr ?e ! 2) 1))"
    by auto
  from walk [rule_format, of "0x1004"] have "\<exists>d. user_walk s' 0x50001004 = Some (0x9001004, d) \<and> \<not> bit d 7 \<and> bit d 2" by auto
  with s' show ?thesis by blast
qed

text \<open>
  C20: \<open>MemMap\<close> gives the program pages that nobody used and nobody else will be given, mapped
  consecutively at the address in \<open>x0\<close>. They are not cleared: the program reads what the kernel, or
  another user of the pages, left there.
\<close>

theorem memmap_gives_fresh_pages:
  assumes c: "crates_ok (crate ue)" and e: "gpr e ! 8 = 3" "gpr e \<noteq> []"
    and root: "root = INIT_THREAD s + th_page_table (Thread ue)" "as_ok s root" "out_addr (ttbr0 s) = from_virt root"
    and n: "n = unat (gpr e ! 0)" "n mod 4096 = 0" "0 < n"
    and hole: "find_hole (mem s) root 0x50000000 n = Inr (Some v)" "v mod 2 ^ 30 + n \<le> 2 ^ 30"
    and mem: "kalloc b (n div 4096) s = Inr (sl, s1)" "3 * (n div 4096) \<le> card (free_pages (PAGE_ALLOC s1))"
  shows "\<exists>s'. handle_syscall b ue e s = Some (Inr (set_x0 (of_nat v) e, s')) \<and> as_ok s' root \<and>
    pages_at (buf sl) (n div 4096) \<inter> taken (PAGE_ALLOC s) = {} \<and> pages_at (buf sl) (n div 4096) \<subseteq> taken (PAGE_ALLOC s') \<and>
    (\<forall>i < n. (\<exists>d. user_walk s' (v + i) = Some (from_virt (buf sl + i), d) \<and> bit d 6 \<and> (bit d 7 \<longleftrightarrow> \<not> bit (gpr e ! 1) 0)) \<and>
      user_load s' (v + i) = Inr (mem s (buf sl + i)))"
proof -
  let ?attrs = "memmap_attrs (crate ue) (gpr e ! 1)" and ?k = "n div 4096"
  have k: "?k * 4096 = n" "div_ceil n 4096 = ?k" using n(2) by (auto simp: div_ceil_def)
  have inv: "pa_inv (PAGE_ALLOC s)" and lin: "heap_linear (PAGE_ALLOC s)" and tr: "tree (mem s) root (taken (PAGE_ALLOC s))"
    using root(2) by (simp_all add: as_ok_def pt_ok_def)
  from inv mem(1) obtain pa where s1: "s1 = s\<lparr>PAGE_ALLOC := pa\<rparr>" and sl: "in_window (PAGE_ALLOC s) (buf sl) ?k"
    "taken (PAGE_ALLOC s) \<inter> pages_at (buf sl) ?k = {}" "taken pa = taken (PAGE_ALLOC s) \<union> pages_at (buf sl) ?k"
    by (rule kalloc_slice)
  have buf: "buf sl mod 4096 = 0" "0xffffff0000000000 \<le> buf sl" "buf sl + n \<le> 0xffffff8000000000"
    using sl(1) lin k(1) by (simp_all add: in_window_def heap_linear_def)
  have p: "from_virt (buf sl) mod 4096 = 0" "from_virt (buf sl) + n \<le> 2 ^ 48"
    using buf n(3) by (simp_all add: from_virt_sub mod_eq_0_iff_dvd dvd_diff_nat)
  have ok1: "as_ok s1 root" by (rule as_ok_alloc [OF root(2) mem(1)])
  have attrs: "?attrs = 0x300 OR (if bit (gpr e ! 1) 0 then 0x40 else 0xC0) OR (if False then 4 else 0)"
    using attrs_eq(2) [OF c] by simp
  have eq1: "out_addr (ttbr0 s1) = from_virt root" "find_hole (mem s1) root 0x50000000 n = Inr (Some v)" "mem s1 = mem s"
    using root(3) hole(1) by (simp_all add: s1)
  obtain s' g where s': "vmap b root (from_virt (buf sl)) n ?attrs s1 = Inr (v, s')" "as_ok s' root" "remaps s1 s' root g"
    and walk: "\<And>i. i < n \<Longrightarrow> \<exists>d. user_walk s' (v + i) = Some (from_virt (buf sl) + i, d) \<and> bit d 6 \<and> (bit d 7 \<longleftrightarrow> \<not> bit (gpr e ! 1) 0)"
    by (rule vmap_user [OF ok1 eq1(1) n(2) p eq1(2) hole(2) mem(2) attrs]) blast
  have "handle_syscall b ue e s = Some (sys_memmap b ue e s)" using syscall_dispatch(3) [OF c, of e MemMap] e(1) by simp
  then have run: "handle_syscall b ue e s = Some (Inr (set_x0 (of_nat v) e, s'))"
    using mem(1) s'(1) by (simp add: sys_memmap_def Let_def root(1) n(1) [symmetric] k(2) PAGE_SIZE_def slice_as_ptr_def s1)
  have "pages_at (buf sl) ?k \<subseteq> taken (PAGE_ALLOC s')" using remaps_frame(2) [OF s'(3)] sl(3) by (auto simp: s1)
  moreover have "(\<exists>d. user_walk s' (v + i) = Some (from_virt (buf sl + i), d) \<and> bit d 6 \<and> (bit d 7 \<longleftrightarrow> \<not> bit (gpr e ! 1) 0)) \<and>
      user_load s' (v + i) = Inr (mem s (buf sl + i))" if i: "i < n" for i
  proof -
    have page: "buf sl + i - (buf sl + i) mod 4096 \<in> pages_at (buf sl) ?k"
      by (rule page_of_byte) (use i buf(1) k(1) in simp_all)
    with table_byte_page(2) [OF tr] sl(2) have "\<not> is_table_byte (mem s1) root (buf sl + i)" unfolding eq1(3) by blast
    with remaps_keeps(2) [OF s'(3)] page sl(3) have kept: "mem s' (buf sl + i) = mem s (buf sl + i)" by (simp add: s1)
    from walk [OF i] obtain d where d: "user_walk s' (v + i) = Some (from_virt (buf sl) + i, d)" "bit d 6" "bit d 7 \<longleftrightarrow> \<not> bit (gpr e ! 1) 0"
      by blast
    have "from_virt (buf sl + i) = from_virt (buf sl) + i" by (rule from_virt_add) (use buf i in simp_all)
    with d kept user_load_at [OF d(1,2) buf(2)] buf(3) i show ?thesis by simp
  qed
  ultimately show ?thesis using run s'(2) sl(2) by blast
qed

section \<open>Printing\<close>

lemma copy_from_user_ok:
  assumes "\<And>i. i < n \<Longrightarrow> user_load s (p + i) = Inr (f i)" "p + n \<le> 2 ^ 64"
  shows "copy_from_user b p n n s = Inr (map f [0..<n])"
proof -
  have "foldM (\<lambda>i target. bnd (usize_add b p i) (\<lambda>a. bnd (user_load s a) (\<lambda>value. Inr (target @ [value])))) [0..<k] [] = Inr (map f [0..<k])"
    if "k \<le> n" for k
    using that
  proof (induction k)
    case (Suc k)
    then have "p + k < 2 ^ 64" using assms(2) by simp
    with Suc assms(1) [of k] show ?case by (simp add: foldM_append usize_simps)
  qed simp
  then show ?thesis by (simp add: copy_from_user_def)
qed

text \<open>
  C26: \<open>Log\<close> prints the bytes of the program's buffer, the first 256 of them, in order, and nothing else.
\<close>

theorem log_prints_user_bytes:
  assumes c: "crates_ok (crate ue)" and e: "gpr e ! 8 = 1"
    and n: "n = min (unat (gpr e ! 1)) 256" "unat (gpr e ! 0) + n \<le> 2 ^ 64"
    and load: "\<And>i. i < n \<Longrightarrow> user_load s (unat (gpr e ! 0) + i) = Inr (bs ! i)"
  shows "handle_syscall b ue e s = Some (Inr (e, s\<lparr>dev_writes := dev_writes s @ map (\<lambda>i. W8 (uart0_addr s) (bs ! i)) [0..<n]\<rparr>))"
proof -
  have "handle_syscall b ue e s = Some (sys_log b e s)" using syscall_dispatch(1) [OF c, of e Log] e by simp
  then show ?thesis
    using copy_from_user_ok [OF load n(2), of b]
    unfolding sys_log_def Let_def n(1) [symmetric] by (simp add: puts_writes comp_def)
qed

lemma sample_user_heap: "heap_run sample_user (empty_root + 4096) 63"
proof -
  have "pages_at empty_root 1 = {empty_root}" by (auto simp: in_pages_at)
  then have "free_pages (PAGE_ALLOC empty_space) = pages_at (empty_root + 4096) 63"
    using pages_at_rest [of 1 64 empty_root] by (simp add: free_pages_eq empty_space_heap)
  then show ?thesis using empty_space_heap by (simp add: heap_run_def sample_user_def heap_linear_def)
qed

theorem memmap_gives_fresh_pages_witness:
  "\<exists>s' d. handle_syscall Dev sample_ue (sample_ctx 3 0x2000 1 0) sample_user =
     Some (Inr (set_x0 0x50000000 (sample_ctx 3 0x2000 1 0), s')) \<and>
     user_walk s' 0x50001004 = Some (0x4004, d) \<and> \<not> bit d 7 \<and> user_load s' 0x50001004 = Inr 0"
proof -
  let ?e = "sample_ctx 3 0x2000 1 0"
  obtain pa where pa: "pa_alloc Dev (PAGE_ALLOC sample_user) 2 = Inr (Some \<lparr>buf = empty_root + 4096, len = 2 * 4096\<rparr>, pa)"
    "\<And>c. heap_run (sample_user\<lparr>PAGE_ALLOC := pa, mem := c\<rparr>) (empty_root + 4096 + 2 * 4096) (63 - 2)"
    by (rule heap_run_alloc [OF sample_user_heap, of 2 Dev]) auto
  have "pa_inv (PAGE_ALLOC sample_user)" using sample_user_heap by (simp add: heap_run_def)
  from kalloc_ok [OF this, of Dev 2] pa(1)
  have al: "kalloc Dev (0x2000 div 4096) sample_user = Inr (\<lparr>buf = empty_root + 4096, len = 0x2000\<rparr>, sample_user\<lparr>PAGE_ALLOC := pa\<rparr>)" by simp
  have mem: "3 * (0x2000 div 4096) \<le> card (free_pages (PAGE_ALLOC (sample_user\<lparr>PAGE_ALLOC := pa\<rparr>)))"
    using pa(2) by (simp add: heap_run_def card_pages_at)
  have e: "gpr ?e ! 8 = 3" "gpr ?e \<noteq> []" "0x2000 = unat (gpr ?e ! 0)" "0x2000 mod 4096 = (0 :: nat)" "0 < (0x2000 :: nat)"
    "(0x50000000 :: nat) mod 2 ^ 30 + 0x2000 \<le> 2 ^ 30" by simp_all
  from memmap_gives_fresh_pages [OF sample_user_ok(6) e(1,2) sample_user_ok(1-3) e(3-5) sample_user_ok(4) e(6) al mem]
  obtain s' where s': "handle_syscall Dev sample_ue ?e sample_user = Some (Inr (set_x0 0x50000000 ?e, s'))"
    and walk: "\<forall>i < 0x2000. (\<exists>d. user_walk s' (0x50000000 + i) = Some (from_virt (empty_root + 4096 + i), d) \<and> bit d 6 \<and>
      (bit d 7 \<longleftrightarrow> \<not> bit (gpr ?e ! 1) 0)) \<and> user_load s' (0x50000000 + i) = Inr (mem sample_user (empty_root + 4096 + i))"
    by auto
  have "mem sample_user x = 0" "from_virt (empty_root + 0x2004) = 0x4004" for x
    by (simp_all add: sample_user_def empty_space_def from_virt_sub)
  with walk [rule_format, of "0x1004"] have
    "\<exists>d. user_walk s' 0x50001004 = Some (0x4004, d) \<and> \<not> bit d 7" "user_load s' 0x50001004 = Inr 0" by auto
  with s' show ?thesis by blast
qed

theorem log_prints_user_bytes_witness:
  "\<exists>s'. start Dev sample_ue sample_sys = Inr s' \<and> handle_syscall Dev sample_ue (sample_ctx 1 0x10000001 3 0) s' =
     Some (Inr (sample_ctx 1 0x10000001 3 0, s'\<lparr>dev_writes := dev_writes s' @ map (W8 (uart0_addr s')) [2, 3, 4]\<rparr>))"
proof -
  let ?e = "sample_ctx 1 0x10000001 3 0"
  have bin: "INIT_BIN sample_ue = [1, 2, 3, 4]" by (simp add: sample_ue_def)
  obtain s' where s': "start Dev sample_ue sample_sys = Inr s'" "\<forall>i < 4. user_load s' (0x10000000 + i) = Inr ([1, 2, 3, 4] ! i)"
    using start_loads [OF sample_start(3) sample_program(1) sample_start(1,2) sample_program(2-4), of Dev] unfolding bin by auto
  have "3 = min (unat (gpr ?e ! 1)) 256" "unat (gpr ?e ! 0) + 3 \<le> 2 ^ 64" by simp_all
  moreover have "user_load s' (unat (gpr ?e ! 0) + i) = Inr ([2, 3, 4] ! i)" if "i < 3" for i
    using s'(2) [rule_format, of "1 + i"] that by simp
  ultimately have "handle_syscall Dev sample_ue ?e s' =
      Some (Inr (?e, s'\<lparr>dev_writes := dev_writes s' @ map (\<lambda>i. W8 (uart0_addr s') ([2, 3, 4] ! i)) [0..<3]\<rparr>))"
    by (intro log_prints_user_bytes [OF sample_user_ok(6)]) simp_all
  moreover have "map (\<lambda>i. W8 a ([2, 3, 4] ! i)) [0..<3] = map (W8 a) [2, 3, 4]" for a by (simp add: upt_rec)
  ultimately show ?thesis using s'(1) by auto
qed

section \<open>Requests the kernel does not serve\<close>

lemma try_from_unknown:
  assumes "crates_ok c" "7 < (n :: u32)"
  shows "Syscall_try_from c n = None"
proof (cases "Syscall_try_from c n")
  case (Some k)
  with assms(1) have "syscall_nr k = n" by (simp add: crates_ok_def)
  with assms(2) show ?thesis by (cases k) auto
qed

lemma try_from_number: "crates_ok c \<Longrightarrow> n = syscall_nr k \<Longrightarrow> Syscall_try_from c n = Some k"
  by (simp add: crates_ok_def)



section \<open>The device request\<close>

text \<open>The kernel reads the request the program wrote, field by field.\<close>

lemma load_device_ok:
  assumes c: "crates_ok (crate ue)" and e: "gpr e ! 8 = 6" "gpr e ! 1 = 24" "gpr e ! 2 = 1" "unat (gpr e ! 0) + 24 \<le> 2 ^ 64"
    and load: "\<And>i. i < 24 \<Longrightarrow> user_load s (unat (gpr e ! 0) + i) = Inr (gic_bytes g ! i)"
  shows "handle_syscall b ue e s =
    (case init_gic (board ue) b (unat (gicd_base g)) (unat (gicc_base g)) (timer_ppi_interrupt g)
        (timer_clear (console_println ('' user: LoadKernelDevice: '' @ gic_debug g) s)) of
       Inl p \<Rightarrow> Some (Inl p) | Inr s' \<Rightarrow> Some (Inr (set_x0 0 e, s')))"
proof -
  have "map ((!) (gic_bytes g)) [0..<24] = gic_bytes g" using map_nth [of "gic_bytes g"] by (simp add: gic_bytes_length GicAndTimer_size_def del: upt_rec_numeral)
  with copy_from_user_ok [OF load e(4), of b] have "copy_from_user b (unat (gpr e ! 0)) 24 24 s = Inr (gic_bytes g)" by simp
  moreover have "handle_syscall b ue e s = Some (sys_load_kernel_device b ue e s)"
    using syscall_dispatch(6) [OF c, of e LoadKernelDevice] e(1) by simp
  ultimately show ?thesis using e(2,3)
    by (simp add: sys_load_kernel_device_def GicAndTimer_ID_def GicAndTimer_size_def Let_def gic_bytes_roundtrip bnd_def split: sum.splits)
qed

section \<open>The address space under system calls\<close>

text \<open>Part of the state untouched, in particular the address space.\<close>

definition keeps :: "'z sys_scheme \<Rightarrow> 'z sys_scheme \<Rightarrow> bool" where
  "keeps s s' \<longleftrightarrow> mem s' = mem s \<and> PAGE_ALLOC s' = PAGE_ALLOC s \<and> tlb s' = tlb s \<and> ttbr0 s' = ttbr0 s \<and> INIT_THREAD s' = INIT_THREAD s"

lemma keeps_trans: "keeps s s1 \<Longrightarrow> keeps s1 s2 \<Longrightarrow> keeps s s2"
  by (simp add: keeps_def)

lemma as_ok_keeps: "keeps s s' \<Longrightarrow> as_ok s root \<Longrightarrow> as_ok s' root"
  by (simp add: keeps_def as_ok_def pt_ok_def)

lemma mmio_keeps:
  "mmio_write b a off v s = Inr s' \<Longrightarrow> keeps s s'" "mmio_read h b a off s = Inr (w, s') \<Longrightarrow> keeps s s'"
  by (auto simp: mmio_write_def mmio_read_def keeps_def returns_iff)

lemma init_gic_keeps:
  assumes "init_gic h b d c p s = Inr s'"
  shows "keeps s s'"
  using assms unfolding init_gic_def Let_def
  by (auto simp: returns_iff split: prod.splits dest!: mmio_keeps) (simp add: keeps_def println_soc)

lemma handle_irq_keeps: "handle_irq h b s = Inr s' \<Longrightarrow> keeps s s'"
  unfolding handle_irq_def Let_def
  by (auto simp: returns_iff println_soc timer_clear_def keeps_def split: prod.splits if_splits dest!: mmio_keeps)

lemma time_keeps: "timer_get_absolute_time_ms h b s = Inr (t, s') \<Longrightarrow> keeps s s'"
  by (auto simp: timer_get_absolute_time_ms_def Let_def returns_iff keeps_def split: if_splits)

lemma sleep_loop_keeps:
  assumes "sleep_loop h b d s = Some r"
  shows "\<forall>s'. r = Inr s' \<longrightarrow> keeps s s'"
proof (rule sleep_loop.raw_induct [where P = "\<lambda>h b d s r. \<forall>s'. r = Inr s' \<longrightarrow> keeps s s'", OF _ assms], intro allI impI)
  fix f h b d and s :: "'z sys_scheme" and r s'
  assume IH: "\<And>h b d s r. f h b d s = Some r \<Longrightarrow> \<forall>s'. r = Inr s' \<longrightarrow> keeps s (s' :: 'z sys_scheme)" and r: "r = Inr s'"
    and body: "(case timer_get_absolute_time_ms h b s of Inl p \<Rightarrow> Some (Inl p)
      | Inr (now, s) \<Rightarrow> let sleep_left = (if now \<le> d then d - now else 0) in
          if sleep_left = 0 then Some (Inr s)
          else (case timer_set_timeout h b sleep_left s of Inl p \<Rightarrow> Some (Inl p) | Inr s \<Rightarrow> f h b d s)) = Some r"
  from body r obtain now t where now: "timer_get_absolute_time_ms h b s = Inr (now, t)" by (auto split: sum.splits)
  have body': "(if (if now \<le> d then d - now else 0) = 0 then Some (Inr t)
      else (case timer_set_timeout h b (if now \<le> d then d - now else 0) t of Inl p \<Rightarrow> Some (Inl p) | Inr s \<Rightarrow> f h b d s)) = Some (Inr s')"
    using body by (simp only: now r sum.case prod.case Let_def)
  show "keeps s s'"
  proof (cases "(if now \<le> d then d - now else 0) = 0")
    case True
    with body' have "t = s'" by simp
    with time_keeps [OF now] show ?thesis by simp
  next
    case False
    with body' obtain t' where t': "timer_set_timeout h b (if now \<le> d then d - now else 0) t = Inr t'" "f h b d t' = Some (Inr s')"
      by (cases "timer_set_timeout h b (if now \<le> d then d - now else 0) t") (auto simp del: split_paired_Ex)
    from t'(1) have "keeps t t'" by (auto simp: timer_set_timeout_def Let_def returns_iff keeps_def)
    with time_keeps [OF now] IH [OF t'(2)] show ?thesis using keeps_trans by blast
  qed
qed

lemma vmap_keeps:
  fixes s :: "'z sys_scheme"
  assumes ok: "as_ok s root" and ret: "vmap b root p n attrs s = Inr (v, s')"
  shows "as_ok s' root \<and> ttbr0 s' = ttbr0 s \<and> INIT_THREAD s' = INIT_THREAD s"
proof -
  from ret have "foldM (\<lambda>offset s. bnd (usize_add b v offset) (\<lambda>v. bnd (usize_add b p offset) (\<lambda>p. vmap_at b root v p attrs s)))
      (page_offsets n) s = Inr s'" by (auto simp: vmap_def returns_iff)
  then show ?thesis
  proof (rule foldM_invariant [where P = "\<lambda>s'. as_ok s' root \<and> ttbr0 s' = ttbr0 s \<and> INIT_THREAD s' = INIT_THREAD s"])
    fix off t t' assume t: "as_ok t root \<and> ttbr0 t = ttbr0 s \<and> INIT_THREAD t = INIT_THREAD s"
      and "bnd (usize_add b v off) (\<lambda>v. bnd (usize_add b p off) (\<lambda>p. vmap_at b root v p attrs t)) = Inr t'"
    then obtain u q where u: "vmap_at b root u q attrs t = Inr t'" by (auto simp: returns_iff)
    from vmap_at_returns [OF _ u] t obtain g where "as_ok t' root" "remaps t t' root g" by blast
    with remaps_regs [OF this(2)] t show "as_ok t' root \<and> ttbr0 t' = ttbr0 s \<and> INIT_THREAD t' = INIT_THREAD s" by simp
  qed (use ok in simp)
qed

lemma vunmap_keeps:
  fixes s :: "'z sys_scheme"
  assumes ok: "as_ok s root" and ret: "vunmap b root v n s = Inr s'"
  shows "as_ok s' root \<and> ttbr0 s' = ttbr0 s \<and> INIT_THREAD s' = INIT_THREAD s"
  using ret unfolding vunmap_def
proof (rule foldM_invariant [where P = "\<lambda>s'. as_ok s' root \<and> ttbr0 s' = ttbr0 s \<and> INIT_THREAD s' = INIT_THREAD s"])
  fix off t t' assume t: "as_ok t root \<and> ttbr0 t = ttbr0 s \<and> INIT_THREAD t = INIT_THREAD s"
    and "bnd (usize_add b v off) (\<lambda>v. vunmap_single root v t) = Inr t'"
  then obtain u where u: "vunmap_single root u t = Inr t'" by (auto simp: returns_iff)
  from vunmap_single_returns [OF _ u] t obtain g where "as_ok t' root" "remaps t t' root g" by blast
  with remaps_regs [OF this(2)] t show "as_ok t' root \<and> ttbr0 t' = ttbr0 s \<and> INIT_THREAD t' = INIT_THREAD s" by simp
qed (use ok in simp)

lemma kalloc_keeps:
  fixes s :: "'z sys_scheme"
  assumes "as_ok s root" "kalloc b n s = Inr (sl, s')"
  shows "as_ok s' root \<and> ttbr0 s' = ttbr0 s \<and> INIT_THREAD s' = INIT_THREAD s"
proof -
  from assms(1) have "pa_inv (PAGE_ALLOC s)" by (simp add: as_ok_def pt_ok_def)
  then obtain pa where "s' = s\<lparr>PAGE_ALLOC := pa\<rparr>" using assms(2) by (rule kalloc_slice)
  with as_ok_alloc [OF assms] show ?thesis by simp
qed

lemma keeps_space: "keeps s s' \<Longrightarrow> as_ok s root \<Longrightarrow> as_ok s' root \<and> ttbr0 s' = ttbr0 s \<and> INIT_THREAD s' = INIT_THREAD s"
  using as_ok_keeps by (auto simp: keeps_def)

lemma sys_sleep_keeps:
  assumes "sys_sleep_sec b ue e s = Some (Inr (e', s'))"
  shows "keeps s s'"
proof -
  let ?X = "bnd (timer_get_absolute_time_ms (board ue) b s) (\<lambda>(now, s). bnd (u64_mul b (gpr e ! 0) 1000) (\<lambda>ms.
    bnd (u64_add b now ms) (\<lambda>deadline. Inr (deadline, s))))"
  let ?log = "console_println ('' user: Sleeping for '' @ radix 10 (unat (gpr e ! 0)) @ '' seconds'')"
  obtain d t where X: "?X = Inr (d, t)"
    using assms by (cases ?X) (auto simp: sys_sleep_sec_def)
  then obtain now where t: "timer_get_absolute_time_ms (board ue) b s = Inr (now, t)" by (auto simp: returns_iff)
  have "(case sleep_loop (board ue) b d (?log t) of None \<Rightarrow> None | Some (Inl p) \<Rightarrow> Some (Inl p)
      | Some (Inr s) \<Rightarrow> Some (Inr (set_x0 0 e, s))) = Some (Inr (e', s'))"
    using assms unfolding sys_sleep_sec_def Let_def X sum.case prod.case .
  then have "sleep_loop (board ue) b d (?log t) = Some (Inr s')" by (simp split: option.splits sum.splits)
  with sleep_loop_keeps have "keeps (?log t) s'" by blast
  with time_keeps [OF t] show ?thesis by (simp add: keeps_def println_soc)
qed

lemma syscall_keeps_space:
  fixes s :: "'z sys_scheme"
  assumes ret: "handle_syscall b ue e s = Some (Inr (e', s'))" and ok: "as_ok s (INIT_THREAD s + th_page_table (Thread ue))"
    and ram: "Syscall_try_from (crate ue) (ucast (gpr e ! 8)) \<noteq> Some DownloadMoreRam"
  shows "as_ok s' (INIT_THREAD s + th_page_table (Thread ue)) \<and> ttbr0 s' = ttbr0 s \<and> INIT_THREAD s' = INIT_THREAD s"
proof (cases "Syscall_try_from (crate ue) (ucast (gpr e ! 8))")
  case None
  with ret have "keeps s s'" by (auto simp: handle_syscall_def keeps_def println_soc)
  then show ?thesis using keeps_space ok by blast
next
  case (Some k)
  show ?thesis
  proof (cases k)
    case Exit
    then show ?thesis using ret Some by (simp add: handle_syscall_def)
  next
    case Log
    with ret Some have "sys_log b e s = Inr (e', s')" by (simp add: handle_syscall_def)
    then have "keeps s s'" unfolding sys_log_def Let_def by (auto simp: returns_iff keeps_def puts_writes)
    then show ?thesis using keeps_space ok by blast
  next
    case PhyMap
    with ret Some have "sys_phymap b ue e s = Inr (e', s')" by (simp add: handle_syscall_def)
    then obtain v where "vmap b (INIT_THREAD s + th_page_table (Thread ue)) (unat (gpr e ! 0)) (unat (gpr e ! 1))
        (phymap_attrs (crate ue) (gpr e ! 2)) s = Inr (v, s')"
      unfolding sys_phymap_def Let_def by (auto simp: returns_iff)
    then show ?thesis using vmap_keeps [OF ok] by blast
  next
    case MemMap
    with ret Some have "sys_memmap b ue e s = Inr (e', s')" by (simp add: handle_syscall_def)
    then obtain sl s1 v where al: "kalloc b (div_ceil (unat (gpr e ! 0)) PAGE_SIZE) s = Inr (sl, s1)" and vm:
      "vmap b (INIT_THREAD s + th_page_table (Thread ue)) (from_virt (slice_as_ptr sl)) (unat (gpr e ! 0))
        (memmap_attrs (crate ue) (gpr e ! 1)) s1 = Inr (v, s')"
      unfolding sys_memmap_def Let_def by (auto simp: returns_iff)
    from kalloc_keeps [OF ok al] vmap_keeps [OF _ vm] show ?thesis by simp
  next
    case MemUnmap
    with ret Some have "sys_memunmap b ue e s = Inr (e', s')" by (simp add: handle_syscall_def)
    then have "vunmap b (INIT_THREAD s + th_page_table (Thread ue)) (unat (gpr e ! 0)) (unat (gpr e ! 1)) s = Inr s'"
      unfolding sys_memunmap_def Let_def by (auto simp: returns_iff)
    then show ?thesis using vunmap_keeps [OF ok] by blast
  next
    case DownloadMoreRam
    then show ?thesis using ram Some by simp
  next
    case LoadKernelDevice
    with ret Some have "sys_load_kernel_device b ue e s = Inr (e', s')" by (simp add: handle_syscall_def)
    then have "keeps s s'"
      unfolding sys_load_kernel_device_def Let_def
      by (auto simp: returns_iff timer_clear_def println_soc keeps_def split: if_splits dest!: init_gic_keeps)
    then show ?thesis using keeps_space ok by blast
  next
    case SleepSec
    then have "sys_sleep_sec b ue e s = Some (Inr (e', s'))" using ret Some by (simp add: handle_syscall_def)
    then show ?thesis using sys_sleep_keeps keeps_space ok by blast
  qed
qed

text \<open>
  What may happen while a program runs: it makes system calls, with any registers; interrupts are
  handled; and the hardware caches translations and drops cached ones.
\<close>

inductive user_step :: "profile \<Rightarrow> user_env \<Rightarrow> sys \<Rightarrow> sys \<Rightarrow> bool" for b ue where
  step_syscall: "handle_syscall b ue e s = Some (Inr (e', s')) \<Longrightarrow>
     Syscall_try_from (crate ue) (ucast (gpr e ! 8)) \<noteq> Some DownloadMoreRam \<Longrightarrow> user_step b ue s s'"
| step_irq: "handle_irq (board ue) b s = Inr s' \<Longrightarrow> user_step b ue s s'"
| step_cache: "v < 2 ^ 39 \<Longrightarrow> user_walk s v = Some (p, d) \<Longrightarrow> user_step b ue s (s\<lparr>tlb := (tlb s)(v \<mapsto> d)\<rparr>)"
| step_drop: "user_step b ue s (s\<lparr>tlb := (tlb s)(v := None)\<rparr>)"

definition space_ok :: "user_env \<Rightarrow> sys \<Rightarrow> bool" where
  "space_ok ue s \<longleftrightarrow> as_ok s (INIT_THREAD s + th_page_table (Thread ue)) \<and>
     out_addr (ttbr0 s) = from_virt (INIT_THREAD s + th_page_table (Thread ue))"

lemma user_step_space:
  assumes "user_step b ue s s'" "space_ok ue s"
  shows "space_ok ue s' \<and> INIT_THREAD s' = INIT_THREAD s"
  using assms(1)
proof cases
  case (step_syscall e e')
  from syscall_keeps_space [OF step_syscall(1) _ step_syscall(2)] assms(2) show ?thesis by (auto simp: space_ok_def)
next
  case step_irq
  from keeps_space [OF handle_irq_keeps [OF this]] assms(2) show ?thesis by (auto simp: space_ok_def)
next
  case (step_cache v p d)
  let ?root = "INIT_THREAD s + th_page_table (Thread ue)"
  have ok: "as_ok s ?root" "out_addr (ttbr0 s) = from_virt ?root" using assms(2) by (simp_all add: space_ok_def)
  have "translate (mem s) ?root v = Some (p, d)" using step_cache user_walk_translate [OF step_cache(2) ok(2)] by simp
  then have "as_ok s' ?root" using translate_as [OF ok(1) step_cache(2)] ok(1) step_cache(1) by (auto simp: as_ok_def pt_ok_def split: if_splits)
  with ok(2) step_cache(1) show ?thesis by (simp add: space_ok_def)
next
  case (step_drop v)
  with assms(2) show ?thesis by (auto simp: space_ok_def as_ok_def pt_ok_def split: if_splits)
qed



end
