(* ===== verification/User_Lib.thy ===== *)
theory User_Lib
  imports Syscalls
begin

text \<open>
  The library of the init program, \<open>src/init/src/utils.rs\<close>: the wrappers of the system calls, printing
  through \<open>Log\<close>, and hex dumps.

  User code runs on a world it does not see into, of some type \<open>'w\<close>. What it can do there is collected
  in a record: make a system call, take the address of a value (the compiler decides where the value
  is), load a byte, read the counter. \<open>kernel_os\<close> is the record for a program that runs on this
  kernel.
\<close>

section \<open>User programs\<close>

text \<open>
  \<open>svc\<close> gets the registers the code sets and returns \<open>x0\<close>; the call may panic the kernel, or not return.
  \<open>fmt_pieces\<close> is how \<open>core::fmt\<close> cuts a text into the strings it passes to \<open>write_str\<close>.
\<close>

record 'w os =
  svc :: "(nat \<times> u64) list \<Rightarrow> 'w \<Rightarrow> (u64 \<times> 'w) res option"
  addr_of :: "u8 list \<Rightarrow> 'w \<Rightarrow> usize \<times> 'w"
  load_u8 :: "usize \<Rightarrow> 'w \<Rightarrow> u8 res"
  cntpct_el0 :: "'w \<Rightarrow> (u64 \<times> 'w) res"
  cntfrq_el0 :: "'w \<Rightarrow> (u64 \<times> 'w) res"
  fmt_pieces :: "string \<Rightarrow> string list"
  os_crates :: crates

text \<open>
  User code returns a value or panics itself; both leave a world. The other outcomes are those of the
  kernel: it panics (or halts on an exception of the program), or never returns to the program.
\<close>

datatype 'a uval = Val 'a | UPanic panic

type_synonym ('w, 'a) prog = "'w \<Rightarrow> ('a uval \<times> 'w) res option"

definition uret :: "'a \<Rightarrow> ('w, 'a) prog" where
  "uret x w = Some (Inr (Val x, w))"

definition upanic :: "panic \<Rightarrow> ('w, 'a) prog" where
  "upanic p w = Some (Inr (UPanic p, w))"

definition ubind :: "('w, 'a) prog \<Rightarrow> ('a \<Rightarrow> ('w, 'b) prog) \<Rightarrow> ('w, 'b) prog" where
  "ubind m f w = (case m w of
     None \<Rightarrow> None
   | Some (Inl p) \<Rightarrow> Some (Inl p)
   | Some (Inr (UPanic p, w)) \<Rightarrow> Some (Inr (UPanic p, w))
   | Some (Inr (Val x, w)) \<Rightarrow> f x w)"

text \<open>Steps taken from the environment: a panic of the kernel, and one of the program's own.\<close>

definition env_step :: "('w \<Rightarrow> ('a \<times> 'w) res) \<Rightarrow> ('w, 'a) prog" where
  "env_step f w = (case f w of Inl p \<Rightarrow> Some (Inl p) | Inr (x, w) \<Rightarrow> Some (Inr (Val x, w)))"

definition own_step :: "'a res \<Rightarrow> ('w, 'a) prog" where
  "own_step r = (case r of Inl p \<Rightarrow> upanic p | Inr x \<Rightarrow> uret x)"

definition syscall :: "'w os \<Rightarrow> (nat \<times> u64) list \<Rightarrow> ('w, u64) prog" where
  "syscall os ins w = (case svc os ins w of
     None \<Rightarrow> None
   | Some (Inl p) \<Rightarrow> Some (Inl p)
   | Some (Inr (x0, w)) \<Rightarrow> Some (Inr (Val x0, w)))"

section \<open>System calls\<close>

definition user_exit :: "'w os \<Rightarrow> u32 \<Rightarrow> ('w, unit) prog" where
  "user_exit os code =
     ubind (syscall os [(0, ucast code), (8, ucast (syscall_nr Exit))]) (\<lambda>_. uret ())"

definition log_buf :: "'w os \<Rightarrow> usize \<Rightarrow> usize \<Rightarrow> ('w, unit) prog" where
  "log_buf os ptr l =
     ubind (syscall os [(0, of_nat ptr), (1, of_nat l), (8, ucast (syscall_nr Log))]) (\<lambda>_. uret ())"

text \<open>A negative result is an error code.\<close>

definition to_result :: "crates \<Rightarrow> u64 \<Rightarrow> KError + u64" where
  "to_result c x = (if sint x < 0 then Inl (KError_from_primitive c (ucast x)) else Inr x)"

definition phy_map :: "'w os \<Rightarrow> usize \<Rightarrow> usize \<Rightarrow> u64 \<Rightarrow> ('w, KError + usize) prog" where
  "phy_map os phy_addr l flags =
     ubind (syscall os [(0, of_nat phy_addr), (1, of_nat l), (2, flags), (8, ucast (syscall_nr PhyMap))]) (\<lambda>virt_addr.
     uret (map_sum id unat (to_result (os_crates os) virt_addr)))"

definition mem_map :: "'w os \<Rightarrow> usize \<Rightarrow> u64 \<Rightarrow> ('w, KError + usize) prog" where
  "mem_map os l flags =
     ubind (syscall os [(0, of_nat l), (1, flags), (8, ucast (syscall_nr MemMap))]) (\<lambda>virt_addr.
     uret (map_sum id unat (to_result (os_crates os) virt_addr)))"

definition mem_unmap :: "'w os \<Rightarrow> usize \<Rightarrow> usize \<Rightarrow> ('w, KError + unit) prog" where
  "mem_unmap os virt_addr l =
     ubind (syscall os [(0, of_nat virt_addr), (1, of_nat l), (8, ucast (syscall_nr MemUnmap))]) (\<lambda>r.
     uret (map_sum id (\<lambda>_. ()) (to_result (os_crates os) r)))"

definition download_more_ram :: "'w os \<Rightarrow> usize \<Rightarrow> usize \<Rightarrow> ('w, KError + unit) prog" where
  "download_more_ram os phy_addr l =
     ubind (syscall os [(0, of_nat phy_addr), (1, of_nat l), (8, ucast (syscall_nr DownloadMoreRam))]) (\<lambda>r.
     uret (map_sum id (\<lambda>_. ()) (to_result (os_crates os) r)))"

text \<open>The request is given by its identifier and its bytes.\<close>

definition load_kernel_device :: "'w os \<Rightarrow> u32 \<Rightarrow> u8 list \<Rightarrow> ('w, KError + unit) prog" where
  "load_kernel_device os ident req =
     ubind (env_step (\<lambda>w. Inr (addr_of os req w))) (\<lambda>req_ptr.
     ubind (syscall os [(0, of_nat req_ptr), (1, of_nat (length req)), (2, ucast ident), (8, ucast (syscall_nr LoadKernelDevice))]) (\<lambda>r.
     uret (map_sum id (\<lambda>_. ()) (to_result (os_crates os) r))))"

definition sleep_sec :: "'w os \<Rightarrow> u64 \<Rightarrow> ('w, unit) prog" where
  "sleep_sec os sec =
     ubind (syscall os [(0, sec), (8, ucast (syscall_nr SleepSec))]) (\<lambda>_. uret ())"

section \<open>Printing\<close>

definition write_str :: "'w os \<Rightarrow> string \<Rightarrow> ('w, unit) prog" where
  "write_str os str =
     ubind (env_step (\<lambda>w. Inr (addr_of os (as_bytes str) w))) (\<lambda>ptr. log_buf os ptr (length (as_bytes str)))"

primrec write_all :: "'w os \<Rightarrow> string list \<Rightarrow> ('w, unit) prog" where
  "write_all os [] = uret ()"
| "write_all os (str # strs) = ubind (write_str os str) (\<lambda>_. write_all os strs)"

definition user_print :: "'w os \<Rightarrow> string \<Rightarrow> ('w, unit) prog" where
  "user_print os str = write_all os (fmt_pieces os str)"

definition user_println :: "'w os \<Rightarrow> string \<Rightarrow> ('w, unit) prog" where
  "user_println os str = user_print os (str @ [CHR 0x0A])"

text \<open>The loop of the hex dumps over the bytes from index \<open>i\<close> on.\<close>

primrec user_dump_from :: "'w os \<Rightarrow> nat \<Rightarrow> u8 list \<Rightarrow> ('w, unit) prog" where
  "user_dump_from os i [] = uret ()"
| "user_dump_from os i (byte # bytes) =
     ubind (user_print os (hex2 byte)) (\<lambda>_.
     ubind (if i mod 4 = 3 then user_print os '' '' else uret ()) (\<lambda>_.
     ubind (if i mod 32 = 31 then user_println os '''' else uret ()) (\<lambda>_.
     user_dump_from os (i + 1) bytes)))"

definition user_dump_hex_slice :: "'w os \<Rightarrow> u8 list \<Rightarrow> ('w, unit) prog" where
  "user_dump_hex_slice os val = ubind (user_dump_from os 0 val) (\<lambda>_. user_println os '''')"

text \<open>A slice of the program's memory; its bytes are loaded when they are used.\<close>

primrec load_slice :: "'w os \<Rightarrow> usize \<Rightarrow> nat \<Rightarrow> ('w, u8 list) prog" where
  "load_slice os ptr 0 = uret []"
| "load_slice os ptr (Suc n) =
     ubind (load_slice os ptr n) (\<lambda>bs.
     ubind (env_step (\<lambda>w. map_sum id (\<lambda>x. (x, w)) (load_u8 os (ptr + n) w))) (\<lambda>x. uret (bs @ [x])))"

text \<open>\<open>dump_hex\<close> of a value of \<open>sz\<close> bytes at \<open>val\<close>, loading byte after byte.\<close>

primrec dump_value :: "'w os \<Rightarrow> usize \<Rightarrow> nat \<Rightarrow> ('w, unit) prog" where
  "dump_value os val 0 = uret ()"
| "dump_value os val (Suc i) =
     ubind (dump_value os val i) (\<lambda>_.
     ubind (env_step (\<lambda>w. map_sum id (\<lambda>x. (x, w)) (load_u8 os (val + i) w))) (\<lambda>byte.
     ubind (user_print os (hex2 byte)) (\<lambda>_.
     ubind (if i mod 4 = 3 then user_print os '' '' else uret ()) (\<lambda>_.
     if i mod 32 = 31 then user_println os '''' else uret ()))))"

definition user_dump_hex :: "'w os \<Rightarrow> usize \<Rightarrow> nat \<Rightarrow> ('w, unit) prog" where
  "user_dump_hex os val sz = ubind (dump_value os val sz) (\<lambda>_. user_println os '''')"

section \<open>Running on the kernel\<close>

record user = sys +
  regs :: ExceptionContext \<comment> \<open>the registers of the program\<close>

definition set_regs :: "(nat \<times> u64) list \<Rightarrow> ExceptionContext \<Rightarrow> ExceptionContext" where
  "set_regs ins e = fold (\<lambda>(r, v) e. e\<lparr>gpr := (gpr e)[r := v]\<rparr>) ins e"

text \<open>
  The call traps into the kernel, which works on the saved registers and restores them; see theory
  \<open>Exceptions\<close> for the code in between.
\<close>

definition kernel_svc :: "profile \<Rightarrow> user_env \<Rightarrow> (nat \<times> u64) list \<Rightarrow> 'z user_scheme \<Rightarrow> (u64 \<times> 'z user_scheme) res option" where
  "kernel_svc b ue ins s =
     (case handle_syscall b ue (set_regs ins (regs s)) s of
        None \<Rightarrow> None
      | Some (Inl p) \<Rightarrow> Some (Inl p)
      | Some (Inr (e, s')) \<Rightarrow> Some (Inr (gpr e ! 0, s'\<lparr>regs := e\<rparr>)))"

text \<open>User mode may read the counter when bit 0 of \<open>CNTKCTL_EL1\<close> is set, the frequency when bit 0 or 1 is.\<close>

definition el0_cntpct :: "hw \<Rightarrow> 'z soc_scheme \<Rightarrow> (u64 \<times> 'z soc_scheme) res" where
  "el0_cntpct h s =
     (if bit (cntkctl s) 0 then Inr (cntpct h (time_reads s), s\<lparr>time_reads := Suc (time_reads s)\<rparr>) else Inl Trapped)"

definition el0_cntfrq :: "hw \<Rightarrow> 'z soc_scheme \<Rightarrow> (u64 \<times> 'z soc_scheme) res" where
  "el0_cntfrq h s = (if bit (cntkctl s) 0 \<or> bit (cntkctl s) 1 then Inr (cntfrq h, s) else Inl Trapped)"

definition kernel_os ::
  "profile \<Rightarrow> user_env \<Rightarrow> (u8 list \<Rightarrow> user \<Rightarrow> usize \<times> user) \<Rightarrow> (string \<Rightarrow> string list) \<Rightarrow> user os" where
  "kernel_os b ue addr pieces = \<lparr>svc = kernel_svc b ue, addr_of = addr, load_u8 = (\<lambda>a s. user_load s a),
     cntpct_el0 = el0_cntpct (board ue), cntfrq_el0 = el0_cntfrq (board ue), fmt_pieces = pieces, os_crates = crate ue\<rparr>"

section \<open>Laws of programs\<close>

named_theorems prog_simps "what a step of a program does"

lemma ubind_uret [prog_simps]: "ubind (uret x) f w = f x w"
  by (simp add: ubind_def uret_def)

lemma ubind_upanic [prog_simps]: "ubind (upanic p) f w = Some (Inr (UPanic p, w))"
  by (simp add: ubind_def upanic_def)

lemma ubind_Val: "m w = Some (Inr (Val x, w')) \<Longrightarrow> ubind m f w = f x w'"
  by (simp add: ubind_def)

lemma ubind_UPanic: "m w = Some (Inr (UPanic p, w')) \<Longrightarrow> ubind m f w = Some (Inr (UPanic p, w'))"
  by (simp add: ubind_def)

lemma ubind_panic: "m w = Some (Inl p) \<Longrightarrow> ubind m f w = Some (Inl p)"
  by (simp add: ubind_def)

lemma ubind_assoc: "ubind (ubind m f) g w = ubind m (\<lambda>x. ubind (f x) g) w"
  by (simp add: ubind_def split: option.splits sum.splits prod.splits uval.splits)

lemma ubind_env_step [prog_simps]:
  "ubind (env_step g) f w = (case g w of Inl p \<Rightarrow> Some (Inl p) | Inr (x, w) \<Rightarrow> f x w)"
  by (simp add: ubind_def env_step_def split: sum.splits prod.splits)

lemma ubind_own_step [prog_simps]:
  "ubind (own_step r) f w = (case r of Inl p \<Rightarrow> Some (Inr (UPanic p, w)) | Inr x \<Rightarrow> f x w)"
  by (simp add: own_step_def prog_simps split: sum.splits)

lemma ubind_syscall [prog_simps]:
  "ubind (syscall os ins) f w = (case svc os ins w of None \<Rightarrow> None | Some (Inl p) \<Rightarrow> Some (Inl p) | Some (Inr (x0, w)) \<Rightarrow> f x0 w)"
  by (simp add: ubind_def syscall_def split: option.splits sum.splits prod.splits)

lemma ubind_Val_iff:
  "ubind m f w = Some (Inr (Val y, w'')) \<longleftrightarrow> (\<exists>x w'. m w = Some (Inr (Val x, w')) \<and> f x w' = Some (Inr (Val y, w'')))"
  by (auto simp: ubind_def split: option.splits sum.splits prod.splits uval.splits)

section \<open>Printing on the kernel\<close>

text \<open>The contract between a program and the memory its values are in; \<open>ok\<close> is what the program maintains.\<close>

locale user_memory =
  fixes addr :: "u8 list \<Rightarrow> user \<Rightarrow> usize \<times> user" and ok :: "user \<Rightarrow> bool"
  assumes addr_ok: "ok s \<Longrightarrow> length bs \<le> 256 \<Longrightarrow> addr bs s = (a, s') \<Longrightarrow>
      ok s' \<and> a + length bs \<le> 2 ^ 64 \<and> (\<forall>i < length bs. user_load s' (a + i) = Inr (bs ! i))"
    and addr_frame: "ok s \<Longrightarrow> addr bs s = (a, s') \<Longrightarrow> s' = s\<lparr>mem := mem s'\<rparr>"
    and ok_regs: "ok s \<Longrightarrow> length (gpr (regs s)) = 30"
    and ok_update: "ok s \<Longrightarrow> length (gpr e) = 30 \<Longrightarrow> ok (s\<lparr>dev_writes := d, regs := e\<rparr>)"

text \<open>The program has printed: the kernel's own print, but for the memory and the registers of the program.\<close>

definition prints :: "user \<Rightarrow> string \<Rightarrow> user \<Rightarrow> bool" where
  "prints s str s' \<longleftrightarrow> s'\<lparr>mem := mem s, regs := regs s\<rparr> = console_print str s"

lemma prints_refl: "prints s '''' s"
  by (simp add: prints_def)

lemma prints_trans:
  assumes "prints s xs s1" "prints s1 ys s2"
  shows "prints s (xs @ ys) s2"
proof -
  have 1: "s1\<lparr>mem := mem s, regs := regs s\<rparr> = console_print xs s" and 2: "s2\<lparr>mem := mem s1, regs := regs s1\<rparr> = console_print ys s1"
    using assms by (simp_all add: prints_def)
  have "s2\<lparr>mem := mem s, regs := regs s\<rparr> = (s2\<lparr>mem := mem s1, regs := regs s1\<rparr>)\<lparr>mem := mem s, regs := regs s\<rparr>" by simp
  also have "\<dots> = console_print ys (s1\<lparr>mem := mem s, regs := regs s\<rparr>)" unfolding 2 by (simp add: print_writes)
  also have "\<dots> = console_print (xs @ ys) s" unfolding 1 by (rule print_print)
  finally show ?thesis by (simp add: prints_def)
qed

text \<open>How \<open>core::fmt\<close> cuts a text does not change it.\<close>

definition pieces_ok :: "(string \<Rightarrow> string list) \<Rightarrow> bool" where
  "pieces_ok pieces \<longleftrightarrow> (\<forall>str. concat (pieces str) = str)"

lemma log_on_kernel:
  fixes s :: user
  assumes c: "crates_ok (crate ue)" and e: "length (gpr (regs s)) = 30" and n: "length bs \<le> 256" "a + length bs \<le> 2 ^ 64"
    and load: "\<And>i. i < length bs \<Longrightarrow> user_load s (a + i) = Inr (bs ! i)"
  obtains e' where "length (gpr e') = 30"
    "kernel_svc b ue [(0, of_nat a), (1, of_nat (length bs)), (8, 1)] s = Some (Inr (gpr e' ! 0, (puts bs s)\<lparr>regs := e'\<rparr>))"
proof -
  define e' where "e' = set_regs [(0, of_nat a), (1, of_nat (length bs)), (8, 1)] (regs s)"
  have g: "gpr e' ! 0 = of_nat a" "gpr e' ! Suc 0 = of_nat (length bs)" "gpr e' ! 8 = 1" "length (gpr e') = 30"
    using e by (simp_all add: e'_def set_regs_def)
  have l: "unat (of_nat (length bs) :: u64) = length bs" using n(1) by (intro unat_of_nat_small) simp
  have "copy_from_user b (unat (gpr e' ! 0)) (length bs) (length bs) s = Inr bs"
  proof (cases "bs = []")
    case True
    then show ?thesis by (simp add: copy_from_user_def)
  next
    case False
    then have "a < 2 ^ 64" using n(2) by (cases bs) simp_all
    then have "unat (of_nat a :: u64) = a" by (rule unat_of_nat_small)
    with copy_from_user_ok [OF load n(2), where b = b] g(1) show ?thesis by (simp add: map_nth)
  qed
  then have "handle_syscall b ue e' s = Some (Inr (e', puts bs s))"
    using syscall_dispatch(1) [OF c, of e' Log, where b = b and s = s] g l n(1) by (simp add: sys_log_def Let_def)
  then show thesis using that [OF g(4)] by (simp add: kernel_svc_def e'_def)
qed

context user_memory
begin

lemma write_str_prints:
  assumes c: "crates_ok (crate ue)" and s: "ok s" and n: "length str \<le> 256"
  shows "\<exists>s'. write_str (kernel_os b ue addr pieces) str s = Some (Inr (Val (), s')) \<and> ok s' \<and> prints s str s'"
proof -
  let ?bs = "as_bytes str"
  obtain a s1 where a: "addr ?bs s = (a, s1)" by (cases "addr ?bs s")
  have n': "length ?bs \<le> 256" using n by (simp add: as_bytes_def)
  have s1: "ok s1" "a + length ?bs \<le> 2 ^ 64" and load: "\<And>i. i < length ?bs \<Longrightarrow> user_load s1 (a + i) = Inr (?bs ! i)"
    using addr_ok [OF s n' a] by blast+
  obtain e where e: "length (gpr e) = 30"
    "kernel_svc b ue [(0, of_nat a), (1, of_nat (length ?bs)), (8, 1)] s1 = Some (Inr (gpr e ! 0, (puts ?bs s1)\<lparr>regs := e\<rparr>))"
    by (rule log_on_kernel [OF c ok_regs [OF s1(1)] n' s1(2) load, of b]) blast
  let ?s' = "(puts ?bs s1)\<lparr>regs := e\<rparr>"
  have "write_str (kernel_os b ue addr pieces) str s = Some (Inr (Val (), ?s'))"
    using a e(2) by (simp add: write_str_def log_buf_def prog_simps kernel_os_def uret_def)
  moreover have "ok ?s'" using ok_update [OF s1(1) e(1)] by (simp add: puts_writes)
  moreover obtain m where "s1 = s\<lparr>mem := m\<rparr>" using addr_frame [OF s a] by blast
  then have "prints s str ?s'" by (simp add: prints_def print_writes puts_writes)
  ultimately show ?thesis by blast
qed

lemma write_all_prints:
  assumes c: "crates_ok (crate ue)"
  shows "ok s \<Longrightarrow> \<forall>str \<in> set strs. length str \<le> 256 \<Longrightarrow>
    \<exists>s'. write_all (kernel_os b ue addr pieces) strs s = Some (Inr (Val (), s')) \<and> ok s' \<and> prints s (concat strs) s'"
proof (induction strs arbitrary: s)
  case Nil
  then show ?case by (simp add: uret_def prints_refl)
next
  case (Cons str strs)
  have "length str \<le> 256" using Cons.prems(2) by simp
  from write_str_prints [OF c Cons.prems(1) this] obtain s1 where
    s1: "write_str (kernel_os b ue addr pieces) str s = Some (Inr (Val (), s1))" "ok s1" "prints s str s1" by blast
  from Cons.IH [OF s1(2)] Cons.prems(2) obtain s2 where
    s2: "write_all (kernel_os b ue addr pieces) strs s1 = Some (Inr (Val (), s2))" "ok s2" "prints s1 (concat strs) s2" by auto
  with prints_trans [OF s1(3) s2(3)] show ?case by (auto simp: ubind_def s1(1))
qed

lemma print_prints:
  assumes c: "crates_ok (crate ue)" and p: "pieces_ok pieces" and s: "ok s" and n: "length str \<le> 256"
  shows "\<exists>s'. user_print (kernel_os b ue addr pieces) str s = Some (Inr (Val (), s')) \<and> ok s' \<and> prints s str s'"
proof -
  have cat: "concat (pieces str) = str" using p by (simp add: pieces_ok_def)
  have "length q \<le> 256" if "q \<in> set (pieces str)" for q
  proof -
    from that obtain xs ys where "pieces str = xs @ q # ys" using split_list by metis
    then have "length q \<le> length (concat (pieces str))" by simp
    with cat n show ?thesis by simp
  qed
  with write_all_prints [OF c s, of "pieces str"] cat show ?thesis by (simp add: user_print_def kernel_os_def)
qed

lemma print_if:
  assumes c: "crates_ok (crate ue)" and p: "pieces_ok pieces" and s: "ok s" and n: "length str \<le> 256"
  shows "\<exists>s'. (if P then user_print (kernel_os b ue addr pieces) str else uret ()) s = Some (Inr (Val (), s')) \<and> ok s' \<and>
    prints s (if P then str else []) s'"
  using print_prints [OF c p s n] s prints_refl by (auto simp: uret_def)

lemma hex2_length: "length (hex2 x) \<le> 256"
proof -
  have "unat x < 256" using unsigned_less [of x] by simp
  then have "length (radix 16 (unat x)) \<le> 2" by (subst radix.simps, subst radix.simps) (simp add: div_less_iff_less_mult)
  then show ?thesis by (simp add: hex2_def hex_pad_def Let_def)
qed

lemma dump_prints:
  assumes c: "crates_ok (crate ue)" and p: "pieces_ok pieces"
  shows "ok s \<Longrightarrow> \<exists>s'. user_dump_from (kernel_os b ue addr pieces) i bs s = Some (Inr (Val (), s')) \<and> ok s' \<and> prints s (hex_text i bs) s'"
proof (induction bs arbitrary: i s)
  case Nil
  then show ?case by (simp add: uret_def prints_refl)
next
  case (Cons byte bs)
  obtain s1 where s1: "user_print (kernel_os b ue addr pieces) (hex2 byte) s = Some (Inr (Val (), s1))" "ok s1" "prints s (hex2 byte) s1"
    using print_prints [OF c p Cons.prems hex2_length] by blast
  obtain s2 where s2: "(if i mod 4 = 3 then user_print (kernel_os b ue addr pieces) '' '' else uret ()) s1 = Some (Inr (Val (), s2))"
    "ok s2" "prints s1 (if i mod 4 = 3 then '' '' else []) s2"
    using print_if [OF c p s1(2), of "'' ''" "i mod 4 = 3" b] by auto
  obtain s3 where s3: "(if i mod 32 = 31 then user_println (kernel_os b ue addr pieces) '''' else uret ()) s2 = Some (Inr (Val (), s3))"
    "ok s3" "prints s2 (if i mod 32 = 31 then [CHR 0x0A] else []) s3"
    using print_if [OF c p s2(2), of "[CHR 0x0A]" "i mod 32 = 31" b] unfolding user_println_def append_Nil by auto
  obtain s4 where s4: "user_dump_from (kernel_os b ue addr pieces) (i + 1) bs s3 = Some (Inr (Val (), s4))" "ok s4" "prints s3 (hex_text (i + 1) bs) s4"
    using Cons.IH [OF s3(2)] by blast
  have "user_dump_from (kernel_os b ue addr pieces) i (byte # bs) s = Some (Inr (Val (), s4))"
    unfolding user_dump_from.simps by (simp only: ubind_def s1(1) s2(1) s3(1) s4(1) option.case sum.case prod.case uval.case)
  moreover have "prints s (hex_text i (byte # bs)) s4"
    unfolding hex_text.simps by (intro prints_trans [OF s1(3)] prints_trans [OF s2(3)] prints_trans [OF s3(3)] s4(3))
  ultimately show ?case using s4(2) by blast
qed

lemma dump_slice_prints:
  assumes c: "crates_ok (crate ue)" and p: "pieces_ok pieces" and s: "ok s"
  shows "\<exists>s'. user_dump_hex_slice (kernel_os b ue addr pieces) bs s = Some (Inr (Val (), s')) \<and> ok s' \<and>
    s'\<lparr>mem := mem s, regs := regs s\<rparr> = dump_hex_slice bs s"
proof -
  obtain s1 where s1: "user_dump_from (kernel_os b ue addr pieces) 0 bs s = Some (Inr (Val (), s1))" "ok s1" "prints s (hex_text 0 bs) s1"
    using dump_prints [OF c p s] by blast
  obtain s2 where s2: "user_print (kernel_os b ue addr pieces) [CHR 0x0A] s1 = Some (Inr (Val (), s2))" "ok s2" "prints s1 [CHR 0x0A] s2"
    using print_prints [OF c p s1(2), of "[CHR 0x0A]" b] by auto
  have "user_dump_hex_slice (kernel_os b ue addr pieces) bs s = Some (Inr (Val (), s2))"
    using s2(1) by (simp add: user_dump_hex_slice_def user_println_def ubind_def s1(1))
  moreover have "s2\<lparr>mem := mem s, regs := regs s\<rparr> = dump_hex_slice bs s"
    using prints_trans [OF s1(3) s2(3)] by (simp add: prints_def dump_hex_slice_def dump_hex_from_text console_println_def print_print)
  ultimately show ?thesis using s2(2) by blast
qed

end

section \<open>Values on the stack\<close>

text \<open>Stores outside the tables leave the address space alone.\<close>

lemma as_ok_store:
  assumes ok: "as_ok s root" and m: "\<And>x. is_table_byte (mem s) root x \<Longrightarrow> m x = mem s x"
  shows "as_ok (s\<lparr>mem := m\<rparr>) root" "u < 2 ^ 39 \<Longrightarrow> translate m root u = translate (mem s) root u"
    "is_table_byte m root x = is_table_byte (mem s) root x"
proof -
  have rd: "read_u64 m (t + 8 * i) = read_u64 (mem s) (t + 8 * i)" if "wf_path p" "table_at (mem s) p root = Some t" "i < 512" for p t i
    using that by (intro read_u64_cong m) (auto simp: is_table_byte_def intro!: exI [of _ p])
  have at: "table_at m q root = table_at (mem s) q root" if "wf_path q" for q
    by (rule table_at_cong [OF rd that])
  have lf: "leaf m root u = leaf (mem s) root u" if "u < 2 ^ 39" for u
    using wf_va_path [OF that] leaf_idx_bound [of u] by (auto simp: leaf_def at rd split: option.splits)
  have tr: "tree (mem s) root (taken (PAGE_ALLOC s))" using ok by (simp add: as_ok_def pt_ok_def)
  have "tree m root (taken (PAGE_ALLOC s))" by (rule tree_cong [OF tr order.refl]) (rule rd)
  with ok show as: "as_ok (s\<lparr>mem := m\<rparr>) root" by (simp add: as_ok_def pt_ok_def lf)
  show "translate m root u = translate (mem s) root u" if "u < 2 ^ 39"
    using translate_as [OF ok that] translate_as [OF as that] by (simp add: lf [OF that])
  show "is_table_byte m root x = is_table_byte (mem s) root x" by (simp add: is_table_byte_def at cong: conj_cong)
qed

text \<open>A program that keeps its values, one at a time, in the lowest bytes of its stack.\<close>

definition stack_value :: "user_env \<Rightarrow> u8 list \<Rightarrow> user \<Rightarrow> usize \<times> user" where
  "stack_value ue bs s =
     (unat DEFAULT_SP - 0x4000, s\<lparr>mem := write_slice (mem s) (INIT_THREAD s + th_stack (Thread ue)) bs\<rparr>)"

definition stack_ok :: "user_env \<Rightarrow> user \<Rightarrow> bool" where
  "stack_ok ue s \<longleftrightarrow> length (gpr (regs s)) = 30 \<and>
     (let root = INIT_THREAD s + th_page_table (Thread ue); st = INIT_THREAD s + th_stack (Thread ue) in
      as_ok s root \<and> out_addr (ttbr0 s) = from_virt root \<and> 0xffffff0000000000 \<le> st \<and> st + 256 \<le> 0xffffff8000000000 \<and>
      (\<forall>i < 256. \<not> is_table_byte (mem s) root (st + i) \<and>
         (\<exists>e. translate (mem s) root (0x7FFC000 + i) = Some (from_virt st + i, e) \<and> bit e 6)))"

lemma stack_ok_value:
  assumes s: "stack_ok ue s" and n: "length bs \<le> 256" and a: "stack_value ue bs s = (a, s')"
  shows "stack_ok ue s'" "i < length bs \<Longrightarrow> user_load s' (a + i) = Inr (bs ! i)"
    "is_table_byte (mem s') (INIT_THREAD s + th_page_table (Thread ue)) x = is_table_byte (mem s) (INIT_THREAD s + th_page_table (Thread ue)) x"
proof -
  let ?root = "INIT_THREAD s + th_page_table (Thread ue)" and ?st = "INIT_THREAD s + th_stack (Thread ue)"
  let ?m = "write_slice (mem s) ?st bs"
  have ok: "as_ok s ?root" "out_addr (ttbr0 s) = from_virt ?root" "0xffffff0000000000 \<le> ?st" "?st + 256 \<le> 0xffffff8000000000"
    and st: "\<And>i. i < 256 \<Longrightarrow> \<not> is_table_byte (mem s) ?root (?st + i)"
      "\<And>i. i < 256 \<Longrightarrow> \<exists>e. translate (mem s) ?root (0x7FFC000 + i) = Some (from_virt ?st + i, e) \<and> bit e 6"
    using s by (simp_all add: stack_ok_def Let_def)
  have s': "s' = s\<lparr>mem := ?m\<rparr>" "a = 0x7FFC000" using a by (simp_all add: stack_value_def DEFAULT_SP_def)
  have "?m x = mem s x" if "is_table_byte (mem s) ?root x" for x
  proof -
    have "\<not> (?st \<le> x \<and> x < ?st + length bs)"
    proof
      assume "?st \<le> x \<and> x < ?st + length bs"
      then have "?st + (x - ?st) = x" "x - ?st < 256" using n by linarith+
      with st(1) [of "x - ?st"] that show False by simp
    qed
    then show ?thesis unfolding write_slice_def by (rule if_not_P)
  qed
  note keep = as_ok_store [OF ok(1) this]
  have tr: "\<exists>e. translate ?m ?root (0x7FFC000 + i) = Some (from_virt ?st + i, e) \<and> bit e 6" if "i < 256" for i
    using keep(2) [of "0x7FFC000 + i"] st(2) [OF that] that by simp
  then show "stack_ok ue s'"
    using s keep(1,3) st(1) by (simp add: stack_ok_def Let_def s')
  show "is_table_byte (mem s') ?root x = is_table_byte (mem s) ?root x" using keep(3) by (simp add: s')
  assume i: "i < length bs"
  then obtain e where e: "translate ?m ?root (0x7FFC000 + i) = Some (from_virt ?st + i, e)" "bit e 6" using tr [of i] n by auto
  have "user_walk s' (a + i) = Some (from_virt ?st + i, e)"
    using user_walk_translate [of "0x7FFC000 + i" s' ?root] ok(2) i n e(1) by (simp add: s')
  from user_load_at [OF this e(2) ok(3)] ok(4) i n show "user_load s' (a + i) = Inr (bs ! i)" by (simp add: s' write_slice_def)
qed

interpretation stack: user_memory "stack_value ue" "stack_ok ue" for ue
proof unfold_locales
  fix s :: user and bs a s'
  assume s: "stack_ok ue s" and a: "stack_value ue bs s = (a, s')"
  show "s' = s\<lparr>mem := mem s'\<rparr>" using a by (auto simp: stack_value_def)
  assume n: "length bs \<le> 256"
  have "a + length bs \<le> 2 ^ 64" using a n by (auto simp: stack_value_def DEFAULT_SP_def)
  with stack_ok_value(1,2) [OF s n a] show "stack_ok ue s' \<and> a + length bs \<le> 2 ^ 64 \<and> (\<forall>i < length bs. user_load s' (a + i) = Inr (bs ! i))" by blast
next
  fix s :: user and e :: ExceptionContext and d
  assume "stack_ok ue s"
  then show "length (gpr (regs s)) = 30" by (simp add: stack_ok_def)
  assume "length (gpr e) = 30"
  with \<open>stack_ok ue s\<close> show "stack_ok ue (s\<lparr>dev_writes := d, regs := e\<rparr>)" by (simp add: stack_ok_def Let_def as_ok_def pt_ok_def)
qed

section \<open>Properties\<close>

text \<open>
  C23: the program's hex dump and the kernel's are the same: whatever the bytes, however \<open>core::fmt\<close> cuts
  the text and wherever the compiler keeps it, the program's dump returns and does to the machine what
  the kernel's does, apart from the program's own memory and registers.
\<close>

theorem user_dump_matches_kernel:
  assumes "user_memory addr ok" "crates_ok (crate ue)" "pieces_ok pieces" "ok s"
  shows "\<exists>s'. user_dump_hex_slice (kernel_os b ue addr pieces) bs s = Some (Inr (Val (), s')) \<and>
    s'\<lparr>mem := mem s, regs := regs s\<rparr> = dump_hex_slice bs s"
  using user_memory.dump_slice_prints [OF assms] by blast

lemma ucast_u32 [simp]: "ucast (ucast x :: u64) = (x :: u32)"
  by (rule bit_word_eqI) (simp add: bit_unsigned_iff)

lemma to_result_small:
  assumes "v < 2 ^ 63"
  shows "to_result c (of_nat v) = Inr (of_nat v)"
proof -
  have "sint (of_nat v :: u64) = int v" using assms by (simp add: signed_of_nat signed_take_bit_int_eq_self)
  then show ?thesis by (simp add: to_result_def)
qed

text \<open>
  C31: what the program learns from the kernel's answers. The error codes the kernel uses come back as
  the errors they stand for, and addresses and zero as success. A request for an unknown device is
  \<open>InvalidArgument\<close>. An unknown system call reads as \<open>AlreadyExists\<close>, since the kernel answers it with \<open>- 1\<close>.
  And \<open>exit\<close> panics the kernel: no program ends.
\<close>

theorem kernel_answers_decode:
  fixes s :: user
  assumes mem: "user_memory addr ok" and c: "crates_ok (crate ue)" and s: "ok s" and os_def: "os = kernel_os b ue addr pieces"
  shows "(\<forall>k \<in> {AlreadyExists, OOM, InvalidArgument}. to_result (crate ue) (kerror_into_u64 (crate ue) k) = Inl k) \<and>
    (\<forall>v < 2 ^ 63. to_result (crate ue) (of_nat v) = Inr (of_nat v)) \<and>
    (ident \<noteq> 1 \<longrightarrow> (\<exists>s'. load_kernel_device os ident req s = Some (Inr (Val (Inl InvalidArgument), s')))) \<and>
    (7 < nr \<longrightarrow> (\<exists>x s'. syscall os [(8, ucast (nr :: u32))] s = Some (Inr (Val x, s')) \<and> to_result (crate ue) x = Inl AlreadyExists)) \<and>
    user_exit os code s = Some (Inl (NotImplemented ''Syscall::Exit not implemented''))"
proof (intro conjI ballI allI impI)
  have len: "length (gpr (regs s)) = 30" using user_memory.ok_regs [OF mem s] .
  show "to_result (crate ue) (kerror_into_u64 (crate ue) k) = Inl k" if "k \<in> {AlreadyExists, OOM, InvalidArgument}" for k
    using kerror_roundtrip [OF c that] by (simp add: to_result_def)
  show "to_result (crate ue) (of_nat v) = Inr (of_nat v)" if "v < 2 ^ 63" for v using that by (rule to_result_small)
  show "\<exists>s'. load_kernel_device os ident req s = Some (Inr (Val (Inl InvalidArgument), s'))" if "ident \<noteq> 1"
  proof -
    obtain a s1 where a: "addr req s = (a, s1)" by (cases "addr req s")
    then obtain m where s1: "s1 = s\<lparr>mem := m\<rparr>" using user_memory.addr_frame [OF mem s a] by blast
    define e where "e = set_regs [(0, of_nat a), (1, of_nat (length req)), (2, ucast ident), (8, 6)] (regs s1)"
    have e: "gpr e ! 2 = ucast ident" "gpr e ! 8 = 6" "gpr e \<noteq> []" using len by (auto simp: e_def s1 set_regs_def)
    have "(ucast ident :: u64) \<noteq> 1" using that by (metis ucast_u32 unsigned_1)
    then have "handle_syscall b ue e s1 = Some (Inr (set_x0 (kerror_into_u64 (crate ue) InvalidArgument) e, s1))"
      using syscall_dispatch(6) [OF c, of e LoadKernelDevice] e by (simp add: sys_load_kernel_device_def GicAndTimer_ID_def)
    moreover have "gpr (set_x0 x e) ! 0 = x" for x using e(3) by (simp add: set_x0_def)
    ultimately have "kernel_svc b ue [(0, of_nat a), (1, of_nat (length req)), (2, ucast ident), (8, 6)] s1 =
        Some (Inr (kerror_into_u64 (crate ue) InvalidArgument, s1\<lparr>regs := set_x0 (kerror_into_u64 (crate ue) InvalidArgument) e\<rparr>))"
      by (simp add: kernel_svc_def e_def)
    with a kerror_roundtrip [OF c, of InvalidArgument] show ?thesis
      by (simp add: load_kernel_device_def os_def kernel_os_def prog_simps uret_def to_result_def)
  qed
  show "\<exists>x s'. syscall os [(8, ucast nr)] s = Some (Inr (Val x, s')) \<and> to_result (crate ue) x = Inl AlreadyExists" if "7 < nr"
  proof -
    define e where "e = set_regs [(8, ucast nr)] (regs s)"
    have e: "(ucast (gpr e ! 8) :: u32) = nr" "gpr e \<noteq> []" using len by (auto simp: e_def set_regs_def)
    have "Syscall_try_from (crate ue) nr = None" using try_from_unknown [OF c] that by simp
    moreover have "gpr (set_x0 (- 1) e) ! 0 = - 1" using e(2) by (simp add: set_x0_def)
    moreover have "(ucast (- 1 :: u64) :: i32) = - 1" by (rule bit_word_eqI) (simp add: bit_unsigned_iff)
    ultimately show ?thesis
      using c by (simp add: syscall_def os_def kernel_os_def kernel_svc_def e_def [symmetric] handle_syscall_def e(1) to_result_def crates_ok_def)
  qed
  have "gpr (set_regs [(0, ucast code), (8, 0)] (regs s)) ! 8 = 0" using len by (simp add: set_regs_def)
  then show "user_exit os code s = Some (Inl (NotImplemented ''Syscall::Exit not implemented''))"
    using syscall_dispatch(8) [OF c, of "set_regs [(0, ucast code), (8, 0)] (regs s)" Exit, where b = b and s = s]
    by (simp add: user_exit_def prog_simps os_def kernel_os_def kernel_svc_def)
qed

text \<open>The program as \<open>start\<close> leaves it keeps its values on its stack.\<close>

lemma started_stack_ok:
  fixes s :: user
  assumes s: "heap_run s a m" "tlb s = (\<lambda>_. None)" "length (gpr (regs s)) = 30"
    and ue: "user_env_ok ue" "thread_ok (Thread ue)" "INIT_BIN ue \<noteq> []" "length (INIT_BIN ue) \<le> 0x10000000"
      "th_page_table (Thread ue) + 4096 \<le> th_stack (Thread ue) \<or> th_stack (Thread ue) + 0x2000 \<le> th_page_table (Thread ue)"
    and m: "div_ceil (length (INIT_BIN ue)) 4096 + th_size (Thread ue) div 4096 + 3 * (div_ceil (length (INIT_BIN ue)) 4096 + 4) < m"
  shows "\<exists>s'. start b ue s = Inr s' \<and> stack_ok ue s'"
proof -
  let ?n = "div_ceil (length (INIT_BIN ue)) 4096" and ?t = "Thread ue"
  let ?T = "a + ?n * 4096"
  obtain s' where s': "start b ue s = Inr s'" "as_ok s' (?T + th_page_table ?t)" "INIT_THREAD s' = ?T"
    "out_addr (ttbr0 s') = from_virt (?T + th_page_table ?t)"
    and tr: "\<And>u. u < 2 ^ 39 \<Longrightarrow> translate (mem s') (?T + th_page_table ?t) u =
       (if 0x10000000 \<le> u \<and> u < 0x10000000 + ?n * 4096
        then Some (from_virt a + (u - 0x10000000), of_nat (from_virt a + (u - 0x10000000) div 4096 * 4096) OR COMMON_FLAGS OR PAGE_FLAGS)
        else if 0x7FFC000 \<le> u \<and> u < 0x8000000
        then Some (from_virt (?T + th_stack ?t) + (u - 0x7FFC000), of_nat (from_virt (?T + th_stack ?t) + (u - 0x7FFC000) div 4096 * 4096) OR COMMON_FLAGS OR PAGE_FLAGS)
        else None)"
    and tb: "\<And>x. a \<le> x \<Longrightarrow> x < ?T + th_size ?t \<Longrightarrow> x < ?T + th_page_table ?t \<or> ?T + th_page_table ?t + 4096 \<le> x \<Longrightarrow>
       \<not> is_table_byte (mem s') (?T + th_page_table ?t) x"
    and frame: "s'\<lparr>mem := mem s, PAGE_ALLOC := PAGE_ALLOC s, tlb := tlb s, INIT_THREAD := INIT_THREAD s, ttbr0 := ttbr0 s,
       spsr_el1 := spsr_el1 s, sp_el0 := sp_el0 s, elr_el1 := elr_el1 s\<rparr> = console_println '' user: Starting usermode'' s"
    by (rule start_runs [OF s(1,2) ue(1-4) m, of b]) blast
  have len: "length (gpr (regs s')) = 30" using arg_cong [OF frame, of regs] s(3) by (simp add: println_soc)
  have a: "0xffffff0000000000 \<le> a" "a + m * 4096 \<le> 0xffffff8000000000" using heap_run_bounds [OF s(1)] m by simp_all
  have t: "th_stack ?t + 0x2000 \<le> th_size ?t" "th_size ?t div 4096 * 4096 = th_size ?t" using ue(2) by (auto simp: thread_ok_def)
  have top: "?T + th_size ?t \<le> a + m * 4096" using t(2) m by simp
  have "\<not> is_table_byte (mem s') (?T + th_page_table ?t) (?T + th_stack ?t + i)" if "i < 256" for i
    using tb [of "?T + th_stack ?t + i"] t(1) ue(5) that by auto
  moreover have "\<exists>e. translate (mem s') (?T + th_page_table ?t) (0x7FFC000 + i) = Some (from_virt (?T + th_stack ?t) + i, e) \<and> bit e 6" if "i < 256" for i
    using tr [of "0x7FFC000 + i"] page_flags(2) that by simp
  ultimately have "stack_ok ue s'" using s'(2-4) len a t top by (simp add: stack_ok_def)
  with s'(1) show ?thesis by blast
qed

definition sample_program_state :: user where
  "sample_program_state = sys.extend sample_sys \<lparr>regs = sample_ctx 0 0 0 0\<rparr>"

lemma sample_stack: "\<exists>s'. start Dev sample_ue sample_program_state = Inr s' \<and> stack_ok sample_ue s'"
proof -
  have "heap_run sample_program_state 0xffffff0040200000 64"
    using sample_start(3) by (simp add: heap_run_def sample_program_state_def sys.defs sample_sys_def)
  moreover have "tlb sample_program_state = (\<lambda>_. None)" "length (gpr (regs sample_program_state)) = 30"
    by (simp_all add: sample_program_state_def sys.defs sample_sys_def sample_ctx_def)
  moreover have "th_page_table (Thread sample_ue) + 4096 \<le> th_stack (Thread sample_ue)" by (simp add: sample_ue_def)
  ultimately show ?thesis
    using sample_start(1,2) sample_program(2-4) by (intro started_stack_ok) auto
qed

theorem user_dump_matches_kernel_witness:
  "\<exists>s s'. start Dev sample_ue sample_program_state = Inr s \<and>
    user_dump_hex_slice (kernel_os Dev sample_ue (stack_value sample_ue) (\<lambda>str. [str])) [0x12, 0xab] s = Some (Inr (Val (), s')) \<and>
    dev_writes s' = dev_writes s @ map (W8 (uart0_addr s)) (as_bytes (''12ab'' @ [CHR 0x0A]))"
proof -
  from sample_stack obtain s where s: "start Dev sample_ue sample_program_state = Inr s" "stack_ok sample_ue s" by blast
  have "pieces_ok (\<lambda>str. [str])" by (simp add: pieces_ok_def)
  from user_dump_matches_kernel [OF stack.user_memory_axioms sample_user_ok(6) this s(2), of Dev "[0x12, 0xab]"]
  obtain s' where s': "user_dump_hex_slice (kernel_os Dev sample_ue (stack_value sample_ue) (\<lambda>str. [str])) [0x12, 0xab] s = Some (Inr (Val (), s'))"
    and eq: "s'\<lparr>mem := mem s, regs := regs s\<rparr> = dump_hex_slice [0x12, 0xab] s" by blast
  have "hex2 0x12 = ''12''" "hex2 0xab = ''ab''" by code_simp+
  then have "dev_writes (dump_hex_slice [0x12, 0xab] s) = dev_writes s @ map (W8 (uart0_addr s)) (as_bytes (''12ab'' @ [CHR 0x0A]))"
    by (simp add: dump_hex_slice_def dump_hex_from_text console_println_def print_print print_writes as_bytes_def)
  with arg_cong [OF eq, of dev_writes] s(1) s' show ?thesis by auto
qed

theorem kernel_answers_decode_witness:
  "\<exists>s s'. start Dev sample_ue sample_program_state = Inr s \<and>
    load_kernel_device (kernel_os Dev sample_ue (stack_value sample_ue) (\<lambda>str. [str])) 2 [1, 2, 3] s =
      Some (Inr (Val (Inl InvalidArgument), s'))"
proof -
  from sample_stack obtain s where s: "start Dev sample_ue sample_program_state = Inr s" "stack_ok sample_ue s" by blast
  from kernel_answers_decode [OF stack.user_memory_axioms sample_user_ok(6) s(2) refl, where b = Dev and pieces = "\<lambda>str. [str]" and ident = 2 and req = "[1, 2, 3]"]
  have "\<exists>s'. load_kernel_device (kernel_os Dev sample_ue (stack_value sample_ue) (\<lambda>str. [str])) 2 [1, 2, 3] s =
      Some (Inr (Val (Inl InvalidArgument), s'))" by simp
  with s(1) show ?thesis by blast
qed

end
