(* ===== verification/Exceptions.thy ===== *)
theory Exceptions
  imports Syscalls
begin

text \<open>
  Exceptions: the vector table of \<open>src/kernel/src/aarch64/init.s\<close>, instruction by instruction, and the
  handlers of \<open>src/kernel/src/aarch64/exceptions.rs\<close> it calls.

  A handler is compiled code. A call is modelled by what the calling convention guarantees: the
  handler gets the context its argument points to, the stack pointer is the same when it returns, and
  the registers hold anything (a parameter).
\<close>

section \<open>Handlers\<close>

record core = sys +
  xreg :: "nat \<Rightarrow> u64" \<comment> \<open>\<open>x0\<close> to \<open>x30\<close>\<close>
  esr_el1 :: u64
  far_el1 :: u64
  SPSel_SP :: u64

text \<open>Code that runs with no caller to go back to ends in a loop around \<open>wfi\<close>: the kernel halts.\<close>

datatype 'a outcome = Returned 'a | Halted 'a

definition rust_panic :: "string \<Rightarrow> string option \<Rightarrow> 'z machine_scheme \<Rightarrow> 'z machine_scheme" where
  "rust_panic message location s =
     (let s = console_println (''[PANIC]: '' @ message) s in
      case location of None \<Rightarrow> s | Some l \<Rightarrow> console_println (''location: '' @ l) s)"

text \<open>The panic of \<open>exception_handler\<close> ends in \<open>rust_panic\<close>; the location is the compiler's.\<close>

definition exception_handler ::
  "string option \<Rightarrow> u64 \<Rightarrow> u64 \<Rightarrow> u64 \<Rightarrow> u64 \<Rightarrow> u64 \<Rightarrow> 'z core_scheme \<Rightarrow> 'z core_scheme" where
  "exception_handler location etype esr elr spsr far s =
     (let s = console_println (''Exception SPSel: '' @ radix 10 (unat (SPSel_SP s))) s in
      rust_panic (''Exception:'' @ [CHR 0x0A] @ ''etype=0x'' @ radix 16 (unat etype) @ '' esr=0x'' @ radix 16 (unat esr) @
        '' elr=0x'' @ radix 16 (unat elr) @ '' spsr=0x'' @ radix 16 (unat spsr) @ '' far=0x'' @ radix 16 (unat far)) location s)"

definition dump_context :: "ExceptionContext \<Rightarrow> 'z core_scheme \<Rightarrow> 'z core_scheme" where
  "dump_context e s =
     (let s = console_println ''-------------------------------------------'' s;
          s = console_println ''Registers:'' s;
          s = fold (\<lambda>reg s. console_print (hex_pad 16 (unat reg) @ '' '') s) (gpr e) s;
          s = console_println '''' s;
          s = console_println (''Exception reason: 0x'' @ radix 16 (unat (esr_el1 s))) s;
          s = console_println (''FAR (Address accessed): 0x'' @ radix 16 (unat (far_el1 s))) s;
          s = console_println (''PC: 0x'' @ radix 16 (unat (ctx_pc e))) s;
          s = console_println (''LR: 0x'' @ radix 16 (unat (ctx_lr e))) s;
          s = console_println (''SP: 0x'' @ hex_pad 16 (unat (ctx_sp e))) s;
          s = console_println (''SPSR: 0x'' @ radix 16 (unat (ctx_spsr e))) s
      in console_println ''-------------------------------------------'' s)"

definition exception_handler2 ::
  "profile \<Rightarrow> user_env \<Rightarrow> ExceptionContext \<Rightarrow> 'z core_scheme \<Rightarrow> (ExceptionContext \<times> 'z core_scheme) outcome res option" where
  "exception_handler2 b ue e s =
     (if esr_el1 s = 0x56000000 then
        (case handle_syscall b ue e s of
           None \<Rightarrow> None
         | Some r \<Rightarrow> Some (bnd r (\<lambda>es. Inr (Returned es))))
      else Some (Inr (Halted (e, dump_context e s))))"

definition irq_handler ::
  "profile \<Rightarrow> user_env \<Rightarrow> ExceptionContext \<Rightarrow> 'z core_scheme \<Rightarrow> (ExceptionContext \<times> 'z core_scheme) outcome res option" where
  "irq_handler b ue e s = Some (bnd (handle_irq (board ue) b s) (\<lambda>s. Inr (Returned (e, s))))"

section \<open>The context on the stack\<close>

text \<open>\<open>ExceptionContext\<close> is \<open>repr(C)\<close>: 34 words, in the order of the fields.\<close>

definition context_words :: "ExceptionContext \<Rightarrow> u64 list" where
  "context_words e = gpr e @ [ctx_lr e, ctx_pc e, ctx_spsr e, ctx_sp e]"

definition context_at :: "memory \<Rightarrow> usize \<Rightarrow> ExceptionContext" where
  "context_at m p = \<lparr>gpr = map (\<lambda>i. read_u64 m (p + 8 * i)) [0..<30], ctx_lr = read_u64 m (p + 240),
     ctx_pc = read_u64 m (p + 248), ctx_spsr = read_u64 m (p + 256), ctx_sp = read_u64 m (p + 264)\<rparr>"

primrec write_words :: "memory \<Rightarrow> usize \<Rightarrow> u64 list \<Rightarrow> memory" where
  "write_words m p [] = m"
| "write_words m p (w # ws) = write_words (write_u64 m p w) (p + 8) ws"

section \<open>The vector table\<close>

datatype sysreg = ELR_EL1 | SPSR_EL1 | SP_EL0 | ESR_EL1 | FAR_EL1

datatype label = Exception_handler2 | Irq_handler | Exception_handler | Restore_context

text \<open>Loads and stores are of register pairs at \<open>[sp, #16 * n]\<close>.\<close>

datatype instr = SUB_SP nat | ADD_SP nat | STP nat nat nat | LDP nat nat nat | MRS nat sysreg | MSR sysreg nat
  | MOV_SP nat | MOV nat u64 | BL label | B label | ERET

primrec read_sysreg :: "sysreg \<Rightarrow> 'z core_scheme \<Rightarrow> u64" where
  "read_sysreg ELR_EL1 s = elr_el1 s"
| "read_sysreg SPSR_EL1 s = spsr_el1 s"
| "read_sysreg SP_EL0 s = sp_el0 s"
| "read_sysreg ESR_EL1 s = esr_el1 s"
| "read_sysreg FAR_EL1 s = far_el1 s"

primrec write_sysreg :: "sysreg \<Rightarrow> u64 \<Rightarrow> 'z core_scheme \<Rightarrow> 'z core_scheme" where
  "write_sysreg ELR_EL1 v s = s\<lparr>elr_el1 := v\<rparr>"
| "write_sysreg SPSR_EL1 v s = s\<lparr>spsr_el1 := v\<rparr>"
| "write_sysreg SP_EL0 v s = s\<lparr>sp_el0 := v\<rparr>"
| "write_sysreg ESR_EL1 v s = s\<lparr>esr_el1 := v\<rparr>"
| "write_sysreg FAR_EL1 v s = s\<lparr>far_el1 := v\<rparr>"

text \<open>An instruction other than a jump.\<close>

primrec exec :: "instr \<Rightarrow> 'z core_scheme \<Rightarrow> 'z core_scheme" where
  "exec (SUB_SP n) s = s\<lparr>sp_el1 := sp_el1 s - of_nat n\<rparr>"
| "exec (ADD_SP n) s = s\<lparr>sp_el1 := sp_el1 s + of_nat n\<rparr>"
| "exec (STP r1 r2 n) s = (let a = unat (sp_el1 s + of_nat (16 * n)) in
     s\<lparr>mem := write_u64 (write_u64 (mem s) a (xreg s r1)) (a + 8) (xreg s r2)\<rparr>)"
| "exec (LDP r1 r2 n) s = (let a = unat (sp_el1 s + of_nat (16 * n)) in
     s\<lparr>xreg := (xreg s)(r1 := read_u64 (mem s) a, r2 := read_u64 (mem s) (a + 8))\<rparr>)"
| "exec (MRS r sr) s = s\<lparr>xreg := (xreg s)(r := read_sysreg sr s)\<rparr>"
| "exec (MSR sr r) s = write_sysreg sr (xreg s r) s"
| "exec (MOV_SP r) s = s\<lparr>xreg := (xreg s)(r := sp_el1 s)\<rparr>"
| "exec (MOV r v) s = s\<lparr>xreg := (xreg s)(r := v)\<rparr>"
| "exec (BL l) s = s"
| "exec (B l) s = s"
| "exec ERET s = s"

definition save_context :: "instr list" where
  "save_context = [SUB_SP (16 * 17),
     STP 0 1 0, STP 2 3 1, STP 4 5 2, STP 6 7 3, STP 8 9 4, STP 10 11 5, STP 12 13 6, STP 14 15 7, STP 16 17 8,
     STP 18 19 9, STP 20 21 10, STP 22 23 11, STP 24 25 12, STP 26 27 13, STP 28 29 14,
     MRS 1 ELR_EL1, STP 30 1 15, MRS 1 SPSR_EL1, MRS 2 SP_EL0, STP 1 2 16, MOV_SP 0]"

definition sync_vector :: "instr list" where
  "sync_vector = save_context @ [BL Exception_handler2, B Restore_context]"

definition irq_vector :: "instr list" where
  "irq_vector = save_context @ [BL Irq_handler, B Restore_context]"

definition fiq_vector :: "instr list" where
  "fiq_vector = [MOV 0 2, MRS 1 ESR_EL1, MRS 2 ELR_EL1, MRS 3 SPSR_EL1, MRS 4 FAR_EL1, B Exception_handler]"

definition serror_vector :: "instr list" where
  "serror_vector = [MOV 0 3, MRS 1 ESR_EL1, MRS 2 ELR_EL1, MRS 3 SPSR_EL1, MRS 4 FAR_EL1, B Exception_handler]"

definition vector_table :: "instr list list" where
  "vector_table = concat (replicate 4 [sync_vector, irq_vector, fiq_vector, serror_vector])"

definition restore_context :: "instr list" where
  "restore_context = [LDP 19 20 16, MSR SPSR_EL1 19, MSR SP_EL0 20, LDP 30 20 15, MSR ELR_EL1 20,
     LDP 0 1 0, LDP 2 3 1, LDP 4 5 2, LDP 6 7 3, LDP 8 9 4, LDP 10 11 5, LDP 12 13 6, LDP 14 15 7, LDP 16 17 8,
     LDP 18 19 9, LDP 20 21 10, LDP 22 23 11, LDP 24 25 12, LDP 26 27 13, LDP 28 29 14, ADD_SP (16 * 17), ERET]"

text \<open>
  The call of a handler whose argument is the context \<open>x0\<close> points to. \<open>clob\<close> is what the registers
  hold afterwards.
\<close>

definition call_handler ::
  "(ExceptionContext \<Rightarrow> 'z core_scheme \<Rightarrow> (ExceptionContext \<times> 'z core_scheme) outcome res option) \<Rightarrow>
   (nat \<Rightarrow> u64) \<Rightarrow> 'z core_scheme \<Rightarrow> 'z core_scheme outcome res option" where
  "call_handler h clob s =
     (let p = unat (xreg s 0) in
      case h (context_at (mem s) p) s of
        None \<Rightarrow> None
      | Some (Inl e) \<Rightarrow> Some (Inl e)
      | Some (Inr (Halted (_, s'))) \<Rightarrow> Some (Inr (Halted s'))
      | Some (Inr (Returned (e', s'))) \<Rightarrow>
          Some (Inr (Returned (s'\<lparr>mem := write_words (mem s') p (context_words e'), sp_el1 := sp_el1 s, xreg := clob\<rparr>))))"

definition handler_of ::
  "profile \<Rightarrow> user_env \<Rightarrow> label \<Rightarrow> ExceptionContext \<Rightarrow> 'z core_scheme \<Rightarrow> (ExceptionContext \<times> 'z core_scheme) outcome res option" where
  "handler_of b ue l = (if l = Irq_handler then irq_handler b ue else exception_handler2 b ue)"

text \<open>The code from a vector up to the \<open>eret\<close>.\<close>

fun run_vector ::
  "profile \<Rightarrow> user_env \<Rightarrow> string option \<Rightarrow> (nat \<Rightarrow> u64) \<Rightarrow> instr list \<Rightarrow> 'z core_scheme \<Rightarrow> 'z core_scheme outcome res option" where
  "run_vector b ue loc clob [] s = Some (Inr (Returned s))"
| "run_vector b ue loc clob (BL l # is) s =
     (case call_handler (handler_of b ue l) clob s of
        Some (Inr (Returned s)) \<Rightarrow> run_vector b ue loc clob is s
      | r \<Rightarrow> r)"
| "run_vector b ue loc clob (B l # is) s =
     (if l = Restore_context then Some (Inr (Returned (fold exec restore_context s)))
      else Some (Inr (Halted (exception_handler loc (xreg s 0) (xreg s 1) (xreg s 2) (xreg s 3) (xreg s 4) s))))"
| "run_vector b ue loc clob (ERET # is) s = Some (Inr (Returned s))"
| "run_vector b ue loc clob (i # is) s = run_vector b ue loc clob is (exec i s)"

text \<open>Where the assembler puts the entries: each after \<open>.align 7\<close>, an instruction takes four bytes.\<close>

fun place :: "instr list list \<Rightarrow> nat \<Rightarrow> nat list" where
  "place [] a = []"
| "place (c # cs) a = (let start = div_ceil a 128 * 128 in start # place cs (start + 4 * length c))"

section \<open>Saving and restoring\<close>

definition saved_context :: "'z core_scheme \<Rightarrow> ExceptionContext" where
  "saved_context s = \<lparr>gpr = map (xreg s) [0..<30], ctx_lr = xreg s 30, ctx_pc = elr_el1 s, ctx_spsr = spsr_el1 s, ctx_sp = sp_el0 s\<rparr>"

text \<open>The state in which a handler is called.\<close>

definition handler_state :: "'z core_scheme \<Rightarrow> 'z core_scheme" where
  "handler_state s = s\<lparr>mem := write_words (mem s) (unat (sp_el1 s) - 272) (context_words (saved_context s)),
     sp_el1 := sp_el1 s - 272, xreg := (xreg s)(1 := spsr_el1 s, 2 := sp_el0 s, 0 := sp_el1 s - 272)\<rparr>"

lemma frame_slot:
  fixes sp :: u64
  assumes "unat sp = q + 272"
  shows "(numeral w :: u64) \<le> 272 \<Longrightarrow> unat (sp - numeral w) = q + (272 - unat (numeral w :: u64))"
proof -
  assume w: "(numeral w :: u64) \<le> 272"
  then have "unat (numeral w :: u64) \<le> 272" by (simp add: word_le_nat_alt)
  moreover from this assms have "numeral w \<le> sp" by (simp add: word_le_nat_alt)
  ultimately show ?thesis using assms by (simp add: unat_sub)
qed

lemma upt_30: "[0..<30] = [0, 1, 2, 3, 4, 5, 6, 7, 8, 9, 10, 11, 12, 13, 14, 15, 16, 17, 18, 19, 20, 21, 22, 23, 24, 25, 26, 27, 28, 29]"
  by code_simp

lemma save_context_ok:
  assumes "272 \<le> unat (sp_el1 s)"
  shows "fold exec save_context s = handler_state s"
proof -
  from assms obtain q where q: "unat (sp_el1 s) = q + 272" by (metis add.commute le_iff_add)
  have c: "q + numeral w = numeral w + q" for w by (rule add.commute)
  show ?thesis
    by (rule core.equality)
      (simp_all add: save_context_def handler_state_def Let_def frame_slot [OF q] q c context_words_def saved_context_def upt_30)
qed

lemma write_words_below: "x + 8 \<le> p \<Longrightarrow> read_u64 (write_words m p ws) x = read_u64 m x"
  by (induction ws arbitrary: m p) (simp_all add: read_write_other)

lemma read_write_words: "i < length ws \<Longrightarrow> read_u64 (write_words m p ws) (p + 8 * i) = ws ! i"
proof (induction ws arbitrary: m p i)
  case (Cons w ws)
  show ?case
  proof (cases i)
    case 0
    then show ?thesis using write_words_below [of p "p + 8"] by (simp add: read_write_same)
  next
    case (Suc j)
    with Cons.IH [of j "write_u64 m p w" "p + 8"] Cons.prems show ?thesis by (simp add: add.assoc [symmetric]) 
  qed
qed simp

lemma write_words_outside: "x < p \<or> p + 8 * length ws \<le> x \<Longrightarrow> write_words m p ws x = m x"
  by (induction ws arbitrary: m p) (auto simp: write_u64_outside)

lemma context_at_words:
  assumes "length (gpr e) = 30"
  shows "context_at (write_words m p (context_words e)) p = e"
proof -
  have rd: "read_u64 (write_words m p (context_words e)) (p + 8 * i) = context_words e ! i" if "i < 34" for i
    using that assms by (intro read_write_words) (simp add: context_words_def)
  have "map (\<lambda>i. read_u64 (write_words m p (context_words e)) (p + 8 * i)) [0..<30] = map ((!) (gpr e)) [0..<30]"
    by (rule map_cong) (use assms in \<open>simp_all add: rd del: upt_rec_numeral\<close>, simp add: context_words_def nth_append)
  also have "\<dots> = gpr e" using map_nth [of "gpr e"] assms by simp
  finally show ?thesis
    using rd [of 30] rd [of 31] rd [of 32] rd [of 33] assms
    by (simp add: context_at_def context_words_def nth_append del: upt_rec_numeral)
qed

lemma restore_context_ok:
  assumes e: "length (gpr e) = 30" and m: "mem s = write_words m0 (unat (sp_el1 s)) (context_words e)" "unat (sp_el1 s) + 272 < 2 ^ 64"
  shows "\<exists>X. fold exec restore_context s = s\<lparr>spsr_el1 := ctx_spsr e, sp_el0 := ctx_sp e, elr_el1 := ctx_pc e, sp_el1 := sp_el1 s + 272, xreg := X\<rparr> \<and>
    map X [0..<30] = gpr e \<and> X 30 = ctx_lr e"
proof -
  define q where "q = unat (sp_el1 s)"
  have slot: "unat (sp_el1 s + numeral w) = q + unat (numeral w :: u64)" if "(numeral w :: u64) \<le> 272" for w
  proof -
    have "unat (numeral w :: u64) \<le> 272" using that by (simp add: word_le_nat_alt)
    with m(2) show ?thesis by (subst unat_add_lem [THEN iffD1]) (simp_all add: q_def)
  qed
  have rd: "read_u64 (mem s) (q + n) = context_words e ! (n div 8)" if "n mod 8 = 0" "n < 272" for n
  proof -
    from that(1) obtain k where k: "n = 8 * k" by (rule mod_eq_0E)
    with that(2) read_write_words [of k "context_words e" m0 q] e show ?thesis by (simp add: m(1) q_def context_words_def)
  qed
  have rd0: "read_u64 (mem s) q = context_words e ! 0" "unat (sp_el1 s) = q"
    using read_write_words [of 0 "context_words e" m0 q] e by (simp_all add: m(1) q_def context_words_def)
  have c: "numeral w + q = q + numeral w" for w by (rule add.commute)
  let ?s' = "fold exec restore_context s"
  have g: "gpr e = map ((!) (gpr e)) [0..<30]" using map_nth [of "gpr e"] e by simp
  have "map (xreg ?s') [0..<30] = gpr e"
    by (subst g) (simp add: restore_context_def Let_def slot rd rd0 c upt_30 context_words_def nth_append e)
  moreover have "xreg ?s' 30 = ctx_lr e"
    by (simp add: restore_context_def Let_def slot rd rd0 c context_words_def nth_append e)
  moreover have "?s' = s\<lparr>spsr_el1 := ctx_spsr e, sp_el0 := ctx_sp e, elr_el1 := ctx_pc e, sp_el1 := sp_el1 s + 272, xreg := xreg ?s'\<rparr>"
    by (rule core.equality) (simp_all add: restore_context_def Let_def slot rd rd0 c context_words_def nth_append e)
  ultimately show ?thesis by blast
qed

section \<open>Taking an exception\<close>

definition straight :: "instr \<Rightarrow> bool" where
  "straight i \<longleftrightarrow> (\<forall>l. i \<noteq> BL l \<and> i \<noteq> B l) \<and> i \<noteq> ERET"

lemma run_straight:
  "\<forall>i \<in> set is. straight i \<Longrightarrow> run_vector b ue loc clob (is @ js) s = run_vector b ue loc clob js (fold exec is s)"
proof (induction "is" arbitrary: s)
  case (Cons i "is")
  then show ?case by (cases i) (simp_all add: straight_def)
qed simp

lemma vector_entry:
  assumes sp: "272 \<le> unat (sp_el1 s)"
  shows "handler_of b ue l (saved_context s) (handler_state s) = Some (Inr (Returned (e', s'))) \<Longrightarrow> length (gpr e') = 30 \<Longrightarrow>
      \<exists>s''. run_vector b ue loc clob (save_context @ [BL l, B Restore_context]) s = Some (Inr (Returned s'')) \<and>
        saved_context s'' = e' \<and> sp_el1 s'' = sp_el1 s \<and>
        s'' = s'\<lparr>mem := mem s'', spsr_el1 := spsr_el1 s'', sp_el0 := sp_el0 s'', elr_el1 := elr_el1 s'', sp_el1 := sp_el1 s'', xreg := xreg s''\<rparr> \<and>
        (\<forall>a. a < unat (sp_el1 s) - 272 \<or> unat (sp_el1 s) \<le> a \<longrightarrow> mem s'' a = mem s' a)"
    and "handler_of b ue l (saved_context s) (handler_state s) = Some (Inr (Halted (e', s'))) \<Longrightarrow>
      run_vector b ue loc clob (save_context @ [BL l, B Restore_context]) s = Some (Inr (Halted s'))"
    and "handler_of b ue l (saved_context s) (handler_state s) = Some (Inl p) \<Longrightarrow>
      run_vector b ue loc clob (save_context @ [BL l, B Restore_context]) s = Some (Inl p)"
proof -
  let ?q = "unat (sp_el1 s) - 272"
  have q: "unat (sp_el1 s - 272) = ?q" using sp by (simp add: unat_sub word_le_nat_alt)
  have lt: "unat (sp_el1 s) < 2 ^ 64" using unsigned_less [of "sp_el1 s"] by simp
  have pre: "run_vector b ue loc clob (save_context @ [BL l, B Restore_context]) s =
      run_vector b ue loc clob [BL l, B Restore_context] (handler_state s)" for l
    by (subst run_straight) (simp add: save_context_def straight_def, simp add: save_context_ok [OF sp])
  have ctx: "context_at (mem (handler_state s)) ?q = saved_context s"
    using context_at_words [of "saved_context s" "mem s" ?q] q by (simp add: handler_state_def saved_context_def)
  have arg: "unat (xreg (handler_state s) 0) = ?q" "sp_el1 (handler_state s) = sp_el1 s - 272" by (simp_all add: handler_state_def q)
  show "run_vector b ue loc clob (save_context @ [BL l, B Restore_context]) s = Some (Inr (Halted s'))"
    if "handler_of b ue l (saved_context s) (handler_state s) = Some (Inr (Halted (e', s')))"
    using that by (simp add: pre call_handler_def arg ctx)
  show "run_vector b ue loc clob (save_context @ [BL l, B Restore_context]) s = Some (Inl p)"
    if "handler_of b ue l (saved_context s) (handler_state s) = Some (Inl p)"
    using that by (simp add: pre call_handler_def arg ctx)
  assume r: "handler_of b ue l (saved_context s) (handler_state s) = Some (Inr (Returned (e', s')))" and e: "length (gpr e') = 30"
  let ?s1 = "s'\<lparr>mem := write_words (mem s') ?q (context_words e'), sp_el1 := sp_el1 s - 272, xreg := clob\<rparr>"
  have "mem ?s1 = write_words (mem s') (unat (sp_el1 ?s1)) (context_words e')" "unat (sp_el1 ?s1) + 272 < 2 ^ 64"
    using q lt sp by simp_all
  from restore_context_ok [OF e this] obtain X where X: "fold exec restore_context ?s1 =
      ?s1\<lparr>spsr_el1 := ctx_spsr e', sp_el0 := ctx_sp e', elr_el1 := ctx_pc e', sp_el1 := sp_el1 ?s1 + 272, xreg := X\<rparr>"
    "map X [0..<30] = gpr e'" "X 30 = ctx_lr e'" by blast
  have "run_vector b ue loc clob (save_context @ [BL l, B Restore_context]) s = Some (Inr (Returned (fold exec restore_context ?s1)))"
    using r by (simp add: pre call_handler_def arg ctx)
  moreover have "length (context_words e') = 34" using e by (simp add: context_words_def)
  then have "write_words (mem s') ?q (context_words e') a = mem s' a" if "a < ?q \<or> unat (sp_el1 s) \<le> a" for a
    using that sp by (intro write_words_outside) auto
  moreover have "saved_context (fold exec restore_context ?s1) = e'" by (simp add: X saved_context_def)
  ultimately show "\<exists>s''. run_vector b ue loc clob (save_context @ [BL l, B Restore_context]) s = Some (Inr (Returned s'')) \<and>
        saved_context s'' = e' \<and> sp_el1 s'' = sp_el1 s \<and>
        s'' = s'\<lparr>mem := mem s'', spsr_el1 := spsr_el1 s'', sp_el0 := sp_el0 s'', elr_el1 := elr_el1 s'', sp_el1 := sp_el1 s'', xreg := xreg s''\<rparr> \<and>
        (\<forall>a. a < ?q \<or> unat (sp_el1 s) \<le> a \<longrightarrow> mem s'' a = mem s' a)"
    by (intro exI [of _ "fold exec restore_context ?s1"]) (simp add: X(1))
qed

section \<open>Properties\<close>

lemma vector_group:
  assumes "g < 4"
  shows "vector_table ! (4 * g) = sync_vector" "vector_table ! (4 * g + 1) = irq_vector"
    "vector_table ! (4 * g + 2) = fiq_vector" "vector_table ! (4 * g + 3) = serror_vector"
proof -
  from assms consider "g = 0" | "g = 1" | "g = 2" | "g = 3" by linarith
  then show "vector_table ! (4 * g) = sync_vector" "vector_table ! (4 * g + 1) = irq_vector"
    "vector_table ! (4 * g + 2) = fiq_vector" "vector_table ! (4 * g + 3) = serror_vector"
    by (cases; simp add: vector_table_def numeral_nat)+
qed

text \<open>
  C6: a system call returns to the instruction after the \<open>svc\<close> with every register as it was, except
  \<open>x0\<close>, which holds the result: program counter, status, stack pointers and the other thirty registers
  are restored from the context, whatever the handler left in the registers. Outside the frame on the
  kernel stack memory is as the system call left it.
\<close>

theorem syscall_context_roundtrip:
  assumes g: "g < 4" and sp: "272 \<le> unat (sp_el1 s)" and esr: "esr_el1 s = 0x56000000"
    and r: "handle_syscall b ue (saved_context s) (handler_state s) = Some (Inr (e', s'))"
  shows "\<exists>s''. run_vector b ue loc clob (vector_table ! (4 * g)) s = Some (Inr (Returned s'')) \<and>
    saved_context s'' = set_x0 (gpr e' ! 0) (saved_context s) \<and> sp_el1 s'' = sp_el1 s \<and>
    PAGE_ALLOC s'' = PAGE_ALLOC s' \<and> dev_writes s'' = dev_writes s' \<and> ttbr0 s'' = ttbr0 s' \<and>
    (\<forall>a. a < unat (sp_el1 s) - 272 \<or> unat (sp_el1 s) \<le> a \<longrightarrow> mem s'' a = mem s' a)"
proof -
  from syscall_x0 [OF r] obtain v where v: "e' = set_x0 v (saved_context s)" by blast
  then have len: "length (gpr e') = 30" and v0: "v = gpr e' ! 0" by (simp_all add: set_x0_def saved_context_def)
  have "handler_of b ue Exception_handler2 (saved_context s) (handler_state s) = Some (Inr (Returned (e', s')))"
    using r esr by (simp add: handler_of_def exception_handler2_def handler_state_def)
  from vector_entry(1) [OF sp this len, of loc clob] obtain s'' where
    s'': "run_vector b ue loc clob sync_vector s = Some (Inr (Returned s''))" "saved_context s'' = e'" "sp_el1 s'' = sp_el1 s"
    "\<forall>a. a < unat (sp_el1 s) - 272 \<or> unat (sp_el1 s) \<le> a \<longrightarrow> mem s'' a = mem s' a"
    and rest: "s'' = s'\<lparr>mem := mem s'', spsr_el1 := spsr_el1 s'', sp_el0 := sp_el0 s'', elr_el1 := elr_el1 s'', sp_el1 := sp_el1 s'', xreg := xreg s''\<rparr>"
    unfolding sync_vector_def by blast
  from arg_cong [OF rest, of PAGE_ALLOC] arg_cong [OF rest, of dev_writes] arg_cong [OF rest, of ttbr0]
  have "PAGE_ALLOC s'' = PAGE_ALLOC s'" "dev_writes s'' = dev_writes s'" "ttbr0 s'' = ttbr0 s'" by simp_all
  with s'' v v0 vector_group(1) [OF g] show ?thesis by metis
qed

text \<open>
  C9: an interrupt is invisible to the code it interrupts, user or kernel: registers, program counter,
  status, stack pointers, page tables and allocator are as before, and memory outside the frame is.
\<close>

theorem interrupt_is_transparent:
  assumes g: "g < 4" and sp: "272 \<le> unat (sp_el1 s)" and gic: "GICC_BASE s + 0x10 < 2 ^ 64"
  shows "\<exists>s''. run_vector b ue loc clob (vector_table ! (4 * g + 1)) s = Some (Inr (Returned s'')) \<and>
    saved_context s'' = saved_context s \<and> sp_el1 s'' = sp_el1 s \<and>
    PAGE_ALLOC s'' = PAGE_ALLOC s \<and> ttbr0 s'' = ttbr0 s \<and> tlb s'' = tlb s \<and>
    (\<forall>a. a < unat (sp_el1 s) - 272 \<or> unat (sp_el1 s) \<le> a \<longrightarrow> mem s'' a = mem s a)"
proof -
  have "GICC_BASE (handler_state s) + 0x10 < 2 ^ 64" using gic by (simp add: handler_state_def)
  from handle_irq_frame [OF this, of "board ue" b] obtain dw ctl where
    irq: "handle_irq (board ue) b (handler_state s) = Inr (handler_state s\<lparr>cntp_ctl := ctl, dev_writes := dw\<rparr>)" by blast
  let ?s' = "handler_state s\<lparr>cntp_ctl := ctl, dev_writes := dw\<rparr>"
  have "handler_of b ue Irq_handler (saved_context s) (handler_state s) = Some (Inr (Returned (saved_context s, ?s')))"
    using irq by (simp add: handler_of_def irq_handler_def)
  moreover have "length (gpr (saved_context s)) = 30" by (simp add: saved_context_def)
  ultimately obtain s'' where
    s'': "run_vector b ue loc clob irq_vector s = Some (Inr (Returned s''))" "saved_context s'' = saved_context s" "sp_el1 s'' = sp_el1 s"
    "\<forall>a. a < unat (sp_el1 s) - 272 \<or> unat (sp_el1 s) \<le> a \<longrightarrow> mem s'' a = mem ?s' a"
    and rest: "s'' = ?s'\<lparr>mem := mem s'', spsr_el1 := spsr_el1 s'', sp_el0 := sp_el0 s'', elr_el1 := elr_el1 s'', sp_el1 := sp_el1 s'', xreg := xreg s''\<rparr>"
    using vector_entry(1) [OF sp, of b ue Irq_handler "saved_context s" ?s' loc clob] unfolding irq_vector_def by blast
  from arg_cong [OF rest, of PAGE_ALLOC] arg_cong [OF rest, of tlb] arg_cong [OF rest, of ttbr0]
  have "PAGE_ALLOC s'' = PAGE_ALLOC s" "tlb s'' = tlb s" "ttbr0 s'' = ttbr0 s" by (simp_all add: handler_state_def)
  moreover have "mem ?s' a = mem s a" if "a < unat (sp_el1 s) - 272 \<or> unat (sp_el1 s) \<le> a" for a
    using that sp by (auto simp: handler_state_def context_words_def saved_context_def intro!: write_words_outside)
  ultimately show ?thesis using s'' vector_group(2) [OF g] by auto
qed

lemma place_aligned:
  assumes "\<forall>c \<in> set cs. c \<noteq> [] \<and> length c \<le> 32" "a \<le> 128 * q" "128 * q < a + 128"
  shows "place cs a = map (\<lambda>k. 128 * q + 128 * k) [0..<length cs]"
  using assms
proof (induction cs arbitrary: a q)
  case (Cons c cs)
  have "div_ceil a 128 \<le> q" using Cons.prems(2) by (intro div_ceil_least) (simp_all add: mult.commute)
  moreover have "a \<le> div_ceil a 128 * 128" by (rule div_ceil_le) simp
  with Cons.prems(3) have "q \<le> div_ceil a 128" by simp
  ultimately have st: "div_ceil a 128 = q" by simp
  have "0 < length c" "length c \<le> 32" using Cons.prems(1) by auto
  then have "place cs (128 * q + 4 * length c) = map (\<lambda>k. 128 * Suc q + 128 * k) [0..<length cs]"
    using Cons.prems(1) by (intro Cons.IH) auto
  moreover have "map (\<lambda>k. 128 * q + 128 * k) [0..<Suc (length cs)] = 128 * q # map (\<lambda>k. 128 * Suc q + 128 * k) [0..<length cs]"
    by (simp add: upt_conv_Cons map_Suc_upt [symmetric] del: upt_Suc)
  ultimately show ?case using st by (simp add: mult.commute [of q] Let_def del: upt_Suc)
qed simp

text \<open>
  C35: the table has an entry for each of the sixteen vectors of the architecture, and the assembler
  puts entry \<open>k\<close> at offset \<open>0x80 * k\<close>, where the processor jumps: no entry is longer than that.
\<close>

theorem vectors_in_place:
  assumes "table mod 2048 = 0"
  shows "place vector_table table = map (\<lambda>k. table + 0x80 * k) [0..<16]"
proof -
  from assms obtain t where "table = 2048 * t" by (rule mod_eq_0E)
  moreover have "\<forall>c \<in> set vector_table. c \<noteq> [] \<and> length c \<le> 32" "length vector_table = 16"
    by (simp_all add: vector_table_def sync_vector_def irq_vector_def save_context_def fiq_vector_def serror_vector_def numeral_nat)
  ultimately show ?thesis using place_aligned [of vector_table table "16 * t"] by simp
qed

text \<open>A program that has just made system call \<open>nr\<close>.\<close>

definition sample_core :: "u64 \<Rightarrow> core" where
  "sample_core nr = \<lparr>mem = (\<lambda>_. 0), daif = 0, uart0_addr = 0xffffff0009000000, dev_writes = [], ttbr0 = 0x2000, tlb = (\<lambda>_. None),
     PAGE_ALLOC = page_alloc_new 1 0xffffff0040200000, mair = 0, tcr = 0, ttbr1 = 0, sctlr = 0, vbar = 0, sp_el1 = 0xffffff0040190000,
     GICD_BASE = 0x8000000, GICC_BASE = 0x8010000, cntkctl = 0, cntp_tval = 0, cntp_ctl = 1, time_reads = 0,
     INIT_THREAD = empty_root, spsr_el1 = 0x140, sp_el0 = 0x8000000, elr_el1 = 0x10000004,
     xreg = (\<lambda>i. if i = 8 then nr else of_nat i), esr_el1 = 0x56000000, far_el1 = 0, SPSel_SP = 1\<rparr>"

theorem syscall_context_roundtrip_witness:
  "\<exists>s''. run_vector Dev sample_ue None (\<lambda>_. 77) (vector_table ! 8) (sample_core 9) = Some (Inr (Returned s'')) \<and>
     saved_context s'' = set_x0 (- 1) (saved_context (sample_core 9)) \<and> sp_el1 s'' = 0xffffff0040190000"
proof -
  have sp: "(2 :: nat) < 4" "272 \<le> unat (sp_el1 (sample_core 9))" "esr_el1 (sample_core 9) = 0x56000000"
    "sp_el1 (sample_core 9) = 0xffffff0040190000" by (simp_all add: sample_core_def)
  have "gpr (saved_context (sample_core 9)) ! 8 = 9" by (simp add: saved_context_def sample_core_def)
  then have "handle_syscall Dev sample_ue (saved_context (sample_core 9)) (handler_state (sample_core 9)) =
      Some (Inr (set_x0 (- 1) (saved_context (sample_core 9)),
        console_println (''Unknown syscall: '' @ radix 10 9) (handler_state (sample_core 9))))"
    using try_from_unknown [OF sample_user_ok(6), of 9] by (simp add: handle_syscall_def)
  from syscall_context_roundtrip [OF sp(1-3) this, of None "\<lambda>_. 77"] sp(4) show ?thesis
    by (auto simp: set_x0_def saved_context_def)
qed

theorem interrupt_is_transparent_witness:
  "\<exists>s''. run_vector Release sample_ue None (\<lambda>_. 77) (vector_table ! 9) (sample_core 0) = Some (Inr (Returned s'')) \<and>
     saved_context s'' = saved_context (sample_core 0)"
proof -
  have "(2 :: nat) < 4" "272 \<le> unat (sp_el1 (sample_core 0))" "GICC_BASE (sample_core 0) + 0x10 < 2 ^ 64"
    by (simp_all add: sample_core_def)
  from interrupt_is_transparent [OF this, of Release sample_ue None "\<lambda>_. 77"] show ?thesis by auto
qed

theorem vectors_in_place_witness: "place vector_table 0x40100800 ! 5 = 0x40100A80"
proof -
  have "(0x40100800 :: nat) mod 2048 = 0" by simp
  from vectors_in_place [OF this] show ?thesis by simp
qed

section \<open>Exceptions that halt the kernel\<close>

lemma fatal_vectors:
  "run_vector b ue loc clob fiq_vector s = Some (Inr (Halted (exception_handler loc 2 (esr_el1 s) (elr_el1 s) (spsr_el1 s) (far_el1 s)
     (s\<lparr>xreg := (xreg s)(0 := 2, 1 := esr_el1 s, 2 := elr_el1 s, 3 := spsr_el1 s, 4 := far_el1 s)\<rparr>))))"
  "run_vector b ue loc clob serror_vector s = Some (Inr (Halted (exception_handler loc 3 (esr_el1 s) (elr_el1 s) (spsr_el1 s) (far_el1 s)
     (s\<lparr>xreg := (xreg s)(0 := 3, 1 := esr_el1 s, 2 := elr_el1 s, 3 := spsr_el1 s, 4 := far_el1 s)\<rparr>))))"
  by (simp_all add: fiq_vector_def serror_vector_def)

lemma fold_print: "fold (\<lambda>r s. console_print (f r) s) rs s = s\<lparr>dev_writes := dev_writes s @ map (W8 (uart0_addr s)) (as_bytes (concat (map f rs)))\<rparr>"
  by (induction rs arbitrary: s) (simp_all add: print_writes)

text \<open>
  C29: any other synchronous exception, in particular a fault of the program or of the kernel, halts
  the kernel. It only prints; the text has all thirty-four saved registers in hexadecimal, between two
  rulers, and nothing but the frame on the kernel stack is written to memory.
\<close>

theorem other_exceptions_halt:
  assumes g: "g < 4" and sp: "272 \<le> unat (sp_el1 s)" and esr: "esr_el1 s \<noteq> 0x56000000"
  shows "\<exists>s' text. run_vector b ue loc clob (vector_table ! (4 * g)) s = Some (Inr (Halted s')) \<and>
    dev_writes s' = dev_writes s @ map (W8 (uart0_addr s)) (as_bytes text) \<and>
    text = ''-------------------------------------------'' @ [CHR 0x0A] @ ''Registers:'' @ [CHR 0x0A] @
      concat (map (\<lambda>i. hex_pad 16 (unat (xreg s i)) @ '' '') [0..<30]) @ [CHR 0x0A] @
      ''Exception reason: 0x'' @ radix 16 (unat (esr_el1 s)) @ [CHR 0x0A] @
      ''FAR (Address accessed): 0x'' @ radix 16 (unat (far_el1 s)) @ [CHR 0x0A] @
      ''PC: 0x'' @ radix 16 (unat (elr_el1 s)) @ [CHR 0x0A] @ ''LR: 0x'' @ radix 16 (unat (xreg s 30)) @ [CHR 0x0A] @
      ''SP: 0x'' @ hex_pad 16 (unat (sp_el0 s)) @ [CHR 0x0A] @ ''SPSR: 0x'' @ radix 16 (unat (spsr_el1 s)) @ [CHR 0x0A] @
      ''-------------------------------------------'' @ [CHR 0x0A] \<and>
    (\<forall>a. a < unat (sp_el1 s) - 272 \<or> unat (sp_el1 s) \<le> a \<longrightarrow> mem s' a = mem s a)"
proof -
  let ?s' = "dump_context (saved_context s) (handler_state s)"
  have "handler_of b ue Exception_handler2 (saved_context s) (handler_state s) = Some (Inr (Halted (saved_context s, ?s')))"
    using esr by (simp add: handler_of_def exception_handler2_def handler_state_def)
  from vector_entry(2) [OF sp this, of loc clob] vector_group(1) [OF g]
  have run: "run_vector b ue loc clob (vector_table ! (4 * g)) s = Some (Inr (Halted ?s'))" by (simp add: sync_vector_def)
  have "mem ?s' a = mem s a" if "a < unat (sp_el1 s) - 272 \<or> unat (sp_el1 s) \<le> a" for a
    using that sp by (auto simp: dump_context_def println_soc fold_print handler_state_def context_words_def saved_context_def
        intro!: write_words_outside)
  moreover have "dev_writes ?s' = dev_writes s @ map (W8 (uart0_addr s)) (as_bytes (
      ''-------------------------------------------'' @ [CHR 0x0A] @ ''Registers:'' @ [CHR 0x0A] @
      concat (map (\<lambda>i. hex_pad 16 (unat (xreg s i)) @ '' '') [0..<30]) @ [CHR 0x0A] @
      ''Exception reason: 0x'' @ radix 16 (unat (esr_el1 s)) @ [CHR 0x0A] @
      ''FAR (Address accessed): 0x'' @ radix 16 (unat (far_el1 s)) @ [CHR 0x0A] @
      ''PC: 0x'' @ radix 16 (unat (elr_el1 s)) @ [CHR 0x0A] @ ''LR: 0x'' @ radix 16 (unat (xreg s 30)) @ [CHR 0x0A] @
      ''SP: 0x'' @ hex_pad 16 (unat (sp_el0 s)) @ [CHR 0x0A] @ ''SPSR: 0x'' @ radix 16 (unat (spsr_el1 s)) @ [CHR 0x0A] @
      ''-------------------------------------------'' @ [CHR 0x0A]))"
    by (simp add: dump_context_def println_soc fold_print handler_state_def saved_context_def comp_def Let_def as_bytes_def)
  ultimately show ?thesis using run by blast
qed

theorem other_exceptions_halt_witness:
  "\<exists>s'. run_vector Dev sample_ue None (\<lambda>_. 77) (vector_table ! 8) (sample_core 0\<lparr>esr_el1 := 0x92000005\<rparr>) = Some (Inr (Halted s'))"
proof -
  let ?s = "sample_core 0\<lparr>esr_el1 := 0x92000005\<rparr>"
  have "(2 :: nat) < 4" "272 \<le> unat (sp_el1 ?s)" "esr_el1 ?s \<noteq> 0x56000000" by (simp_all add: sample_core_def)
  from other_exceptions_halt [OF this, of Dev sample_ue None "\<lambda>_. 77"] show ?thesis by auto
qed

end
