(* ===== verification/Startup.thy ===== *)
theory Startup
  imports Exceptions
begin

text \<open>
  The way from reset into user mode: the entry code of \<open>src/kernel/src/aarch64/init.s\<close>, and
  \<open>kmain_nommu\<close> and \<open>kmain\<close> of \<open>src/kernel/src/main.rs\<close>.

  Addresses that \<open>src/kernel/src/aarch64/linker.lds\<close> and the compiler choose are parameters. The
  entry code runs with the MMU off: the byte at physical address \<open>p\<close> is the one at \<open>virt p\<close>.
\<close>

section \<open>Entry code\<close>

record image =
  bss_start_phys :: u64
  bss_end_phys :: u64
  initstack_end_phys :: u64
  kmain_nommu_addr :: u64
  kmain_addr :: usize

text \<open>The loop that clears the \<open>bss\<close>; it ends when the pointer meets the end.\<close>

partial_function (option) erase_loop :: "u64 \<Rightarrow> u64 \<Rightarrow> 'z machine_scheme \<Rightarrow> 'z machine_scheme option" where
  "erase_loop x10 x11 s =
     (let s = s\<lparr>mem := write_u64 (mem s) (virt (unat x10)) 0\<rparr>;
          x10 = x10 + 8 in
      if x10 = x11 then Some s else erase_loop x10 x11 s)"

definition erase_bss :: "image \<Rightarrow> 'z machine_scheme \<Rightarrow> 'z machine_scheme option" where
  "erase_bss img s =
     (if bss_start_phys img = bss_end_phys img then Some s
      else erase_loop (bss_start_phys img) (bss_end_phys img) s)"

text \<open>\<open>mov w10, w10\<close>\<close>

definition truncate_low :: "u64 \<Rightarrow> u64" where
  "truncate_low x = ucast (ucast x :: u32)"

text \<open>\<open>_start\<close>, up to the jump; the result has the address jumped to.\<close>

definition asm_start :: "image \<Rightarrow> boot_env \<Rightarrow> 'z cpu_scheme \<Rightarrow> (u64 \<times> 'z cpu_scheme) option" where
  "asm_start img env s =
     (case erase_bss img s of
        None \<Rightarrow> None
      | Some s \<Rightarrow>
          let s = s\<lparr>vbar := truncate_low (vectors env)\<rparr>;
              s = s\<lparr>sp_el1 := initstack_end_phys img\<rparr>
          in Some (truncate_low (kmain_nommu_addr img), s))"

section \<open>Main\<close>

text \<open>The result of \<open>kmain_nommu\<close> has the address it calls, \<open>kmain\<close> in the kernel's window.\<close>

definition kmain_nommu :: "image \<Rightarrow> boot_env \<Rightarrow> u64 \<Rightarrow> 'z cpu_scheme \<Rightarrow> (usize \<times> 'z cpu_scheme) res" where
  "kmain_nommu img env curr_el s =
     bnd (assert (curr_el = 1) ''Unexpectedly booted in EL'') (\<lambda>_.
     let s = mmu_init env s in
     Inr (himem_func (kmain_addr img), s))"

text \<open>\<open>start\<close> leaves for user mode, so what follows its call in \<open>kmain\<close> is never reached.\<close>

definition kmain :: "profile \<Rightarrow> boot_env \<Rightarrow> user_env \<Rightarrow> 'z sys_scheme \<Rightarrow> 'z sys_scheme res" where
  "kmain b env ue s =
     (let s = eject_lowmem env s;
          s = console_println ''--- BoldOS ---'' s;
          s = console_println ''alloc: Initializing early allocator'' s in
      bnd (init_early_heap b (lds ue) s) (\<lambda>(_, s).
      let s = irq_enable s in
      start b ue s))"

text \<open>From reset into user mode, at exception level \<open>curr_el\<close>.\<close>

definition boot :: "profile \<Rightarrow> image \<Rightarrow> boot_env \<Rightarrow> user_env \<Rightarrow> u64 \<Rightarrow> 'z sys_scheme \<Rightarrow> 'z sys_scheme res option" where
  "boot b img env ue curr_el s =
     (case asm_start img env s of
        None \<Rightarrow> None
      | Some (_, s) \<Rightarrow> Some (bnd (kmain_nommu img env curr_el s) (\<lambda>(_, s). kmain b env ue s)))"

section \<open>Clearing memory\<close>

lemma write_zero: "write_u64 m a 0 = write_bytes m a 8 0 1"
  by (auto simp: write_u64_def write_bytes_def)

lemma write_bytes_none [simp]: "write_bytes m a sz v 0 = m"
  by (auto simp: write_bytes_def fun_eq_iff)

lemma erase_loop_ok:
  assumes "unat x + 8 * Suc n \<le> 2 ^ 39" "unat y = unat x + 8 * Suc n"
  shows "erase_loop x y s = Some (s\<lparr>mem := write_bytes (mem s) (virt (unat x)) 8 0 (Suc n)\<rparr>)"
  using assms
proof (induction n arbitrary: x s)
  case 0
  then have "unat (x + 8) = unat x + 8" by (subst unat_add_lem [THEN iffD1]) simp_all
  with 0 have "x + 8 = y" by (simp add: word_unat_eq_iff)
  then show ?case by (subst erase_loop.simps) (simp add: Let_def write_zero)
next
  case (Suc n)
  have x: "unat (x + 8) = unat x + 8" using Suc.prems by (subst unat_add_lem [THEN iffD1]) simp_all
  with Suc.prems have "x + 8 \<noteq> y" by auto
  then have "erase_loop x y s = erase_loop (x + 8) y (s\<lparr>mem := write_bytes (mem s) (virt (unat x)) 8 0 1\<rparr>)"
    by (subst erase_loop.simps) (simp add: Let_def write_zero)
  also have "\<dots> = Some (s\<lparr>mem := write_bytes (write_bytes (mem s) (virt (unat x)) 8 0 1) (virt (unat x + 8)) 8 0 (Suc n)\<rparr>)"
    using Suc.IH [of "x + 8"] Suc.prems x by simp
  also have "virt (unat x + 8) = virt (unat x) + 8" using Suc.prems by (simp add: virt_add)
  also have "write_bytes (write_bytes (mem s) (virt (unat x)) 8 0 1) (virt (unat x) + 8) 8 0 (Suc n) =
      write_bytes (mem s) (virt (unat x)) 8 0 (Suc (Suc n))"
    by (auto simp: write_bytes_def fun_eq_iff)
  finally show ?case .
qed

text \<open>What the linker script ensures: the section starts and ends at multiples of eight.\<close>

definition bss_ok :: "image \<Rightarrow> bool" where
  "bss_ok img \<longleftrightarrow> unat (bss_start_phys img) mod 8 = 0 \<and> unat (bss_end_phys img) mod 8 = 0 \<and>
     unat (bss_start_phys img) \<le> unat (bss_end_phys img) \<and> unat (bss_end_phys img) \<le> 2 ^ 39"

lemma erase_bss_ok:
  assumes "bss_ok img"
  shows "erase_bss img s = Some (s\<lparr>mem := write_bytes (mem s) (virt (unat (bss_start_phys img))) 1 0
    (unat (bss_end_phys img) - unat (bss_start_phys img))\<rparr>)"
proof -
  let ?a = "unat (bss_start_phys img)" and ?e = "unat (bss_end_phys img)"
  have "8 dvd ?a" "8 dvd ?e" using assms by (simp_all add: bss_ok_def mod_eq_0_iff_dvd)
  then have "8 dvd ?e - ?a" by (rule dvd_diff_nat [rotated])
  then obtain n where n: "?e - ?a = 8 * n" by (elim dvdE)
  moreover have "?a \<le> ?e" using assms by (simp add: bss_ok_def)
  ultimately have e: "?e = ?a + 8 * n" by linarith
  show ?thesis
  proof (cases n)
    case 0
    then have "bss_start_phys img = bss_end_phys img" using e by (simp add: word_unat_eq_iff)
    then show ?thesis by (simp add: erase_bss_def)
  next
    case (Suc k)
    then have "bss_start_phys img \<noteq> bss_end_phys img" using e by auto
    moreover have "write_bytes (mem s) (virt ?a) 8 0 (Suc k) = write_bytes (mem s) (virt ?a) 1 0 (?e - ?a)"
      using n Suc by (simp add: write_bytes_def mult.commute)
    ultimately show ?thesis
      using erase_loop_ok [of "bss_start_phys img" k "bss_end_phys img" s] assms e Suc
      by (simp add: erase_bss_def bss_ok_def)
  qed
qed

lemma truncate_low_unat: "unat (truncate_low x) = unat x mod 2 ^ 32"
  by (simp add: truncate_low_def unsigned_ucast_eq take_bit_eq_mod unat_mod)

lemma truncate_low_virt:
  assumes "p < 2 ^ 32"
  shows "truncate_low (of_nat (virt p)) = of_nat p"
proof -
  have v: "virt p = p + 0xffffff00 * 2 ^ 32" using assms by (simp add: virt_add)
  have "virt p < 2 ^ 64" using assms by (simp add: virt_add)
  then have "unat (of_nat (virt p) :: u64) = virt p" by (rule unat_of_nat_small)
  moreover have "virt p mod 2 ^ 32 = p" unfolding v mod_mult_self1 using assms by simp
  moreover have "unat (of_nat p :: u64) = p" using assms by (intro unat_of_nat_small) simp
  ultimately show ?thesis by (simp add: word_unat_eq_iff truncate_low_unat)
qed

section \<open>The kernel's half of the address space\<close>

definition in_tables :: "boot_env \<Rightarrow> usize \<Rightarrow> bool" where
  "in_tables env x \<longleftrightarrow> (\<exists>t \<in> {TABLE_L0 env, TABLE_L1_MEM env, TABLE_L1_DEV env}. virt t \<le> x \<and> x < virt t + 4096)"

lemma table_slot:
  assumes "t < 2 ^ 39" "i < 512" "x < virt t \<or> virt t + 4096 \<le> x"
  shows "x < phys_entry t i \<or> phys_entry t i + 8 \<le> x"
  using assms by (auto simp: phys_entry_add virt_add)

lemma l1_mem_outside:
  assumes "t < 2 ^ 39" "x < virt t \<or> virt t + 4096 \<le> x"
  shows "make_page_table_l1 t attr m x = m x"
proof -
  have "fold (\<lambda>i m. write_u64 m (phys_entry t i) (l1_entry attr i)) [0..<n] m x = m x" if "n \<le> 512" for n
    using that by (induction n) (simp_all add: write_u64_outside table_slot [OF assms(1) _ assms(2)])
  then show ?thesis by (simp add: make_page_table_l1_def)
qed

lemma mmu_init_outside:
  assumes env: "env_ok env" and x: "\<not> in_tables env x"
  shows "mem (mmu_init env s) x = mem s x"
proof -
  from env have t: "TABLE_L0 env < 2 ^ 39" "TABLE_L1_MEM env < 2 ^ 39" "TABLE_L1_DEV env < 2 ^ 39" by (simp_all add: env_ok_def)
  from x have out: "x < virt t \<or> virt t + 4096 \<le> x" if "t \<in> {TABLE_L0 env, TABLE_L1_MEM env, TABLE_L1_DEV env}" for t
    using that unfolding in_tables_def by (meson not_le)
  have "mem (mmu_init env s) x = make_page_table_l0 env (TABLE_L0 env) (mem s) x"
    using l1_mem_outside [OF t(2), of x] l1_mem_outside [OF t(3), of x] out by (simp add: mmu_init_def Let_def)
  also have "\<dots> = mem s x"
    using table_slot [OF t(1) _ out] by (simp add: make_page_table_l0_def Let_def write_u64_outside)
  finally show ?thesis .
qed

lemma l0_unused:
  assumes env: "env_ok env" and i: "0 < i" "i < 510"
  shows "read_u64 (mem (mmu_init env s)) (phys_entry (TABLE_L0 env) i) = read_u64 (mem s) (phys_entry (TABLE_L0 env) i)"
proof -
  from env have t: "TABLE_L0 env < 2 ^ 39" "TABLE_L1_MEM env < 2 ^ 39" "TABLE_L1_DEV env < 2 ^ 39"
    "TABLE_L0 env mod 4096 = 0" "TABLE_L1_MEM env mod 4096 = 0" "TABLE_L1_DEV env mod 4096 = 0"
    "TABLE_L0 env \<noteq> TABLE_L1_MEM env" "TABLE_L0 env \<noteq> TABLE_L1_DEV env" by (simp_all add: env_ok_def)
  have "i < 512" using i by simp
  note l1 = l1_other [OF t(3,6,1,4) t(8) order.refl this, folded make_page_table_l1_def]
    l1_other [OF t(2,5,1,4) t(7) order.refl this, folded make_page_table_l1_def]
  have "read_u64 (mem (mmu_init env s)) (phys_entry (TABLE_L0 env) i) =
      read_u64 (make_page_table_l0 env (TABLE_L0 env) (mem s)) (phys_entry (TABLE_L0 env) i)"
    by (simp add: mmu_init_def Let_def l1)
  also have "\<dots> = read_u64 (mem s) (phys_entry (TABLE_L0 env) i)"
    using i by (simp add: make_page_table_l0_def Let_def phys_entry_add [OF t(1)] read_write_other)
  finally show ?thesis .
qed

text \<open>
  The kernel's half as long as the boot tables hold what \<open>mmu_init\<close> wrote: both windows map all of
  physical memory, and user mode can read nothing.
\<close>

lemma kernel_half:
  fixes s s' :: "'z cpu_scheme"
  assumes env: "env_ok env" "ttbr_ok env" and base: "ttbr1 s' = ttbr1 (mmu_init env s)"
    and same: "\<And>t i. t \<in> {TABLE_L0 env, TABLE_L1_MEM env, TABLE_L1_DEV env} \<Longrightarrow> i < 512 \<Longrightarrow>
      read_u64 (mem s') (phys_entry t i) = read_u64 (mem (mmu_init env s)) (phys_entry t i)"
    and unused: "\<And>i. 0 < i \<Longrightarrow> i < 510 \<Longrightarrow> read_u64 (mem s) (phys_entry (TABLE_L0 env) i) = 0"
  shows "p < 2 ^ 39 \<Longrightarrow> mmu_walk s' (ttbr1 s') (virt p) = Some (p, l1_entry PT_MEM (p div 2 ^ 30))"
    and "p < 2 ^ 39 \<Longrightarrow> mmu_walk s' (ttbr1 s') (virt_dev p) = Some (p, l1_entry PT_DEV (p div 2 ^ 30))"
    and "2 ^ 64 - 2 ^ 48 \<le> v \<Longrightarrow> user_load s' v = Inl (Fault v)"
proof -
  have root: "out_addr (ttbr1 s') = TABLE_L0 env"
    using env(2) unfolding base by (simp add: mmu_init_def Let_def ttbr_ok_def)
  from env(1) have t: "TABLE_L1_MEM env mod 4096 = 0" "TABLE_L1_MEM env < 2 ^ 39"
    "TABLE_L1_DEV env mod 4096 = 0" "TABLE_L1_DEV env < 2 ^ 39" by (simp_all add: env_ok_def)
  note tab = boot_tables [OF env(1), of _ s]
  have l0: "read_u64 (mem s') (phys_entry (TABLE_L0 env) 0) = of_nat (TABLE_L1_MEM env) OR PT_PAGE"
    "read_u64 (mem s') (phys_entry (TABLE_L0 env) 510) = of_nat (TABLE_L1_MEM env) OR PT_PAGE"
    "read_u64 (mem s') (phys_entry (TABLE_L0 env) 511) = of_nat (TABLE_L1_DEV env) OR PT_PAGE"
    using tab(1-3) [of 0] by (simp_all add: same)
  have l1: "\<forall>i < 512. read_u64 (mem s') (phys_entry (TABLE_L1_MEM env) i) = l1_entry PT_MEM i"
    "\<forall>i < 512. read_u64 (mem s') (phys_entry (TABLE_L1_DEV env) i) = l1_entry PT_DEV i"
    using tab(4,5) same by simp_all
  have walk: "mmu_walk s' (ttbr1 s') u = hw_walk (mem s') [39, 30, 21, 12] (TABLE_L0 env) u" for u
    by (simp add: mmu_walk_def root)
  show "mmu_walk s' (ttbr1 s') (virt p) = Some (p, l1_entry PT_MEM (p div 2 ^ 30))" if p: "p < 2 ^ 39"
    using boot_walk [OF _ t(1,2) l1(1), of "TABLE_L0 env" "virt p"] l0(2) window_index [OF p, of 33554430]
    unfolding walk windows(1) [OF p] by simp
  show "mmu_walk s' (ttbr1 s') (virt_dev p) = Some (p, l1_entry PT_DEV (p div 2 ^ 30))" if p: "p < 2 ^ 39"
    using boot_walk [OF _ t(3,4) l1(2), of "TABLE_L0 env" "virt_dev p"] l0(3) window_index [OF p, of 33554431]
    unfolding walk windows(2) [OF p] by simp
  assume v: "2 ^ 64 - 2 ^ 48 \<le> v"
  let ?i = "(v div 2 ^ 39) mod 512" and ?j = "(v div 2 ^ 30) mod 512"
  have uw: "user_walk s' v = hw_walk (mem s') [39, 30, 21, 12] (TABLE_L0 env) v"
    using v by (simp add: user_walk_def walk)
  have no: "\<not> bit (l1_entry PT_MEM ?j) 6" "\<not> bit (l1_entry PT_DEV ?j) 6"
    using l1_entry_block(4) [of ?j PT_MEM] l1_entry_block(4) [of ?j PT_DEV] by simp_all
  have "?i < 512" by simp
  then consider "?i = 0" | "?i = 510" | "?i = 511" | "0 < ?i" "?i < 510" by linarith
  then show "user_load s' v = Inl (Fault v)"
  proof cases
    case 1
    with boot_walk [OF _ t(1,2) l1(1), of "TABLE_L0 env" v] l0(1) no show ?thesis by (simp add: user_load_def uw)
  next
    case 2
    with boot_walk [OF _ t(1,2) l1(1), of "TABLE_L0 env" v] l0(2) no show ?thesis by (simp add: user_load_def uw)
  next
    case 3
    with boot_walk [OF _ t(3,4) l1(2), of "TABLE_L0 env" v] l0(3) no show ?thesis by (simp add: user_load_def uw)
  next
    case 4
    then have "read_u64 (mem s') (phys_entry (TABLE_L0 env) ?i) = 0"
      using l0_unused [OF env(1), of ?i s] unused [of ?i] same [of "TABLE_L0 env" ?i] by simp
    then show ?thesis by (simp add: user_load_def uw hw_walk.simps phys_entry_def Let_def)
  qed
qed

section \<open>Boot\<close>

text \<open>
  What the linker script and the compiler ensure: the kernel is linked in the first 4 GiB of its
  window, \<open>TABLE_L0\<close>, a static that is all zeros, lies in the \<open>bss\<close>, and the early heap is in the window
  and apart from the boot tables.
\<close>

definition image_ok :: "image \<Rightarrow> boot_env \<Rightarrow> layout \<Rightarrow> bool" where
  "image_ok img env ly \<longleftrightarrow> bss_ok img \<and> layout_ok ly \<and>
     0xffffff0000000000 \<le> unat (kmain_nommu_addr img) \<and> unat (kmain_nommu_addr img) < 0xffffff0100000000 \<and>
     unat (bss_start_phys img) \<le> TABLE_L0 env \<and> TABLE_L0 env + 4096 \<le> unat (bss_end_phys img) \<and>
     0xffffff0000000000 \<le> EARLY_HEAP ly \<and> EARLY_HEAP ly + PAGE_ALLOC_PAGES * 4096 \<le> 0xffffff8000000000 \<and>
     (\<forall>t \<in> {TABLE_L0 env, TABLE_L1_MEM env, TABLE_L1_DEV env}. virt t + 4096 \<le> EARLY_HEAP ly \<or> EARLY_HEAP ly + EARLY_HEAP_SIZE \<le> virt t)"

text \<open>The state in which the entry code jumps.\<close>

definition after_entry :: "image \<Rightarrow> boot_env \<Rightarrow> 'z cpu_scheme \<Rightarrow> 'z cpu_scheme" where
  "after_entry img env s = s\<lparr>mem := write_bytes (mem s) (virt (unat (bss_start_phys img))) 1 0 (unat (bss_end_phys img) - unat (bss_start_phys img)),
      vbar := truncate_low (vectors env), sp_el1 := initstack_end_phys img\<rparr>"

lemma asm_start_ok:
  fixes s :: "'z cpu_scheme"
  assumes "image_ok img env ly"
  shows "asm_start img env s = Some (of_nat (from_virt (unat (kmain_nommu_addr img))), after_entry img env s)"
proof -
  let ?a = "unat (kmain_nommu_addr img)"
  have a: "0xffffff0000000000 \<le> ?a" "?a < 0xffffff0100000000" and bss: "bss_ok img" using assms by (simp_all add: image_ok_def)
  then have "from_virt ?a < 2 ^ 32" "virt (from_virt ?a) = ?a" using virt_from_virt [of ?a] by (simp_all add: from_virt_sub)
  with truncate_low_virt [of "from_virt ?a"] have "truncate_low (kmain_nommu_addr img) = of_nat (from_virt ?a)" by simp
  then show ?thesis by (simp add: asm_start_def erase_bss_ok [OF bss] after_entry_def)
qed

lemma early_heap_run:
  assumes ly: "image_ok img env ly" and pa: "pa_inv pa" "ram_base pa = EARLY_HEAP ly" "pa_capacity pa = PAGE_ALLOC_PAGES"
    "taken pa = pages_at (EARLY_HEAP ly) PAGE_ALLOC_PAGES - pages_at (EARLY_HEAP ly) (EARLY_HEAP_SIZE div PAGE_SIZE)"
    and s: "PAGE_ALLOC s = pa"
  shows "heap_run s (EARLY_HEAP ly) 256"
proof -
  have "pages_at (EARLY_HEAP ly) 256 \<subseteq> pages_at (EARLY_HEAP ly) PAGE_ALLOC_PAGES"
    unfolding subset_iff in_pages_at by (auto simp: heap_consts)
  then have "free_pages pa = pages_at (EARLY_HEAP ly) 256"
    using free_pages_eq [OF pa(1)] by (auto simp: pa heap_consts)
  with ly pa show ?thesis by (simp add: heap_run_def s heap_linear_def image_ok_def)
qed

text \<open>The state in which \<open>kmain\<close> calls \<open>start\<close>.\<close>

definition before_start :: "image \<Rightarrow> boot_env \<Rightarrow> BitmapPageAlloc \<Rightarrow> 'z sys_scheme \<Rightarrow> 'z sys_scheme" where
  "before_start img env pa s =
     irq_enable (console_println ''alloc: Initializing early allocator'' (console_println ''--- BoldOS ---''
       (eject_lowmem env (mmu_init env (after_entry img env s))))\<lparr>PAGE_ALLOC := pa\<rparr>)"

lemma boot_prepared:
  fixes s :: "'z sys_scheme"
  assumes img: "image_ok img env (lds ue)" and new: "PAGE_ALLOC s = page_alloc_new PAGE_ALLOC_CELLS 0"
  obtains pa where "boot b img env ue 1 s = Some (start b ue (before_start img env pa s))"
    "heap_run (before_start img env pa s) (EARLY_HEAP (lds ue)) 256" "early_heap_pa (lds ue) (PAGE_ALLOC (before_start img env pa s))"
proof -
  define s2 where "s2 = console_println ''alloc: Initializing early allocator'' (console_println ''--- BoldOS ---'' (eject_lowmem env (mmu_init env (after_entry img env s))))"
  have "PAGE_ALLOC s2 = PAGE_ALLOC s"
    by (simp add: s2_def after_entry_def println_soc eject_lowmem_def mmu_init_def Let_def tlb_flush_def console_eject_lowmem_def)
  moreover have "layout_ok (lds ue)" using img by (simp add: image_ok_def)
  ultimately obtain pa where pa: "init_early_heap b (lds ue) s2 = Inr ((), s2\<lparr>PAGE_ALLOC := pa\<rparr>)" "pa_inv pa"
    "ram_base pa = EARLY_HEAP (lds ue)" "pa_capacity pa = PAGE_ALLOC_PAGES"
    "taken pa = pages_at (EARLY_HEAP (lds ue)) PAGE_ALLOC_PAGES - pages_at (EARLY_HEAP (lds ue)) (EARLY_HEAP_SIZE div PAGE_SIZE)"
    using init_early_heap_pa [of "lds ue" s2 b] new by metis
  have bs: "before_start img env pa s = irq_enable (s2\<lparr>PAGE_ALLOC := pa\<rparr>)"
    unfolding before_start_def s2_def ..
  have run: "boot b img env ue 1 s = Some (start b ue (before_start img env pa s))"
    unfolding boot_def asm_start_ok [OF img] bs
    by (simp add: kmain_nommu_def kmain_def Let_def s2_def [symmetric] pa(1))
  have eq: "PAGE_ALLOC (before_start img env pa s) = pa" unfolding bs by (simp add: irq_enable_def msr_daifclr_def)
  have "early_heap_pa (lds ue) (PAGE_ALLOC (before_start img env pa s))" unfolding eq by (rule early_heap_paI [OF pa(2-5)])
  with early_heap_run [OF img pa(2-5) eq] run show thesis by (intro that)
qed

lemma before_start_state:
  fixes s :: "'z sys_scheme"
  assumes "uart0_addr s = 0x9000000"
  shows "tlb (before_start img env pa s) = (\<lambda>_. None)"
    "mem (before_start img env pa s) = mem (mmu_init env (after_entry img env s))"
    "ttbr1 (before_start img env pa s) = ttbr1 (mmu_init env (after_entry img env s))"
    "vbar (before_start img env pa s) = vectors env"
    "uart0_addr (before_start img env pa s) = virt 0x9000000" "\<not> bit (daif (before_start img env pa s)) 7"
    "dev_writes (before_start img env pa s) = dev_writes s @
       map (W8 (virt 0x9000000)) (as_bytes (''--- BoldOS ---'' @ [CHR 0x0A] @ ''alloc: Initializing early allocator'' @ [CHR 0x0A]))"
  using assms(1)
  by (simp_all add: before_start_def after_entry_def irq_enable_def msr_daifclr_def println_soc eject_lowmem_def Let_def
      console_eject_lowmem_def tlb_flush_def mmu_init_def virt_def bit_and_iff bit_not_iff bit_push_bit_iff bit_numeral_rec as_bytes_def)

text \<open>The kernel's half when user mode is entered: \<open>start\<close> writes to the early heap only.\<close>

lemma boot_kernel_half:
  fixes s s' :: "'z sys_scheme"
  assumes env: "env_ok env" "ttbr_ok env" and img: "image_ok img env ly"
    and base: "ttbr1 s' = ttbr1 (mmu_init env (after_entry img env s))"
    and rest: "\<And>x. x < EARLY_HEAP ly \<or> EARLY_HEAP ly + EARLY_HEAP_SIZE \<le> x \<Longrightarrow> mem s' x = mem (mmu_init env (after_entry img env s)) x"
  shows "p < 2 ^ 39 \<Longrightarrow> mmu_walk s' (ttbr1 s') (virt p) = Some (p, l1_entry PT_MEM (p div 2 ^ 30))"
    and "p < 2 ^ 39 \<Longrightarrow> mmu_walk s' (ttbr1 s') (virt_dev p) = Some (p, l1_entry PT_DEV (p div 2 ^ 30))"
    and "2 ^ 64 - 2 ^ 48 \<le> v \<Longrightarrow> user_load s' v = Inl (Fault v)"
    and "\<not> in_tables env x \<Longrightarrow> x < virt (unat (bss_start_phys img)) \<or> virt (unat (bss_end_phys img)) \<le> x \<Longrightarrow>
      x < EARLY_HEAP ly \<or> EARLY_HEAP ly + EARLY_HEAP_SIZE \<le> x \<Longrightarrow> mem s' x = mem s x"
proof -
  let ?h = "EARLY_HEAP ly" and ?s0 = "after_entry img env s"
  have bss: "unat (bss_start_phys img) \<le> TABLE_L0 env" "TABLE_L0 env + 4096 \<le> unat (bss_end_phys img)"
    "unat (bss_start_phys img) \<le> unat (bss_end_phys img)" "unat (bss_end_phys img) \<le> 2 ^ 39"
    using img by (simp_all add: image_ok_def bss_ok_def)
  have t: "t < 2 ^ 39" "virt t + 4096 \<le> ?h \<or> ?h + EARLY_HEAP_SIZE \<le> virt t"
    if "t \<in> {TABLE_L0 env, TABLE_L1_MEM env, TABLE_L1_DEV env}" for t
    using env(1) img that unfolding env_ok_def image_ok_def by blast+
  have same: "read_u64 (mem s') (phys_entry t i) = read_u64 (mem (mmu_init env ?s0)) (phys_entry t i)"
    if "t \<in> {TABLE_L0 env, TABLE_L1_MEM env, TABLE_L1_DEV env}" and i: "i < 512" for t i
    using t [OF that(1)] i by (intro read_u64_cong rest) (auto simp: phys_entry_add virt_add)
  have unused: "read_u64 (mem ?s0) (phys_entry (TABLE_L0 env) i) = 0" if "0 < i" "i < 510" for i
  proof -
    have "read_u64 (mem ?s0) (phys_entry (TABLE_L0 env) i) = read_u64 (\<lambda>_. 0) (phys_entry (TABLE_L0 env) i)"
      using that bss by (intro read_u64_cong) (simp add: phys_entry_add after_entry_def write_bytes_def virt_add)
    then show ?thesis by (simp add: read_zero)
  qed
  note half = kernel_half [OF env base same unused]
  show "p < 2 ^ 39 \<Longrightarrow> mmu_walk s' (ttbr1 s') (virt p) = Some (p, l1_entry PT_MEM (p div 2 ^ 30))"
    "p < 2 ^ 39 \<Longrightarrow> mmu_walk s' (ttbr1 s') (virt_dev p) = Some (p, l1_entry PT_DEV (p div 2 ^ 30))"
    "2 ^ 64 - 2 ^ 48 \<le> v \<Longrightarrow> user_load s' v = Inl (Fault v)" using half by blast+
  assume x: "\<not> in_tables env x" "x < virt (unat (bss_start_phys img)) \<or> virt (unat (bss_end_phys img)) \<le> x" "x < ?h \<or> ?h + EARLY_HEAP_SIZE \<le> x"
  have "mem ?s0 x = mem s x" using x(2) bss by (auto simp: after_entry_def write_bytes_def virt_add)
  with rest [OF x(3)] mmu_init_outside [OF env(1) x(1), of ?s0] show "mem s' x = mem s x" by simp
qed

section \<open>Properties\<close>

text \<open>
  The entry code clears the \<open>bss\<close> and nothing else: its loop ends, every byte of the section is zero
  afterwards, and all other bytes and the rest of the machine are as before.
\<close>

theorem erase_bss_clears:
  assumes "bss_ok img"
  shows "\<exists>s'. erase_bss img s = Some s' \<and> s'\<lparr>mem := mem s\<rparr> = s \<and>
    (\<forall>p. unat (bss_start_phys img) \<le> p \<and> p < unat (bss_end_phys img) \<longrightarrow> mem s' (virt p) = 0) \<and>
    (\<forall>x. x < virt (unat (bss_start_phys img)) \<or> virt (unat (bss_end_phys img)) \<le> x \<longrightarrow> mem s' x = mem s x)"
proof -
  let ?a = "unat (bss_start_phys img)" and ?e = "unat (bss_end_phys img)"
  have b: "?a \<le> ?e" "?e \<le> 2 ^ 39" using assms by (simp_all add: bss_ok_def)
  show ?thesis
    unfolding erase_bss_ok [OF assms] using b by (auto simp: write_bytes_def virt_add)
qed


text \<open>An image whose \<open>bss\<close> begins with the boot tables, right behind the early heap.\<close>

definition sample_image :: image where
  "sample_image = \<lparr>bss_start_phys = 0x40300000, bss_end_phys = 0x40308000, initstack_end_phys = 0x40310000,
     kmain_nommu_addr = 0xffffff0040110000, kmain_addr = 0x40120000\<rparr>"

lemma sample_image_ok: "image_ok sample_image sample_env virt_layout"
  using virt_layout_ok(1)
  by (simp add: image_ok_def bss_ok_def sample_image_def sample_env_def virt_layout_def virt_def heap_consts)

theorem erase_bss_clears_witness:
  "\<exists>s'. erase_bss sample_image reset_state = Some s' \<and> mem s' 0xffffff0040307fff = 0"
proof -
  have "bss_ok sample_image" using sample_image_ok by (simp add: image_ok_def)
  from erase_bss_clears [OF this, of reset_state] obtain s' where
    "erase_bss sample_image reset_state = Some s'" "mem s' (virt 0x40307fff) = 0" by (auto simp: sample_image_def)
  then show ?thesis by (auto simp: virt_def)
qed


end
