(* ===== verification/Init_Program.thy ===== *)
theory Init_Program
  imports User_Lib Startup
begin

text \<open>
  The init program, \<open>src/init/src/main.rs\<close> and \<open>src/init/src/drv.rs\<close>: it maps the device tree, tells the
  kernel about memory, the interrupt controller and the timer, and then prints the time every second.

  The device tree is read by the crate \<open>fdt_rs\<close>. What it finds in the bytes of the tree is a parameter:
  a tree is the items its iterators yield, in order, each of them possibly an error, and its functions are
  fields of a record. Flags without any bit (\<open>PhyMapFlags::empty\<close>) are 0.
\<close>

section \<open>Device trees\<close>

record 'e dt_prop =
  prop_name :: "'e + string"
  prop_u64 :: "nat \<Rightarrow> 'e + u64"
  prop_u32 :: "nat \<Rightarrow> 'e + u32"
  prop_length :: usize
  first_str :: "'e + string option"

record 'e dt_node =
  node_name :: "'e + string"
  node_props :: "('e + 'e dt_prop) list"

record 'e DevTree =
  dt_ptr :: usize
  dt_buf :: "u8 list"
  dt_nodes :: "('e + 'e dt_node) list"
  compatible_nodes :: "string \<Rightarrow> ('e + 'e dt_node) list"

record 'e fdt =
  MIN_HEADER_SIZE :: usize
  read_totalsize :: "u8 list \<Rightarrow> 'e + usize"
  DevTree_new :: "usize \<Rightarrow> u8 list \<Rightarrow> 'e + 'e DevTree"
  error_debug :: "'e \<Rightarrow> string"

text \<open>The operator \<open>?\<close> on a value of type \<open>Result\<close>, and \<open>expect\<close> and \<open>unwrap\<close> on one.\<close>

definition try_bind :: "('w, 'e + 'a) prog \<Rightarrow> ('a \<Rightarrow> ('w, 'e + 'b) prog) \<Rightarrow> ('w, 'e + 'b) prog" where
  "try_bind m f = ubind m (\<lambda>r. case r of Inl e \<Rightarrow> uret (Inl e) | Inr x \<Rightarrow> f x)"

definition result_expect :: "string \<Rightarrow> ('e \<Rightarrow> string) \<Rightarrow> 'e + 'a \<Rightarrow> ('w, 'a) prog" where
  "result_expect msg dbg r = (case r of Inl e \<Rightarrow> upanic (ExpectFailed (msg @ '': '' @ dbg e)) | Inr x \<Rightarrow> uret x)"

definition result_unwrap :: "('e \<Rightarrow> string) \<Rightarrow> 'e + 'a \<Rightarrow> ('w, 'a) prog" where
  "result_unwrap dbg r = result_expect ''called `Result::unwrap()` on an `Err` value'' dbg r"

text \<open>The derived \<open>Debug\<close> output of \<open>KError\<close>.\<close>

definition signed_text :: "int \<Rightarrow> string" where
  "signed_text n = (if n < 0 then ''-'' @ radix 10 (nat (- n)) else radix 10 (nat n))"

primrec kerror_debug :: "KError \<Rightarrow> string" where
  "kerror_debug (Unknown n) = ''Unknown('' @ signed_text (sint n) @ '')''"
| "kerror_debug AlreadyExists = ''AlreadyExists''"
| "kerror_debug OOM = ''OOM''"
| "kerror_debug InvalidArgument = ''InvalidArgument''"

section \<open>Mapping the device tree\<close>

definition DTB_ADDR :: usize where "DTB_ADDR = 0x40000000"
definition MAP_LEN :: usize where "MAP_LEN = 0x1000"

definition map_dtb :: "'w os \<Rightarrow> 'e fdt \<Rightarrow> ('w, 'e + 'e DevTree) prog" where
  "map_dtb os fdt =
     ubind (phy_map os DTB_ADDR MAP_LEN 0) (\<lambda>r.
     ubind (result_unwrap kerror_debug r) (\<lambda>dtb.
     ubind (load_slice os dtb (MIN_HEADER_SIZE fdt)) (\<lambda>header.
     try_bind (uret (read_totalsize fdt header)) (\<lambda>dtb_len.
     if dtb_len \<le> MAP_LEN then
       ubind (load_slice os dtb dtb_len) (\<lambda>bytes. uret (DevTree_new fdt dtb bytes))
     else
       ubind (mem_unmap os dtb MAP_LEN) (\<lambda>r.
       ubind (result_unwrap kerror_debug r) (\<lambda>_.
       ubind (phy_map os DTB_ADDR dtb_len 0) (\<lambda>r.
       ubind (result_unwrap kerror_debug r) (\<lambda>dtb.
       ubind (load_slice os dtb dtb_len) (\<lambda>bytes. uret (DevTree_new fdt dtb bytes))))))))))"

section \<open>Finding memory\<close>

text \<open>The loop over the properties of the node \<open>chosen\<close>; it ends at the first \<open>bootargs\<close>.\<close>

fun find_bootargs :: "('e + 'e dt_prop) list \<Rightarrow> string option \<Rightarrow> 'e + string option" where
  "find_bootargs [] bootargs = Inr bootargs"
| "find_bootargs (Inl e # ps) bootargs = Inl e"
| "find_bootargs (Inr prop # ps) bootargs =
     (case prop_name prop of
        Inl e \<Rightarrow> Inl e
      | Inr name \<Rightarrow> if name = ''bootargs'' then first_str prop else find_bootargs ps bootargs)"

text \<open>The loop over the properties of a memory node; it ends at the first \<open>reg\<close>.\<close>

fun find_reg :: "('e + 'e dt_prop) list \<Rightarrow> (u64 \<times> u64) option \<Rightarrow> 'e + (u64 \<times> u64) option" where
  "find_reg [] ram = Inr ram"
| "find_reg (Inl e # ps) ram = Inl e"
| "find_reg (Inr prop # ps) ram =
     (case prop_name prop of
        Inl e \<Rightarrow> Inl e
      | Inr name \<Rightarrow>
          if name = ''reg'' then
            (case prop_u64 prop 0 of
               Inl e \<Rightarrow> Inl e
             | Inr a \<Rightarrow> (case prop_u64 prop 1 of Inl e \<Rightarrow> Inl e | Inr l \<Rightarrow> Inr (Some (a, l))))
          else find_reg ps ram)"

text \<open>The loop over the nodes.\<close>

fun scan_nodes ::
  "('e + 'e dt_node) list \<Rightarrow> string option \<Rightarrow> (u64 \<times> u64) option \<Rightarrow> 'e + (string option \<times> (u64 \<times> u64) option)" where
  "scan_nodes [] bootargs ram = Inr (bootargs, ram)"
| "scan_nodes (Inl e # ns) bootargs ram = Inl e"
| "scan_nodes (Inr node # ns) bootargs ram =
     (case node_name node of
        Inl e \<Rightarrow> Inl e
      | Inr name \<Rightarrow>
          if name = ''chosen'' then
            (case find_bootargs (node_props node) bootargs of Inl e \<Rightarrow> Inl e | Inr bootargs \<Rightarrow> scan_nodes ns bootargs ram)
          else if take 7 name = ''memory@'' then
            (case find_reg (node_props node) ram of Inl e \<Rightarrow> Inl e | Inr ram \<Rightarrow> scan_nodes ns bootargs ram)
          else scan_nodes ns bootargs ram)"

text \<open>\<open>{:?}\<close> of a string (of ASCII characters).\<close>

definition char_debug :: "char \<Rightarrow> string" where
  "char_debug ch =
     (let n = of_char ch :: nat in
      if n = 0x22 then [CHR 0x5C, CHR 0x22] else if n = 0x5C then [CHR 0x5C, CHR 0x5C]
      else if n = 0 then [CHR 0x5C] @ ''0'' else if n = 9 then [CHR 0x5C] @ ''t''
      else if n = 10 then [CHR 0x5C] @ ''n'' else if n = 13 then [CHR 0x5C] @ ''r''
      else if n < 32 \<or> n = 127 then [CHR 0x5C] @ ''u{'' @ radix 16 n @ ''}'' else [ch])"

definition str_debug :: "string \<Rightarrow> string" where
  "str_debug str = [CHR 0x22] @ concat (map char_debug str) @ [CHR 0x22]"

definition find_mem_nodes :: "'w os \<Rightarrow> 'e DevTree \<Rightarrow> ('w, 'e + unit) prog" where
  "find_mem_nodes os dtb =
     try_bind (uret (scan_nodes (dt_nodes dtb) None None)) (\<lambda>(bootargs, ram).
     ubind (case bootargs of
              Some str \<Rightarrow> user_println os (''Boot args: '' @ str_debug str)
            | None \<Rightarrow> user_println os ''No boot args'') (\<lambda>_.
     ubind (own_step (expect ram ''device tree did not contain memory node'')) (\<lambda>(base, l).
     ubind (user_println os (''RAM: 0p'' @ radix 16 (unat base) @ '' ('' @ radix 10 (unat l) @ '' bytes)'')) (\<lambda>_.
     ubind (download_more_ram os (unat base) (unat l)) (\<lambda>r.
     ubind (result_unwrap kerror_debug r) (\<lambda>_. uret (Inr ())))))))"

section \<open>Interrupt controller and timer\<close>

record GicTimer =
  gt_gicd_base :: u64
  gt_gicc_base :: u64
  gt_timer_ppi_interrupt :: u32

definition PPI_OFFSET :: u32 where "PPI_OFFSET = 16"
definition PPI_NON_SECURE_PHYS_TIMER :: u32 where "PPI_NON_SECURE_PHYS_TIMER = 14"

text \<open>\<open>assert_eq!\<close> on a field of a property.\<close>

definition check_u32 :: "'e dt_prop \<Rightarrow> nat \<Rightarrow> (u32 \<Rightarrow> bool) \<Rightarrow> string \<Rightarrow> ('w, 'e + unit) prog" where
  "check_u32 prop i P msg =
     try_bind (uret (prop_u32 prop i)) (\<lambda>n. ubind (own_step (assert (P n) msg)) (\<lambda>_. uret (Inr ())))"

text \<open>The loop over the properties of the interrupt controller.\<close>

primrec intc_props :: "('e + 'e dt_prop) list \<Rightarrow> u64 \<Rightarrow> u64 \<Rightarrow> ('w, 'e + u64 \<times> u64) prog" where
  "intc_props [] gicd gicc = uret (Inr (gicd, gicc))"
| "intc_props (p # ps) gicd gicc =
     try_bind (uret p) (\<lambda>prop.
     try_bind (uret (prop_name prop)) (\<lambda>name.
     if name = ''reg'' then
       try_bind (uret (prop_u64 prop 0)) (\<lambda>gicd.
       try_bind (uret (prop_u64 prop 2)) (\<lambda>gicc. intc_props ps gicd gicc))
     else if name = ''#size-cells'' then
       try_bind (check_u32 prop 0 (\<lambda>n. n = 2) ''Interrupt controller node must have #size-cells = 2'') (\<lambda>_. intc_props ps gicd gicc)
     else if name = ''#address-cells'' then
       try_bind (check_u32 prop 0 (\<lambda>n. n = 2) ''Interrupt controller node must have #address-cells = 2'') (\<lambda>_. intc_props ps gicd gicc)
     else if name = ''#interrupt-cells'' then
       try_bind (check_u32 prop 0 (\<lambda>n. n = 3) ''Interrupt controller node must have #interrupt-cells = 3'') (\<lambda>_. intc_props ps gicd gicc)
     else intc_props ps gicd gicc))"

text \<open>The loop over the properties of the timer.\<close>

primrec timer_props :: "('e + 'e dt_prop) list \<Rightarrow> ('w, 'e + unit) prog" where
  "timer_props [] = uret (Inr ())"
| "timer_props (p # ps) =
     try_bind (uret p) (\<lambda>prop.
     try_bind (uret (prop_name prop)) (\<lambda>name.
     if name = ''interrupts'' then
       ubind (own_step (assert (prop_length prop = 48) ''Interrupts property must be 48 bytes'')) (\<lambda>_.
       try_bind (check_u32 prop 3 (\<lambda>int_type. int_type = 1) ''Only PPI interrupts are supported'') (\<lambda>_.
       try_bind (check_u32 prop 4 (\<lambda>ppi_id. ppi_id = PPI_NON_SECURE_PHYS_TIMER) ''PPI ID must be 14'') (\<lambda>_.
       try_bind (check_u32 prop 5 (\<lambda>flags. flags AND 4 = 4) ''Interrupt must be level-triggered'') (\<lambda>_. timer_props ps))))
     else timer_props ps))"

text \<open>The first and only node of an iterator: \<open>panic!\<close> without one, and an assertion that there is no other.\<close>

definition first_node :: "('e + 'e dt_node) list \<Rightarrow> string \<Rightarrow> ('w, 'e + 'e dt_node) prog" where
  "first_node ns msg = (case ns of [] \<Rightarrow> upanic (AssertFailed msg) | n # _ \<Rightarrow> uret n)"

definition no_more_nodes :: "('e + 'e dt_node) list \<Rightarrow> string \<Rightarrow> ('w, 'e + unit) prog" where
  "no_more_nodes ns msg = (case tl ns of
     [] \<Rightarrow> uret (Inr ())
   | n # _ \<Rightarrow> try_bind (uret n) (\<lambda>_. upanic (AssertFailed msg)))"

definition find_and_init :: "'w os \<Rightarrow> 'e DevTree \<Rightarrow> ('w, 'e + GicTimer) prog" where
  "find_and_init os dtb =
     ubind (user_println os ''Extracting timer information from DTB'') (\<lambda>_.
     let intc_nodes = compatible_nodes dtb ''arm,cortex-a15-gic'' in
     try_bind (first_node intc_nodes ''Interrupt controller node not found'') (\<lambda>intc_node.
     try_bind (intc_props (node_props intc_node) 0 0) (\<lambda>(gicd, gicc).
     try_bind (no_more_nodes intc_nodes ''Multiple interrupt controller nodes found'') (\<lambda>_.
     let timer_nodes = compatible_nodes dtb ''arm,armv8-timer'' in
     try_bind (first_node timer_nodes ''Timer node not found'') (\<lambda>timer_node.
     try_bind (timer_props (node_props timer_node)) (\<lambda>_.
     try_bind (no_more_nodes timer_nodes ''Multiple timer nodes found'') (\<lambda>_.
     let timer_ppi = PPI_OFFSET + PPI_NON_SECURE_PHYS_TIMER in
     ubind (load_kernel_device os GicAndTimer_ID (gic_bytes \<lparr>gicd_base = gicd, gicc_base = gicc,
              timer_ppi_interrupt = timer_ppi, padding = 0\<rparr>)) (\<lambda>r.
     ubind (result_expect ''Failed to load kernel device'' kerror_debug r) (\<lambda>_.
     uret (Inr \<lparr>gt_gicd_base = gicd, gt_gicc_base = gicc, gt_timer_ppi_interrupt = timer_ppi\<rparr>))))))))))"

definition current_time_ms :: "profile \<Rightarrow> 'w os \<Rightarrow> ('w, u64) prog" where
  "current_time_ms b os =
     ubind (env_step (cntpct_el0 os)) (\<lambda>ticks.
     ubind (env_step (cntfrq_el0 os)) (\<lambda>freq.
     own_step (bnd (u64_mul b ticks 1000) (\<lambda>t. if freq = 0 then Inl DivisionByZero else Inr (t div freq)))))"

section \<open>The program\<close>

definition main_step :: "profile \<Rightarrow> 'w os \<Rightarrow> ('w, unit) prog" where
  "main_step b os =
     ubind (current_time_ms b os) (\<lambda>ms.
     ubind (user_println os (''Current time: '' @ radix 10 (unat ms) @ '' ms'')) (\<lambda>_. sleep_sec os 1))"

partial_function (option) main_loop :: "profile \<Rightarrow> 'w os \<Rightarrow> 'w \<Rightarrow> (unit uval \<times> 'w) res option" where
  "main_loop b os w =
     (case main_step b os w of
        None \<Rightarrow> None
      | Some r \<Rightarrow>
          (case r of
             Inl p \<Rightarrow> Some (Inl p)
           | Inr q \<Rightarrow>
               (case fst q of UPanic p \<Rightarrow> Some (Inr (UPanic p, snd q)) | Val _ \<Rightarrow> main_loop b os (snd q))))"

definition init_main :: "profile \<Rightarrow> 'w os \<Rightarrow> 'e fdt \<Rightarrow> ('w, unit) prog" where
  "init_main b os fdt =
     ubind (user_println os ''Hello from usermode!'') (\<lambda>_.
     ubind (map_dtb os fdt) (\<lambda>r.
     ubind (result_expect ''Failed to parse device tree'' (error_debug fdt) r) (\<lambda>dtb.
     ubind (user_println os (''DTB mapped at 0x'' @ radix 16 (dt_ptr dtb) @ '', hexdump of first 32 bytes:'')) (\<lambda>_.
     ubind (own_step (if length (dt_buf dtb) < 32 then Inl IndexOutOfBounds else Inr (take 32 (dt_buf dtb)))) (\<lambda>bytes.
     ubind (user_dump_hex_slice os bytes) (\<lambda>_.
     ubind (find_mem_nodes os dtb) (\<lambda>r.
     ubind (result_expect ''Failed to parse device tree'' (error_debug fdt) r) (\<lambda>_.
     ubind (user_println os ''Allocating big buffer using newly discovered memory'') (\<lambda>_.
     ubind (mem_map os (1024 * 1024 * 10) MemMapFlags_ReadWrite) (\<lambda>r.
     ubind (result_unwrap kerror_debug r) (\<lambda>buf.
     ubind (user_println os (''10MB Buffer at 0x'' @ radix 16 buf)) (\<lambda>_.
     ubind (find_and_init os dtb) (\<lambda>r.
     ubind (result_expect ''Failed to parse device tree'' (error_debug fdt) r) (\<lambda>_.
     main_loop b os))))))))))))))"

text \<open>
  \<open>rust_panic\<close> prints the message and then loops for ever. The text of a panic is put together by
  the standard library.
\<close>

definition init_rust_panic :: "'w os \<Rightarrow> (panic \<Rightarrow> string) \<Rightarrow> panic \<Rightarrow> ('w, unit) prog" where
  "init_rust_panic os message p =
     ubind (user_print os (''Panic: '' @ message p @ [CHR 0x0A])) (\<lambda>_ _. None)"

definition init_start :: "profile \<Rightarrow> 'w os \<Rightarrow> 'e fdt \<Rightarrow> (panic \<Rightarrow> string) \<Rightarrow> ('w, unit) prog" where
  "init_start b os fdt message w =
     (case ubind (init_main b os fdt) (\<lambda>_. user_exit os 0) w of
        Some (Inr (UPanic p, w)) \<Rightarrow> init_rust_panic os message p w
      | r \<Rightarrow> r)"

section \<open>The program never ends\<close>

lemma main_loop_no_value:
  assumes "main_loop b os w = Some r"
  shows "\<forall>w'. r \<noteq> Inr (Val (), w')"
proof (rule main_loop.raw_induct [where P = "\<lambda>b os w r. \<forall>w'. r \<noteq> Inr (Val (), w')", OF _ assms], intro allI notI)
  fix f b os w r w'
  assume IH: "\<And>b os w r. f b os w = Some r \<Longrightarrow> \<forall>w'. r \<noteq> Inr (Val (), w')" and r: "r = Inr (Val (), w')"
    and body: "(case main_step b os w of None \<Rightarrow> None | Some r \<Rightarrow> (case r of Inl p \<Rightarrow> Some (Inl p)
      | Inr q \<Rightarrow> (case fst q of Val x \<Rightarrow> f b os (snd q) | UPanic p \<Rightarrow> Some (Inr (UPanic p, snd q))))) = Some r"
  from body r show False by (auto split: option.splits sum.splits uval.splits dest!: IH)
qed

lemma print_no_panic: "user_print os str w \<noteq> Some (Inr (UPanic p, w'))"
proof -
  have "write_all os strs w \<noteq> Some (Inr (UPanic p, w'))" for strs
  proof (induction strs arbitrary: w)
    case Nil
    then show ?case by (simp add: uret_def)
  next
    case (Cons str strs)
    have "write_str os str w \<noteq> Some (Inr (UPanic p, w'))" for p w w'
      by (auto simp: write_str_def log_buf_def prog_simps uret_def split: option.splits sum.splits prod.splits)
    with Cons show ?case by (auto simp: ubind_def split: option.splits sum.splits prod.splits uval.splits)
  qed
  then show ?thesis by (simp add: user_print_def)
qed

lemma main_no_value: "init_main b os fdt w \<noteq> Some (Inr (Val (), w'))"
  using main_loop_no_value by (fastforce simp: init_main_def ubind_Val_iff)


section \<open>Memory\<close>

text \<open>A tree without errors where \<open>find_mem_nodes\<close> looks, with boot arguments that fit on a line.\<close>

definition prop_ok :: "'e dt_prop \<Rightarrow> bool" where
  "prop_ok p \<longleftrightarrow> \<not> isl (prop_name p) \<and>
     (projr (prop_name p) = ''reg'' \<longrightarrow> \<not> isl (prop_u64 p 0) \<and> \<not> isl (prop_u64 p 1)) \<and>
     (projr (prop_name p) = ''bootargs'' \<longrightarrow> \<not> isl (first_str p) \<and>
        (case projr (first_str p) of None \<Rightarrow> True | Some str \<Rightarrow> length (str_debug str) \<le> 200))"

definition node_ok :: "'e dt_node \<Rightarrow> bool" where
  "node_ok n \<longleftrightarrow> \<not> isl (node_name n) \<and> (\<forall>p \<in> set (node_props n). \<not> isl p \<and> prop_ok (projr p))"

definition is_memory :: "'e dt_node \<Rightarrow> bool" where
  "is_memory n \<longleftrightarrow> take 7 (projr (node_name n)) = ''memory@''"

definition reg_of :: "'e dt_node \<Rightarrow> (u64 \<times> u64) option" where
  "reg_of n = (case filter (\<lambda>p. projr (prop_name (projr p)) = ''reg'') (node_props n) of
     [] \<Rightarrow> None | p # _ \<Rightarrow> Some (projr (prop_u64 (projr p) 0), projr (prop_u64 (projr p) 1)))"

definition short :: "string option \<Rightarrow> bool" where
  "short args \<longleftrightarrow> (case args of None \<Rightarrow> True | Some str \<Rightarrow> length (str_debug str) \<le> 200)"

lemma not_isl_Inr: "\<not> isl x \<longleftrightarrow> (\<exists>y. x = Inr y)"
  by (cases x) auto

lemma find_reg_ok:
  assumes "\<forall>p \<in> set ps. \<not> isl p \<and> prop_ok (projr p)"
  shows "find_reg ps ram = Inr (case filter (\<lambda>p. projr (prop_name (projr p)) = ''reg'') ps of
    [] \<Rightarrow> ram | p # _ \<Rightarrow> Some (projr (prop_u64 (projr p) 0), projr (prop_u64 (projr p) 1)))"
  using assms by (induction ps) (auto simp: not_isl_Inr prop_ok_def)

lemma find_bootargs_ok:
  assumes "\<forall>p \<in> set ps. \<not> isl p \<and> prop_ok (projr p)" "short args"
  shows "\<exists>x. find_bootargs ps args = Inr x \<and> short x"
  using assms by (induction ps) (auto simp: not_isl_Inr prop_ok_def short_def)

lemma scan_nodes_ok:
  assumes "\<forall>n \<in> set ns. \<not> isl n \<and> node_ok (projr n)" "short args"
  shows "\<exists>x. short x \<and> scan_nodes ns args ram =
    Inr (x, foldl (\<lambda>ram n. if is_memory n \<and> reg_of n \<noteq> None then reg_of n else ram) ram (map projr ns))"
  using assms
proof (induction ns arbitrary: args ram)
  case (Cons n ns)
  then obtain m where n: "n = Inr m" and m: "node_ok m" by (auto simp: not_isl_Inr)
  obtain name where name: "node_name m = Inr name" using m by (auto simp: node_ok_def not_isl_Inr)
  have ps: "\<forall>p \<in> set (node_props m). \<not> isl p \<and> prop_ok (projr p)" using m by (simp add: node_ok_def)
  show ?case
  proof (cases "name = ''chosen''")
    case True
    from find_bootargs_ok [OF ps Cons.prems(2)] obtain x where "find_bootargs (node_props m) args = Inr x" "short x" by blast
    with True Cons.IH [of x ram] Cons.prems(1) show ?thesis by (simp add: n name is_memory_def)
  next
    case False
    show ?thesis
    proof (cases "take 7 name = ''memory@''")
      case True
      with False Cons.IH [OF _ Cons.prems(2), of "if reg_of m \<noteq> None then reg_of m else ram"] Cons.prems(1) find_reg_ok [OF ps, of ram]
      show ?thesis by (simp add: n name is_memory_def reg_of_def split: list.splits if_splits)
    next
      case no: False
      with False Cons.IH [OF _ Cons.prems(2), of ram] Cons.prems(1) show ?thesis by (simp add: n name is_memory_def)
    qed
  qed
qed simp

lemma last_memory_node:
  assumes "is_memory node" "reg_of node = Some r" "\<forall>n \<in> set post. is_memory n \<longrightarrow> reg_of n = None"
  shows "foldl (\<lambda>ram n. if is_memory n \<and> reg_of n \<noteq> None then reg_of n else ram) ram (pre @ node # post) = Some r"
proof -
  have "foldl (\<lambda>ram n. if is_memory n \<and> reg_of n \<noteq> None then reg_of n else ram) x post = x" for x
    using assms(3) by (induction post arbitrary: x) auto
  with assms(1,2) show ?thesis by simp
qed

lemma radix_length: "2 \<le> r \<Longrightarrow> n < r ^ Suc k \<Longrightarrow> length (radix r n) \<le> Suc k"
proof (induction k arbitrary: n)
  case 0
  then show ?case by (subst radix.simps) simp
next
  case (Suc k)
  then have "n div r < r ^ Suc k" by (simp add: div_less_iff_less_mult mult.commute)
  with Suc.IH [OF Suc.prems(1), of "n div r"] show ?case by (subst radix.simps) simp
qed

lemma radix_u64: "length (radix 16 (unat (x :: u64))) \<le> 16" "length (radix 10 (unat (x :: u64))) \<le> 20"
proof -
  have "unat x < 2 ^ LENGTH(64)" by (rule unsigned_less)
  then show "length (radix 16 (unat x)) \<le> 16" "length (radix 10 (unat x)) \<le> 20"
    using radix_length [of 16 "unat x" 15] radix_length [of 10 "unat x" 19] by simp_all
qed

lemma prints_same:
  assumes "prints s str s'"
  shows "PAGE_ALLOC s' = PAGE_ALLOC s" "time_reads s' = time_reads s" "cntkctl s' = cntkctl s" "GICC_BASE s' = GICC_BASE s"
    "dev_writes s' = dev_writes s @ map (W8 (uart0_addr s)) (as_bytes str)" "uart0_addr s' = uart0_addr s"
  using arg_cong [OF assms [unfolded prints_def], of PAGE_ALLOC] arg_cong [OF assms [unfolded prints_def], of time_reads]
    arg_cong [OF assms [unfolded prints_def], of cntkctl] arg_cong [OF assms [unfolded prints_def], of GICC_BASE]
    arg_cong [OF assms [unfolded prints_def], of dev_writes] arg_cong [OF assms [unfolded prints_def], of uart0_addr]
  by (simp_all add: print_writes)

lemma kalloc_cong:
  fixes s t :: "'z kernel_scheme"
  shows "kalloc b n t = Inr (sl, t') \<Longrightarrow> PAGE_ALLOC t = PAGE_ALLOC s \<Longrightarrow> \<exists>s'. kalloc b n s = Inr (sl, s')"
  by (auto simp: kalloc_def with_guard_eq returns_iff)

lemma download_on_kernel:
  fixes s :: user and a l :: u64
  assumes c: "crates_ok (crate ue)" and e: "length (gpr (regs s)) = 30"
    and node: "add_memory_node b (lds ue) (unat a) (unat l) s = Inr ((), s1)" and a: "unat a < 2 ^ 63"
  obtains e' where "length (gpr e') = 30" "download_more_ram (kernel_os b ue addr pieces) (unat a) (unat l) s = Some (Inr (Val (Inr ()), s1\<lparr>regs := e'\<rparr>))"
proof -
  define e' where "e' = set_regs [(0, a), (1, l), (8, 5)] (regs s)"
  have g: "gpr e' ! 0 = a" "gpr e' ! Suc 0 = l" "gpr e' ! 8 = 5" "length (gpr e') = 30" using e by (simp_all add: e'_def set_regs_def)
  have "handle_syscall b ue e' s = Some (Inr (e', s1))"
    using syscall_dispatch(5) [OF c, of e' DownloadMoreRam, where b = b and s = s] g node by (simp add: sys_download_more_ram_def)
  then have "kernel_svc b ue [(0, a), (1, l), (8, 5)] s = Some (Inr (a, s1\<lparr>regs := e'\<rparr>))"
    unfolding kernel_svc_def e'_def [symmetric] by (simp add: g(1))
  moreover have "to_result (crate ue) a = Inr a" using to_result_small [OF a] by simp
  ultimately have "download_more_ram (kernel_os b ue addr pieces) (unat a) (unat l) s = Some (Inr (Val (Inr ()), s1\<lparr>regs := e'\<rparr>))"
    by (simp add: download_more_ram_def prog_simps kernel_os_def uret_def)
  with g(4) show thesis by (rule that)
qed

lemma find_mem_nodes_run:
  assumes um: "user_memory addr ok" and c: "crates_ok (crate ue)" and p: "pieces_ok pieces" and s: "ok s"
    and tree: "dt_nodes dtb = pre @ Inr node # post" "\<forall>n \<in> set (dt_nodes dtb). \<not> isl n \<and> node_ok (projr n)"
    and node: "is_memory node" "reg_of node = Some (a, l)" "\<forall>n \<in> set post. is_memory (projr n) \<longrightarrow> reg_of (projr n) = None"
    and ram: "layout_ok (lds ue)" "ram_ok (lds ue) (unat a) (unat l)" "early_heap_pa (lds ue) (PAGE_ALLOC s)" "unat a < 2 ^ 63"
  obtains s2 s3 e str where "find_mem_nodes (kernel_os b ue addr pieces) dtb s = Some (Inr (Val (Inr ()), s3\<lparr>regs := e\<rparr>))"
    "length (gpr e) = 30" "ok s2" "prints s str s2" "early_heap_pa (lds ue) (PAGE_ALLOC s2)"
    "add_memory_node b (lds ue) (unat a) (unat l) s2 = Inr ((), s3)"
proof -
  let ?os = "kernel_os b ue addr pieces"
  let ?args = "\<lambda>x. case x of Some str \<Rightarrow> ''Boot args: '' @ str_debug str | None \<Rightarrow> ''No boot args''"
  let ?ram = "''RAM: 0p'' @ radix 16 (unat a) @ '' ('' @ radix 10 (unat l) @ '' bytes)''"
  have "short None" by (simp add: short_def)
  from scan_nodes_ok [OF tree(2) this, of None] obtain x where x: "short x" "scan_nodes (dt_nodes dtb) None None = Inr (x, Some (a, l))"
    using last_memory_node [OF node(1,2), of "map projr post" None "map projr pre"] node(3) by (auto simp: tree(1))
  have "length (?args x @ [CHR 0x0A]) \<le> 256" using x(1) by (auto simp: short_def split: option.splits)
  from user_memory.print_prints [OF um c p s this] obtain s1 where
    s1: "user_print ?os (?args x @ [CHR 0x0A]) s = Some (Inr (Val (), s1))" "ok s1" "prints s (?args x @ [CHR 0x0A]) s1" by blast
  have "length (?ram @ [CHR 0x0A]) \<le> 256" using radix_u64(1) [of a] radix_u64(2) [of l] by simp
  from user_memory.print_prints [OF um c p s1(2) this] obtain s2 where
    s2: "user_print ?os (?ram @ [CHR 0x0A]) s1 = Some (Inr (Val (), s2))" "ok s2" "prints s1 (?ram @ [CHR 0x0A]) s2" by blast
  have heap: "early_heap_pa (lds ue) (PAGE_ALLOC s2)" using ram(3) prints_same(1) [OF s1(3)] prints_same(1) [OF s2(3)] by simp
  from add_memory_node_taken [OF ram(1,2) heap, of b] obtain s3 where
    s3: "add_memory_node b (lds ue) (unat a) (unat l) s2 = Inr ((), s3)" by blast
  obtain e where e: "length (gpr e) = 30" and dl: "download_more_ram ?os (unat a) (unat l) s2 = Some (Inr (Val (Inr ()), s3\<lparr>regs := e\<rparr>))"
    by (rule download_on_kernel [OF c user_memory.ok_regs [OF um s2(2)] s3 ram(4)])
  have first: "(case x of Some str \<Rightarrow> user_println ?os (''Boot args: '' @ str_debug str) | None \<Rightarrow> user_println ?os ''No boot args'') s =
      Some (Inr (Val (), s1))" using s1(1) by (cases x) (simp_all add: user_println_def)
  have "find_mem_nodes ?os dtb s = Some (Inr (Val (Inr ()), s3\<lparr>regs := e\<rparr>))"
    unfolding find_mem_nodes_def try_bind_def x(2)
    using s2(1) dl by (simp add: prog_simps, simp add: ubind_def first user_println_def own_step_def uret_def result_unwrap_def result_expect_def)
  with e s2(2) prints_trans [OF s1(3) s2(3)] heap s3 show thesis by (intro that)
qed

text \<open>
  The RAM of the device tree reaches the kernel's allocator. \<open>find_mem_nodes\<close> takes the \<open>reg\<close> of the
  last memory node that has one, whatever memory nodes come before it, and hands it to the kernel with
  \<open>DownloadMoreRam\<close>; from then on the kernel allocates from that region only, and never from the device
  tree or the kernel's own memory.
\<close>

theorem tree_memory_reaches_allocator:
  assumes um: "user_memory addr ok" and c: "crates_ok (crate ue)" and p: "pieces_ok pieces" and s: "ok s"
    and tree: "dt_nodes dtb = pre @ Inr node # post" "\<forall>n \<in> set (dt_nodes dtb). \<not> isl n \<and> node_ok (projr n)"
    and node: "is_memory node" "reg_of node = Some (a, l)" "\<forall>n \<in> set post. is_memory (projr n) \<longrightarrow> reg_of (projr n) = None"
    and ram: "layout_ok (lds ue)" "ram_ok (lds ue) (unat a) (unat l)" "early_heap_pa (lds ue) (PAGE_ALLOC s)" "unat a < 2 ^ 63"
  shows "\<exists>s'. find_mem_nodes (kernel_os b ue addr pieces) dtb s = Some (Inr (Val (Inr ()), s')) \<and>
    (\<forall>n sl s2. kalloc b n s' = Inr (sl, s2) \<longrightarrow> (\<forall>x \<in> {buf sl..<buf sl + len sl}. virt (unat a) \<le> x \<and> x < virt (unat a) + unat l \<and>
       x \<notin> {dtb_start (lds ue)..<dtb_start (lds ue) + 0x10000} \<and> x \<notin> {text_start (lds ue)..<EARLY_HEAP (lds ue)} \<and>
       x \<notin> {EARLY_HEAP (lds ue) + EARLY_HEAP_SIZE..<kernel_end (lds ue)}))"
proof -
  obtain s2 s3 e str where run: "find_mem_nodes (kernel_os b ue addr pieces) dtb s = Some (Inr (Val (Inr ()), s3\<lparr>regs := e\<rparr>))"
    and s3: "early_heap_pa (lds ue) (PAGE_ALLOC s2)" "add_memory_node b (lds ue) (unat a) (unat l) s2 = Inr ((), s3)"
    by (rule find_mem_nodes_run [OF um c p s tree node ram])
  have "virt (unat a) \<le> y \<and> y < virt (unat a) + unat l \<and>
       y \<notin> {dtb_start (lds ue)..<dtb_start (lds ue) + 0x10000} \<and> y \<notin> {text_start (lds ue)..<EARLY_HEAP (lds ue)} \<and>
       y \<notin> {EARLY_HEAP (lds ue) + EARLY_HEAP_SIZE..<kernel_end (lds ue)}"
    if "kalloc b n (s3\<lparr>regs := e\<rparr>) = Inr (sl, s4)" "y \<in> {buf sl..<buf sl + len sl}" for n sl s4 y
    using kalloc_cong [OF that(1), of s3] handover_alloc(1-4) [OF ram(1,2) s3 _ that(2)] by auto
  with run show ?thesis by blast
qed

section \<open>Timer\<close>

lemma try_bind_uret: "try_bind (uret (Inr x)) f = f x" "try_bind (uret (Inl e)) f = uret (Inl e)"
  by (simp_all add: fun_eq_iff try_bind_def prog_simps)

text \<open>The nodes \<open>find_and_init\<close> accepts, and the addresses it takes from the interrupt controller.\<close>

definition intc_ok :: "'e dt_prop \<Rightarrow> bool" where
  "intc_ok p \<longleftrightarrow> \<not> isl (prop_name p) \<and> (let name = projr (prop_name p) in
     (name = ''reg'' \<longrightarrow> \<not> isl (prop_u64 p 0) \<and> \<not> isl (prop_u64 p 2)) \<and>
     (name = ''#size-cells'' \<longrightarrow> prop_u32 p 0 = Inr 2) \<and> (name = ''#address-cells'' \<longrightarrow> prop_u32 p 0 = Inr 2) \<and>
     (name = ''#interrupt-cells'' \<longrightarrow> prop_u32 p 0 = Inr 3))"

definition timer_ok :: "'e dt_prop \<Rightarrow> bool" where
  "timer_ok p \<longleftrightarrow> \<not> isl (prop_name p) \<and> (projr (prop_name p) = ''interrupts'' \<longrightarrow>
     prop_length p = 48 \<and> prop_u32 p 3 = Inr 1 \<and> prop_u32 p 4 = Inr 14 \<and>
     \<not> isl (prop_u32 p 5) \<and> projr (prop_u32 p 5) AND 4 = 4)"

primrec intc_bases :: "('e + 'e dt_prop) list \<Rightarrow> u64 \<times> u64 \<Rightarrow> u64 \<times> u64" where
  "intc_bases [] bases = bases"
| "intc_bases (p # ps) bases = intc_bases ps (if projr (prop_name (projr p)) = ''reg''
     then (projr (prop_u64 (projr p) 0), projr (prop_u64 (projr p) 2)) else bases)"

lemma check_u32_ok: "prop_u32 p i = Inr n \<Longrightarrow> P n \<Longrightarrow> check_u32 p i P msg = uret (Inr ())"
  by (simp add: fun_eq_iff check_u32_def try_bind_uret prog_simps)

lemma intc_ok_cases:
  assumes "intc_ok p"
  obtains (reg) a c where "prop_name p = Inr ''reg''" "prop_u64 p 0 = Inr a" "prop_u64 p 2 = Inr c"
    | (cells) name where "prop_name p = Inr name" "name \<in> {''#size-cells'', ''#address-cells''}" "prop_u32 p 0 = Inr 2"
    | (interrupts) "prop_name p = Inr ''#interrupt-cells''" "prop_u32 p 0 = Inr 3"
    | (other) name where "prop_name p = Inr name" "name \<notin> {''reg'', ''#size-cells'', ''#address-cells'', ''#interrupt-cells''}"
  using assms unfolding intc_ok_def Let_def not_isl_Inr by (metis sum.sel(2) insert_iff empty_iff)

lemma intc_props_ok:
  assumes "\<forall>p \<in> set ps. \<not> isl p \<and> intc_ok (projr p)"
  shows "intc_props ps gicd gicc = (uret (Inr (intc_bases ps (gicd, gicc))) :: ('w, 'e + u64 \<times> u64) prog)"
  using assms
proof (induction ps arbitrary: gicd gicc)
  case (Cons p ps)
  then obtain q where q: "p = Inr q" and "intc_ok q" by (auto simp: not_isl_Inr)
  have IH: "intc_props ps x y = (uret (Inr (intc_bases ps (x, y))) :: ('w, 'e + u64 \<times> u64) prog)" for x y using Cons by simp
  from \<open>intc_ok q\<close> show ?case
    by (cases rule: intc_ok_cases) (auto simp: q try_bind_uret check_u32_ok IH)
qed simp

lemma timer_props_ok:
  assumes "\<forall>p \<in> set ps. \<not> isl p \<and> timer_ok (projr p)"
  shows "timer_props ps = (uret (Inr ()) :: ('w, 'e + unit) prog)"
  using assms
proof (induction ps)
  case (Cons p ps)
  then obtain q name where q: "p = Inr q" "prop_name q = Inr name" "timer_ok q" by (auto simp: not_isl_Inr timer_ok_def)
  have IH: "timer_props ps = (uret (Inr ()) :: ('w, 'e + unit) prog)" using Cons by simp
  have a: "ubind (own_step (Inr ())) f = f ()" for f :: "unit \<Rightarrow> ('w, 'e + unit) prog"
    by (simp add: fun_eq_iff prog_simps)
  show ?case
  proof (cases "name = ''interrupts''")
    case True
    with q obtain f where "prop_length q = 48" "prop_u32 q 3 = Inr 1" "prop_u32 q 4 = Inr 14" "prop_u32 q 5 = Inr f" "f AND 4 = 4"
      by (auto simp: timer_ok_def not_isl_Inr)
    with True show ?thesis by (simp add: q(1,2) try_bind_uret a check_u32_ok PPI_NON_SECURE_PHYS_TIMER_def IH)
  qed (simp add: q(1,2) try_bind_uret IH)
qed simp

lemma init_gic_result:
  assumes "gicd + 0x500 + unat ppi < 2 ^ 64" "gicc + 0x10 < 2 ^ 64"
  shows "\<exists>d. init_gic h b gicd gicc ppi s = Inr (s\<lparr>GICD_BASE := gicd, GICC_BASE := gicc, cntkctl := 1, dev_writes := d\<rparr>)"
proof -
  have "unat ppi div 32 * 4 \<le> unat ppi" "unat ppi div 4 * 4 \<le> unat ppi"
    using div_times_less_eq_dividend [of "unat ppi" 32] by simp_all
  then have r: "gicd + 0 < 2 ^ 64" "gicd + (0x100 + unat ppi div 32 * 4) < 2 ^ 64" "gicd + (0x400 + unat ppi div 4 * 4) < 2 ^ 64"
    "gicc + 4 < 2 ^ 64" "gicc + 0 < 2 ^ 64"
    using assms by linarith+
  then show ?thesis unfolding init_gic_def
    by (simp add: Let_def mmio_write_ok mmio_read_ok GICD_CTLR_def GICD_ISENABLER0_def GICD_IPRIORITYR0_def GICC_CTLR_def GICC_PMR_def
        println_soc) blast
qed

text \<open>The request for the interrupt controller, as the kernel carries it out.\<close>

lemma load_device_svc:
  fixes s :: user
  assumes c: "crates_ok (crate ue)" and e: "length (gpr (regs s)) = 30" and n: "a + 24 \<le> 2 ^ 64"
    and load: "\<And>i. i < 24 \<Longrightarrow> user_load s (a + i) = Inr (gic_bytes g ! i)"
    and r: "unat (gicd_base g) + 0x500 + unat (timer_ppi_interrupt g) < 2 ^ 64" "unat (gicc_base g) + 0x10 < 2 ^ 64"
  shows "\<exists>d e'. kernel_svc b ue [(0, of_nat a), (1, 24), (2, 1), (8, 6)] s = Some (Inr (0, s\<lparr>cntp_ctl := 3, GICD_BASE := unat (gicd_base g),
    GICC_BASE := unat (gicc_base g), cntkctl := 1, dev_writes := d, regs := e'\<rparr>)) \<and> length (gpr e') = 30"
proof -
  define e' where "e' = set_regs [(0, of_nat a), (1, 24), (2, 1), (8, 6)] (regs s)"
  have e': "gpr e' ! 0 = of_nat a" "gpr e' ! 1 = 24" "gpr e' ! 2 = 1" "gpr e' ! 8 = 6" "length (gpr e') = 30"
    using e by (simp_all add: e'_def set_regs_def)
  have ptr: "unat (gpr e' ! 0) = a" using n e'(1) by (simp add: unat_of_nat_small)
  let ?s2 = "timer_clear (console_println ('' user: LoadKernelDevice: '' @ gic_debug g) s)"
  from init_gic_result [OF r, of "board ue" b ?s2] obtain d where
    d: "init_gic (board ue) b (unat (gicd_base g)) (unat (gicc_base g)) (timer_ppi_interrupt g) ?s2 =
      Inr (?s2\<lparr>GICD_BASE := unat (gicd_base g), GICC_BASE := unat (gicc_base g), cntkctl := 1, dev_writes := d\<rparr>)" by blast
  have h: "handle_syscall b ue e' s =
      Some (Inr (set_x0 0 e', ?s2\<lparr>GICD_BASE := unat (gicd_base g), GICC_BASE := unat (gicc_base g), cntkctl := 1, dev_writes := d\<rparr>))"
    using load_device_ok [OF c e'(4,2,3), where s = s and g = g and b = b, unfolded ptr, OF n load] unfolding d by simp
  have x0: "gpr (set_x0 0 e') ! 0 = 0" "length (gpr (set_x0 0 e')) = 30" using e'(5) by (simp_all add: set_x0_def)
  show ?thesis unfolding kernel_svc_def e'_def [symmetric] h
    by (intro exI [of _ d] exI [of _ "set_x0 0 e'"]) (simp add: timer_clear_def println_soc x0)
qed

lemma load_device_on_kernel:
  fixes s :: user
  assumes um: "user_memory addr ok" and c: "crates_ok (crate ue)" and s: "ok s"
    and r: "unat (gicd_base g) + 0x500 + unat (timer_ppi_interrupt g) < 2 ^ 64" "unat (gicc_base g) + 0x10 < 2 ^ 64"
  shows "\<exists>m d e. load_kernel_device (kernel_os b ue addr pieces) GicAndTimer_ID (gic_bytes g) s = Some (Inr (Val (Inr ()),
    s\<lparr>mem := m, cntp_ctl := 3, GICD_BASE := unat (gicd_base g), GICC_BASE := unat (gicc_base g), cntkctl := 1, dev_writes := d, regs := e\<rparr>)) \<and>
    ok (s\<lparr>mem := m\<rparr>) \<and> length (gpr e) = 30"
proof -
  have n: "length (gic_bytes g) = 24" by (simp add: gic_bytes_length GicAndTimer_size_def)
  obtain a s1 where a: "addr (gic_bytes g) s = (a, s1)" by (cases "addr (gic_bytes g) s")
  from user_memory.addr_ok [OF um s _ a] n have s1: "ok s1" "a + 24 \<le> 2 ^ 64" and load: "\<And>i. i < 24 \<Longrightarrow> user_load s1 (a + i) = Inr (gic_bytes g ! i)"
    by auto
  obtain m where m: "s1 = s\<lparr>mem := m\<rparr>" using user_memory.addr_frame [OF um s a] by blast
  from load_device_svc [OF c user_memory.ok_regs [OF um s1(1)] s1(2) load r, of b] obtain d e where
    e: "length (gpr e) = 30" and svc: "kernel_svc b ue [(0, of_nat a), (1, 24), (2, 1), (8, 6)] s1 = Some (Inr (0, s1\<lparr>cntp_ctl := 3, GICD_BASE := unat (gicd_base g),
      GICC_BASE := unat (gicc_base g), cntkctl := 1, dev_writes := d, regs := e\<rparr>))" by blast
  have z: "to_result (crate ue) 0 = Inr 0" using to_result_small [of 0] by simp
  have "load_kernel_device (kernel_os b ue addr pieces) GicAndTimer_ID (gic_bytes g) s = Some (Inr (Val (Inr ()), s1\<lparr>cntp_ctl := 3,
      GICD_BASE := unat (gicd_base g), GICC_BASE := unat (gicc_base g), cntkctl := 1, dev_writes := d, regs := e\<rparr>))"
    using svc by (simp add: load_kernel_device_def prog_simps kernel_os_def n GicAndTimer_ID_def uret_def a z)
  with e s1(1) show ?thesis unfolding m by blast
qed

lemma time_on_kernel:
  fixes s :: user
  assumes "clock_ok (board ue)" "cntkctl s = 1"
  shows "\<exists>ms s'. timer_get_absolute_time_ms (board ue) b s = Inr (ms, s') \<and>
    current_time_ms b (kernel_os b ue addr pieces) s = Some (Inr (Val ms, s')) \<and> unat ms = clock_ms (board ue) (time_reads s)"
proof -
  have t: "timer_get_absolute_time_ms (board ue) b s = Inr (of_nat (clock_ms (board ue) (time_reads s)), s\<lparr>time_reads := Suc (time_reads s)\<rparr>)"
    "unat (of_nat (clock_ms (board ue) (time_reads s)) :: u64) = clock_ms (board ue) (time_reads s)" by (rule time_ms [OF assms(1)])+
  have "cntfrq (board ue) \<noteq> 0" using assms(1) by (auto simp: clock_ok_def)
  with t(1) have "current_time_ms b (kernel_os b ue addr pieces) s =
      Some (Inr (Val (of_nat (clock_ms (board ue) (time_reads s))), s\<lparr>time_reads := Suc (time_reads s)\<rparr>))"
    using assms(2) by (auto simp: current_time_ms_def kernel_os_def prog_simps el0_cntpct_def el0_cntfrq_def own_step_def uret_def
        timer_get_absolute_time_ms_def Let_def returns_iff)
  with t show ?thesis by blast
qed

lemma find_and_init_run:
  assumes um: "user_memory addr ok" and c: "crates_ok (crate ue)" and p: "pieces_ok pieces" and s: "ok s"
    and intc: "compatible_nodes dtb ''arm,cortex-a15-gic'' = [Inr intc]" "\<forall>p \<in> set (node_props intc). \<not> isl p \<and> intc_ok (projr p)"
    and timer: "compatible_nodes dtb ''arm,armv8-timer'' = [Inr timer]" "\<forall>p \<in> set (node_props timer). \<not> isl p \<and> timer_ok (projr p)"
    and bases: "intc_bases (node_props intc) (0, 0) = (gicd, gicc)" "unat gicd + 0x51E < 2 ^ 64" "unat gicc + 0x10 < 2 ^ 64"
    and os: "os = kernel_os b ue addr pieces"
  obtains s1 str m d e where "find_and_init os dtb s = Some (Inr (Val (Inr \<lparr>gt_gicd_base = gicd, gt_gicc_base = gicc, gt_timer_ppi_interrupt = 30\<rparr>),
      s1\<lparr>mem := m, cntp_ctl := 3, GICD_BASE := unat gicd, GICC_BASE := unat gicc, cntkctl := 1, dev_writes := d, regs := e\<rparr>))"
    "prints s str s1" "ok (s1\<lparr>mem := m\<rparr>)" "length (gpr e) = 30"
proof -
  let ?g = "\<lparr>gicd_base = gicd, gicc_base = gicc, timer_ppi_interrupt = 30, padding = 0\<rparr>"
  have "length (''Extracting timer information from DTB'' @ [CHR 0x0A]) \<le> 256" by simp
  from user_memory.print_prints [OF um c p s this] obtain s1 where
    s1: "user_println os ''Extracting timer information from DTB'' s = Some (Inr (Val (), s1))" "ok s1"
      "prints s (''Extracting timer information from DTB'' @ [CHR 0x0A]) s1" unfolding os user_println_def by blast
  from load_device_on_kernel [OF um c s1(2), where g = ?g and b = b and pieces = pieces] bases(2,3) obtain m d e where
    e: "ok (s1\<lparr>mem := m\<rparr>)" "length (gpr e) = 30" and ld: "load_kernel_device os GicAndTimer_ID (gic_bytes ?g) s1 = Some (Inr (Val (Inr ()),
      s1\<lparr>mem := m, cntp_ctl := 3, GICD_BASE := unat gicd, GICC_BASE := unat gicc, cntkctl := 1, dev_writes := d, regs := e\<rparr>))"
    unfolding os by auto
  let ?s2 = "s1\<lparr>mem := m, cntp_ctl := 3, GICD_BASE := unat gicd, GICC_BASE := unat gicc, cntkctl := 1, dev_writes := d, regs := e\<rparr>"
  have "find_and_init os dtb s = Some (Inr (Val (Inr \<lparr>gt_gicd_base = gicd, gt_gicc_base = gicc, gt_timer_ppi_interrupt = 30\<rparr>), ?s2))"
    unfolding find_and_init_def Let_def intc(1) timer(1) first_node_def no_more_nodes_def list.case list.sel try_bind_uret
      intc_props_ok [OF intc(2)] timer_props_ok [OF timer(2)] bases(1) prod.case
    using s1(1) ld by (simp add: ubind_def PPI_OFFSET_def PPI_NON_SECURE_PHYS_TIMER_def result_expect_def uret_def)
  with s1(3) e show thesis by (intro that)
qed

text \<open>
  C22: the clock works once the devices of the tree are loaded. With one interrupt controller and one
  timer in the tree, \<open>find_and_init\<close> returns the addresses in the controller's last \<open>reg\<close> and the
  timer's interrupt 30, and the kernel has taken them over. A program that asks for the time before that
  is stopped; afterwards it reads the very time the kernel would read.
\<close>

theorem devices_start_clock:
  assumes um: "user_memory addr ok" and c: "crates_ok (crate ue)" and p: "pieces_ok pieces" and s: "ok s"
    and intc: "compatible_nodes dtb ''arm,cortex-a15-gic'' = [Inr intc]" "\<forall>p \<in> set (node_props intc). \<not> isl p \<and> intc_ok (projr p)"
    and timer: "compatible_nodes dtb ''arm,armv8-timer'' = [Inr timer]" "\<forall>p \<in> set (node_props timer). \<not> isl p \<and> timer_ok (projr p)"
    and bases: "intc_bases (node_props intc) (0, 0) = (gicd, gicc)" "unat gicd + 0x51E < 2 ^ 64" "unat gicc + 0x10 < 2 ^ 64"
    and clk: "clock_ok (board ue)" "cntkctl s = 0" and os: "os = kernel_os b ue addr pieces"
  shows "current_time_ms b os s = Some (Inl Trapped) \<and>
    (\<exists>s' ms s''. find_and_init os dtb s = Some (Inr (Val (Inr \<lparr>gt_gicd_base = gicd, gt_gicc_base = gicc, gt_timer_ppi_interrupt = 30\<rparr>), s')) \<and>
       GICD_BASE s' = unat gicd \<and> GICC_BASE s' = unat gicc \<and> PAGE_ALLOC s' = PAGE_ALLOC s \<and> time_reads s' = time_reads s \<and>
       timer_get_absolute_time_ms (board ue) b s' = Inr (ms, s'') \<and> current_time_ms b os s' = Some (Inr (Val ms, s'')) \<and>
       unat ms = clock_ms (board ue) (time_reads s))"
proof
  show "current_time_ms b os s = Some (Inl Trapped)"
    using clk(2) by (simp add: os current_time_ms_def kernel_os_def prog_simps el0_cntpct_def)
  obtain s1 str m d e where run: "find_and_init os dtb s = Some (Inr (Val (Inr \<lparr>gt_gicd_base = gicd, gt_gicc_base = gicc, gt_timer_ppi_interrupt = 30\<rparr>),
      s1\<lparr>mem := m, cntp_ctl := 3, GICD_BASE := unat gicd, GICC_BASE := unat gicc, cntkctl := 1, dev_writes := d, regs := e\<rparr>))"
    and s1: "prints s str s1" by (rule find_and_init_run [OF um c p s intc timer bases os])
  let ?s2 = "s1\<lparr>mem := m, cntp_ctl := 3, GICD_BASE := unat gicd, GICC_BASE := unat gicc, cntkctl := 1, dev_writes := d, regs := e\<rparr>"
  note run prints_same [OF s1] time_on_kernel [OF clk(1), of ?s2 b addr pieces]
  then show "\<exists>s' ms s''. find_and_init os dtb s = Some (Inr (Val (Inr \<lparr>gt_gicd_base = gicd, gt_gicc_base = gicc, gt_timer_ppi_interrupt = 30\<rparr>), s')) \<and>
       GICD_BASE s' = unat gicd \<and> GICC_BASE s' = unat gicc \<and> PAGE_ALLOC s' = PAGE_ALLOC s \<and> time_reads s' = time_reads s \<and>
       timer_get_absolute_time_ms (board ue) b s' = Inr (ms, s'') \<and> current_time_ms b os s' = Some (Inr (Val ms, s'')) \<and>
       unat ms = clock_ms (board ue) (time_reads s)"
    by (intro exI [of _ ?s2]) (auto simp: os)
qed

section \<open>From power-on to the program\<close>

lemma early_heap_kept:
  assumes pa: "early_heap_pa ly pa" and pa': "pa_inv pa'" "in_window pa' = in_window pa" "taken pa \<subseteq> taken pa'"
  shows "early_heap_pa ly pa'"
proof -
  have inv: "pa_inv pa" using pa by (simp add: early_heap_pa_def)
  have "in_window pa (ram_base pa) (pa_capacity pa)" "in_window pa' (ram_base pa') (pa_capacity pa')"
    using inv pa'(1) by (auto simp: in_window_def pa_inv_def)
  then have "in_window pa' (ram_base pa) (pa_capacity pa)" "in_window pa (ram_base pa') (pa_capacity pa')" unfolding pa'(2) .
  then have eq: "ram_base pa' = ram_base pa" "pa_capacity pa' = pa_capacity pa" by (simp_all add: in_window_def)
  have "i \<in> used (bitmap_alloc pa')" if "i \<in> used (bitmap_alloc pa)" for i
  proof -
    have "page_addr pa' i \<in> taken pa'" using that pa'(3) page_in_taken_iff [of pa i] eq(1) by (auto simp: page_addr_def)
    then show ?thesis by (simp add: page_in_taken_iff)
  qed
  with pa pa'(1) eq show ?thesis by (auto simp: early_heap_pa_def)
qed

text \<open>
  The program as the boot leaves it: its values are on its stack, the allocator serves the early heap, and
  it may not read the counter unless that was so before.
\<close>

lemma booted_program:
  fixes s :: user
  assumes img: "image_ok img env (lds ue)" and new: "PAGE_ALLOC s = page_alloc_new PAGE_ALLOC_CELLS 0" "uart0_addr s = 0x9000000"
    and regs: "length (gpr (regs s)) = 30"
    and ue: "user_env_ok ue" "thread_ok (Thread ue)" "INIT_BIN ue \<noteq> []" "length (INIT_BIN ue) \<le> 0x10000000"
      "th_page_table (Thread ue) + 4096 \<le> th_stack (Thread ue) \<or> th_stack (Thread ue) + 0x2000 \<le> th_page_table (Thread ue)"
    and m: "div_ceil (length (INIT_BIN ue)) 4096 + th_size (Thread ue) div 4096 + 3 * (div_ceil (length (INIT_BIN ue)) 4096 + 4) < 256"
  shows "\<exists>s'. boot b img env ue 1 s = Some (Inr s') \<and> stack_ok ue s' \<and> early_heap_pa (lds ue) (PAGE_ALLOC s') \<and> cntkctl s' = cntkctl s \<and> time_reads s' = time_reads s \<and>
    (\<forall>x. is_table_byte (mem s') (INIT_THREAD s' + th_page_table (Thread ue)) x \<longrightarrow> EARLY_HEAP (lds ue) \<le> x \<and> x < EARLY_HEAP (lds ue) + EARLY_HEAP_SIZE)"
proof -
  obtain pa where boot: "boot b img env ue 1 s = Some (start b ue (before_start img env pa s))"
    and hr: "heap_run (before_start img env pa s) (EARLY_HEAP (lds ue)) 256" "early_heap_pa (lds ue) (PAGE_ALLOC (before_start img env pa s))"
    by (rule boot_prepared [OF img new(1)])
  define s3 where "s3 = before_start img env pa s"
  note boot = boot [folded s3_def] and hr = hr [folded s3_def] and tlb = before_start_state(1) [OF new(2), of img env pa, folded s3_def]
  have s3: "regs s3 = regs s" "cntkctl s3 = cntkctl s" "time_reads s3 = time_reads s"
    by (simp_all add: s3_def before_start_def after_entry_def irq_enable_def msr_daifclr_def println_soc eject_lowmem_def Let_def
        console_eject_lowmem_def tlb_flush_def mmu_init_def)
  obtain s' where s': "start b ue s3 = Inr s'" "stack_ok ue s'"
    using started_stack_ok [OF hr(1) tlb _ ue m] regs s3(1) by auto
  let ?T = "EARLY_HEAP (lds ue) + div_ceil (length (INIT_BIN ue)) 4096 * 4096"
  obtain s'' where "start b ue s3 = Inr s''" and thr: "INIT_THREAD s'' = ?T"
    and out: "\<And>x. x < EARLY_HEAP (lds ue) \<or> EARLY_HEAP (lds ue) + 256 * 4096 \<le> x \<Longrightarrow> \<not> is_table_byte (mem s'') (?T + th_page_table (Thread ue)) x"
    and pa: "taken (PAGE_ALLOC s3) \<subseteq> taken (PAGE_ALLOC s'')" "in_window (PAGE_ALLOC s'') = in_window (PAGE_ALLOC s3)"
    and frame: "s''\<lparr>mem := mem s3, PAGE_ALLOC := PAGE_ALLOC s3, tlb := tlb s3, INIT_THREAD := INIT_THREAD s3, ttbr0 := ttbr0 s3,
       spsr_el1 := spsr_el1 s3, sp_el0 := sp_el0 s3, elr_el1 := elr_el1 s3\<rparr> = console_println '' user: Starting usermode'' s3"
    by (rule start_runs [OF hr(1) tlb ue(1-4) m, of b]) blast
  with s'(1) have eq: "s'' = s'" by simp
  have "cntkctl s' = cntkctl s3" "time_reads s' = time_reads s3"
    using arg_cong [OF frame, of cntkctl] arg_cong [OF frame, of time_reads] by (simp_all add: eq println_soc)
  moreover have "pa_inv (PAGE_ALLOC s')" using s'(2) by (simp add: stack_ok_def Let_def as_ok_def pt_ok_def)
  moreover have "EARLY_HEAP (lds ue) \<le> x \<and> x < EARLY_HEAP (lds ue) + EARLY_HEAP_SIZE"
    if "is_table_byte (mem s') (INIT_THREAD s' + th_page_table (Thread ue)) x" for x
    using out [of x] thr that by (force simp: eq EARLY_HEAP_SIZE_def not_less)
  ultimately show ?thesis using boot s' s3(2,3) early_heap_kept [OF hr(2) _ pa(2,1)] by (simp add: eq)
qed

text \<open>A device tree with two memory nodes, an interrupt controller and a timer, and the program after a boot.\<close>

definition sample_node :: "string \<Rightarrow> string \<Rightarrow> u64 list \<Rightarrow> string dt_node" where
  "sample_node name prop xs = \<lparr>node_name = Inr name, node_props = [Inr \<lparr>prop_name = Inr prop, prop_u64 = (\<lambda>i. Inr (xs ! i)),
     prop_u32 = (\<lambda>i. Inr ([1, 13, 4, 1, 14, 4] ! i)), prop_length = 48, first_str = Inr None\<rparr>]\<rparr>"

definition sample_tree :: "string DevTree" where
  "sample_tree = \<lparr>dt_ptr = 0, dt_buf = [], dt_nodes = [Inr (sample_node ''memory@0'' ''reg'' [0, 0x1000]),
       Inr (sample_node ''memory@40000000'' ''reg'' [0x40000000, 0x8000000])],
     compatible_nodes = (\<lambda>name. if name = ''arm,cortex-a15-gic'' then [Inr (sample_node ''intc'' ''reg'' [0x8000000, 0x10000, 0x8010000])]
       else [Inr (sample_node ''timer'' ''interrupts'' [])])\<rparr>"

definition sample_power_on :: user where
  "sample_power_on = sample_program_state\<lparr>PAGE_ALLOC := page_alloc_new PAGE_ALLOC_CELLS 0, uart0_addr := 0x9000000\<rparr>"

lemma sample_booted:
  obtains s where "boot Dev sample_image sample_env sample_ue 1 sample_power_on = Some (Inr s)"
    "stack_ok sample_ue s" "early_heap_pa (lds sample_ue) (PAGE_ALLOC s)" "cntkctl s = 0"
proof -
  have img: "image_ok sample_image sample_env (lds sample_ue)" using sample_image_ok by (simp add: sample_ue_def)
  have s: "PAGE_ALLOC sample_power_on = page_alloc_new PAGE_ALLOC_CELLS 0" "uart0_addr sample_power_on = 0x9000000"
    "length (gpr (regs sample_power_on)) = 30" "cntkctl sample_power_on = 0"
    by (simp_all add: sample_power_on_def sample_program_state_def sys.defs sample_sys_def sample_ctx_def)
  have m: "div_ceil (length (INIT_BIN sample_ue)) 4096 + th_size (Thread sample_ue) div 4096 +
     3 * (div_ceil (length (INIT_BIN sample_ue)) 4096 + 4) < 256" using sample_program(4) by linarith
  have "th_page_table (Thread sample_ue) + 4096 \<le> th_stack (Thread sample_ue)" by (simp add: sample_ue_def)
  then show thesis
    using booted_program [OF img s(1-3) sample_start(1,2) sample_program(2,3) _ m, of Dev] s(4) that by auto
qed

theorem tree_memory_reaches_allocator_witness:
  "\<exists>s s'. boot Dev sample_image sample_env sample_ue 1 sample_power_on = Some (Inr s) \<and>
    find_mem_nodes (kernel_os Dev sample_ue (stack_value sample_ue) (\<lambda>str. [str])) sample_tree s = Some (Inr (Val (Inr ()), s')) \<and>
    (\<forall>n sl s2. kalloc Dev n s' = Inr (sl, s2) \<longrightarrow> (\<forall>x \<in> {buf sl..<buf sl + len sl}. 0xffffff0040000000 \<le> x \<and> x < 0xffffff0048000000))"
proof -
  obtain s where s: "boot Dev sample_image sample_env sample_ue 1 sample_power_on = Some (Inr s)"
    "stack_ok sample_ue s" "early_heap_pa (lds sample_ue) (PAGE_ALLOC s)" by (rule sample_booted)
  let ?node = "sample_node ''memory@40000000'' ''reg'' [0x40000000, 0x8000000]"
  have tree: "dt_nodes sample_tree = [Inr (sample_node ''memory@0'' ''reg'' [0, 0x1000])] @ Inr ?node # []"
    "\<forall>n \<in> set (dt_nodes sample_tree). \<not> isl n \<and> node_ok (projr n)"
    by (simp_all add: sample_tree_def node_ok_def prop_ok_def sample_node_def)
  have node: "is_memory ?node" "reg_of ?node = Some (0x40000000, 0x8000000)"
    by (simp_all add: is_memory_def reg_of_def sample_node_def)
  have ram: "layout_ok (lds sample_ue)" "ram_ok (lds sample_ue) (unat (0x40000000 :: u64)) (unat (0x8000000 :: u64))"
    using virt_layout_ok by (simp_all add: sample_ue_def)
  have "pieces_ok (\<lambda>str. [str])" by (simp add: pieces_ok_def)
  from tree_memory_reaches_allocator [OF stack.user_memory_axioms sample_user_ok(6) this s(2) tree node _ ram s(3), of Dev] obtain s' where
    "find_mem_nodes (kernel_os Dev sample_ue (stack_value sample_ue) (\<lambda>str. [str])) sample_tree s = Some (Inr (Val (Inr ()), s'))"
    "\<forall>n sl s2. kalloc Dev n s' = Inr (sl, s2) \<longrightarrow> (\<forall>x \<in> {buf sl..<buf sl + len sl}. virt 0x40000000 \<le> x \<and> x < virt 0x40000000 + 0x8000000)"
    by auto
  then show ?thesis using s(1) by (intro exI [of _ s] exI [of _ s']) (auto simp: virt_def)
qed

theorem devices_start_clock_witness:
  "\<exists>s s' s''. boot Dev sample_image sample_env sample_ue 1 sample_power_on = Some (Inr s) \<and>
    find_and_init (kernel_os Dev sample_ue (stack_value sample_ue) (\<lambda>str. [str])) sample_tree s =
      Some (Inr (Val (Inr \<lparr>gt_gicd_base = 0x8000000, gt_gicc_base = 0x8010000, gt_timer_ppi_interrupt = 30\<rparr>), s')) \<and>
    current_time_ms Dev (kernel_os Dev sample_ue (stack_value sample_ue) (\<lambda>str. [str])) s' =
      Some (Inr (Val (of_nat (clock_ms (board sample_ue) (time_reads s))), s''))"
proof -
  obtain s where s: "boot Dev sample_image sample_env sample_ue 1 sample_power_on = Some (Inr s)"
    "stack_ok sample_ue s" "cntkctl s = 0" by (rule sample_booted)
  have tree: "compatible_nodes sample_tree ''arm,cortex-a15-gic'' = [Inr (sample_node ''intc'' ''reg'' [0x8000000, 0x10000, 0x8010000])]"
    "\<forall>p \<in> set (node_props (sample_node ''intc'' ''reg'' [0x8000000, 0x10000, 0x8010000])). \<not> isl p \<and> intc_ok (projr p)"
    "compatible_nodes sample_tree ''arm,armv8-timer'' = [Inr (sample_node ''timer'' ''interrupts'' [])]"
    "\<forall>p \<in> set (node_props (sample_node ''timer'' ''interrupts'' [])). \<not> isl p \<and> timer_ok (projr p)"
    "intc_bases (node_props (sample_node ''intc'' ''reg'' [0x8000000, 0x10000, 0x8010000])) (0, 0) = (0x8000000, 0x8010000)"
    by (simp_all add: sample_tree_def intc_ok_def timer_ok_def sample_node_def Let_def)
  have "pieces_ok (\<lambda>str. [str])" "clock_ok (board sample_ue)" by (simp_all add: pieces_ok_def sample_ue_def sample_clock)
  from devices_start_clock [OF stack.user_memory_axioms sample_user_ok(6) this(1) s(2) tree _ _ this(2) s(3) refl, of Dev]
  obtain s' ms s'' where s': "find_and_init (kernel_os Dev sample_ue (stack_value sample_ue) (\<lambda>str. [str])) sample_tree s =
      Some (Inr (Val (Inr \<lparr>gt_gicd_base = 0x8000000, gt_gicc_base = 0x8010000, gt_timer_ppi_interrupt = 30\<rparr>), s'))"
    "current_time_ms Dev (kernel_os Dev sample_ue (stack_value sample_ue) (\<lambda>str. [str])) s' = Some (Inr (Val ms, s''))"
    "unat ms = clock_ms (board sample_ue) (time_reads s)" by auto
  have "ms = of_nat (clock_ms (board sample_ue) (time_reads s))" unfolding s'(3) [symmetric] by simp
  with s s' show ?thesis by blast
qed

section \<open>The device tree in the program\<close>

text \<open>
  The program and its address space, and a physical region the kernel's allocator never hands out (with the
  early heap, the page tables are not there either).
\<close>

definition prog_space :: "user_env \<Rightarrow> usize \<Rightarrow> user \<Rightarrow> bool" where
  "prog_space ue root s \<longleftrightarrow> length (gpr (regs s)) = 30 \<and> root = INIT_THREAD s + th_page_table (Thread ue) \<and> as_ok s root \<and>
     out_addr (ttbr0 s) = from_virt root"

definition reserved :: "user \<Rightarrow> PhyAddr \<Rightarrow> usize \<Rightarrow> bool" where
  "reserved s p n \<longleftrightarrow> (\<forall>i < n. \<not> in_window (PAGE_ALLOC s) (virt (p + i) - virt (p + i) mod 4096) 1)"

lemma reserved_kept:
  fixes s s' :: user
  assumes r: "remaps s s' root g" and p: "reserved s p n"
  shows "reserved s' p n" and "i < n \<Longrightarrow> mem s' (virt (p + i)) = mem s (virt (p + i))"
proof -
  have win: "in_window (PAGE_ALLOC s') = in_window (PAGE_ALLOC s)"
    using r growsD(7) [of s "s'\<lparr>tlb := tlb s\<rparr>" root] by (simp add: remaps_def)
  then show "reserved s' p n" using p by (simp add: reserved_def)
  have ok: "pa_inv (PAGE_ALLOC s')" "tree (mem s') root (taken (PAGE_ALLOC s'))" using remaps_ok [OF r] by (simp_all add: pt_ok_def)
  assume "i < n"
  then have "\<not> is_table_byte (mem s') root (virt (p + i))"
    using table_byte_page(2) [OF ok(2)] taken_in_window [OF ok(1)] p unfolding win reserved_def by blast
  then show "mem s' (virt (p + i)) = mem s (virt (p + i))" by (rule remaps_frame(1) [OF r])
qed

lemma reserved_regs [simp]: "reserved (s\<lparr>regs := e\<rparr>) p n = reserved s p n"
  by (simp add: reserved_def)

lemma user_regs [simp]: "user_walk (s\<lparr>regs := e\<rparr>) u = user_walk s u" "user_load (s\<lparr>regs := e\<rparr>) u = user_load s u"
  by (auto simp: user_load_def user_walk_def mmu_walk_def split: option.splits prod.splits)

lemma remaps_space:
  fixes s s' :: user
  assumes "prog_space ue root s" "remaps s s' root g" "as_ok s' root" "length (gpr e) = 30"
  shows "prog_space ue root (s'\<lparr>regs := e\<rparr>)"
  using assms remaps_regs [OF assms(2)] by (simp add: prog_space_def as_ok_def pt_ok_def)

lemma load_slice_ok:
  assumes "\<And>i. i < n \<Longrightarrow> user_load s (v + i) = Inr (f i)"
  shows "load_slice (kernel_os b ue addr pieces) v n s = Some (Inr (Val (map f [0..<n]), s))"
  using assms
proof (induction n)
  case (Suc n)
  then show ?case by (simp add: ubind_def prog_simps env_step_def kernel_os_def uret_def)
qed (simp add: uret_def)

text \<open>Mapping a reserved region, and unmapping a range, as the kernel carries them out.\<close>

lemma phy_map_on_kernel:
  fixes s :: user
  assumes c: "crates_ok (crate ue)" and s: "prog_space ue root s" and n: "n mod 4096 = 0"
    and p: "p mod 4096 = 0" "p + n \<le> 2 ^ 48" "reserved s p N" "n \<le> N"
    and hole: "find_hole (mem s) root 0x50000000 n = Inr (Some v)" "v mod 2 ^ 30 + n \<le> 2 ^ 30"
    and mem: "3 * (n div 4096) \<le> card (free_pages (PAGE_ALLOC s))"
  shows "\<exists>s'. phy_map (kernel_os b ue addr pieces) p n 0 s = Some (Inr (Val (Inr v), s')) \<and> prog_space ue root s' \<and> reserved s' p N \<and>
    v mod 4096 = 0 \<and> v + n \<le> 2 ^ 39 \<and> (\<forall>i < N. mem s' (virt (p + i)) = mem s (virt (p + i))) \<and>
    (\<forall>i < n. user_walk s (v + i) = None \<and> user_load s' (v + i) = Inr (mem s (virt (p + i)))) \<and>
    (\<forall>u < 2 ^ 39. u < v \<or> v + n \<le> u \<longrightarrow> user_walk s' u = user_walk s u)"
proof -
  have sp: "as_ok s root" "out_addr (ttbr0 s) = from_virt root" "root = INIT_THREAD s + th_page_table (Thread ue)" "length (gpr (regs s)) = 30"
    using s unfolding prog_space_def by blast+
  obtain s1 g where s1: "vmap b root p n (phymap_attrs (crate ue) 0) s = Inr (v, s1)" "as_ok s1 root" "v + n \<le> 2 ^ 39" "remaps s s1 root g"
    "\<And>i. i < n \<Longrightarrow> user_walk s (v + i) = None"
    and walk: "\<And>i. i < n \<Longrightarrow> \<exists>e. user_walk s1 (v + i) = Some (p + i, e) \<and> bit e 6 \<and> (bit e 7 \<longleftrightarrow> \<not> bit (0 :: u64) 0) \<and> (bit e 2 \<longleftrightarrow> bit (0 :: u64) 1)"
    and rest: "\<And>u. u < 2 ^ 39 \<Longrightarrow> u < v \<or> v + n \<le> u \<Longrightarrow> user_walk s1 u = user_walk s u"
    by (rule vmap_user [OF sp(1,2) n p(1,2) hole mem attrs_eq(1) [OF c]]) blast
  define e where "e = set_regs [(0, of_nat p), (1, of_nat n), (2, 0), (8, 2)] (regs s)"
  have e: "gpr e ! 0 = of_nat p" "gpr e ! 1 = of_nat n" "gpr e ! 2 = 0" "gpr e ! 8 = 2" "length (gpr e) = 30"
    using sp(4) by (simp_all add: e_def set_regs_def)
  have args: "unat (gpr e ! 0) = p" "unat (gpr e ! 1) = n" using e p(2) by (simp_all add: unat_of_nat_small)
  have "handle_syscall b ue e s = Some (sys_phymap b ue e s)" using syscall_dispatch(2) [OF c, of e PhyMap] e(4) by simp
  then have h: "handle_syscall b ue e s = Some (Inr (set_x0 (of_nat v) e, s1))"
    using s1(1) unfolding sys_phymap_def Let_def args e(3) by (simp add: sp(3))
  let ?s' = "s1\<lparr>regs := set_x0 (of_nat v) e\<rparr>"
  have x0: "gpr (set_x0 (of_nat v) e) ! 0 = of_nat v" "length (gpr (set_x0 (of_nat v) e)) = 30" using e(5) by (simp_all add: set_x0_def)
  have "kernel_svc b ue [(0, of_nat p), (1, of_nat n), (2, 0), (8, 2)] s = Some (Inr (of_nat v, ?s'))"
    unfolding kernel_svc_def e_def [symmetric] h by (simp add: x0)
  moreover have "to_result (crate ue) (of_nat v) = Inr (of_nat v)" "unat (of_nat v :: u64) = v"
    using to_result_small [of v] s1(3) hole unat_of_nat_small [of v] find_hole_free [OF hole(1)] by auto
  ultimately have run: "phy_map (kernel_os b ue addr pieces) p n 0 s = Some (Inr (Val (Inr v), ?s'))"
    by (simp add: phy_map_def prog_simps kernel_os_def uret_def)
  have v: "v mod 4096 = 0" using find_hole_free [OF hole(1)] by auto
  have load: "user_load ?s' (v + i) = Inr (mem s (virt (p + i)))" if "i < n" for i
    using walk [OF that] reserved_kept(2) [OF s1(4) p(3), of i] p(4) that by (auto simp: user_load_def)
  show ?thesis
    by (rule exI [of _ ?s']) (use run remaps_space [OF s s1(4,2) x0(2)] reserved_kept [OF s1(4) p(3)] s1(3,5) v load rest in simp)
qed

lemma mem_unmap_on_kernel:
  fixes s :: user
  assumes c: "crates_ok (crate ue)" and s: "prog_space ue root s" and v: "v mod 4096 = 0" "v + n \<le> 2 ^ 39" and n: "n mod 4096 = 0"
    and p: "reserved s p k"
  shows "\<exists>s'. mem_unmap (kernel_os b ue addr pieces) v n s = Some (Inr (Val (Inr ()), s')) \<and> prog_space ue root s' \<and> reserved s' p k \<and>
    (\<forall>i < k. mem s' (virt (p + i)) = mem s (virt (p + i))) \<and>
    (\<forall>u < 2 ^ 39. user_walk s' u = (if v \<le> u \<and> u < v + n then None else user_walk s u))"
proof -
  have sp: "as_ok s root" "out_addr (ttbr0 s) = from_virt root" "root = INIT_THREAD s + th_page_table (Thread ue)" "length (gpr (regs s)) = 30"
    using s unfolding prog_space_def by blast+
  obtain s1 where s1: "vunmap b root v n s = Inr s1" "as_ok s1 root"
    and r: "remaps s s1 root (\<lambda>u. if v \<le> u \<and> u < v + n then 0 else leaf (mem s) root u)"
    using vunmap_ok [OF sp(1) v, of b] pages_of [OF n] by auto
  define e where "e = set_regs [(0, of_nat v), (1, of_nat n), (8, 4)] (regs s)"
  have e: "gpr e ! 0 = of_nat v" "gpr e ! 1 = of_nat n" "gpr e ! 8 = 4" "length (gpr e) = 30"
    using sp(4) by (simp_all add: e_def set_regs_def)
  have args: "unat (gpr e ! 0) = v" "unat (gpr e ! 1) = n" using e v(2) by (simp_all add: unat_of_nat_small)
  have "handle_syscall b ue e s = Some (sys_memunmap b ue e s)" using syscall_dispatch(4) [OF c, of e MemUnmap] e(3) by simp
  then have h: "handle_syscall b ue e s = Some (Inr (set_x0 0 e, s1))"
    using s1(1) unfolding sys_memunmap_def Let_def args by (simp add: sp(3))
  let ?s' = "s1\<lparr>regs := set_x0 0 e\<rparr>"
  have x0: "gpr (set_x0 0 e) ! 0 = 0" "length (gpr (set_x0 0 e)) = 30" using e(4) by (simp_all add: set_x0_def)
  have svc: "kernel_svc b ue [(0, of_nat v), (1, of_nat n), (8, 4)] s = Some (Inr (0, ?s'))"
    unfolding kernel_svc_def e_def [symmetric] h by (simp add: x0)
  have "to_result (crate ue) 0 = Inr 0" using to_result_small [of 0] by simp
  with svc have run: "mem_unmap (kernel_os b ue addr pieces) v n s = Some (Inr (Val (Inr ()), ?s'))"
    by (simp add: mem_unmap_def prog_simps kernel_os_def uret_def)
  have walk: "user_walk ?s' u = (if v \<le> u \<and> u < v + n then None else user_walk s u)" if "u < 2 ^ 39" for u
    using remaps_translate [OF sp(1) s1(2) r that, of "\<lambda>_. None"] that sp(2) remaps_regs(1) [OF r] by (simp add: user_walk_translate)
  show ?thesis
    by (rule exI [of _ ?s']) (use run remaps_space [OF s r s1(2) x0(2)] reserved_kept [OF r p] walk in simp)
qed

lemma phy_map_part_of_page:
  fixes s :: user
  assumes c: "crates_ok (crate ue)" and s: "prog_space ue root s" and n: "n mod 4096 \<noteq> 0" "n < 2 ^ 64"
  shows "phy_map (kernel_os b ue addr pieces) p n 0 s = Some (Inl (AssertFailed ''size_bytes % PAGE_SIZE == 0''))"
proof -
  define e where "e = set_regs [(0, of_nat p), (1, of_nat n), (2, 0), (8, 2)] (regs s)"
  have e: "gpr e ! 1 = of_nat n" "gpr e ! 8 = 2" using s by (simp_all add: e_def set_regs_def prog_space_def)
  have "unat (gpr e ! 1) = n" using e n(2) by (simp add: unat_of_nat_small)
  then have "sys_phymap b ue e s = Inl (AssertFailed ''size_bytes % PAGE_SIZE == 0'')"
    using n(1) by (simp add: sys_phymap_def Let_def vmap_def PAGE_SIZE_def)
  then have "handle_syscall b ue e s = Some (Inl (AssertFailed ''size_bytes % PAGE_SIZE == 0''))"
    using syscall_dispatch(2) [OF c, of e PhyMap, where b = b and s = s] e(2) by simp
  then have "kernel_svc b ue [(0, of_nat p), (1, of_nat n), (2, 0), (8, 2)] s = Some (Inl (AssertFailed ''size_bytes % PAGE_SIZE == 0''))"
    unfolding kernel_svc_def e_def [symmetric] by simp
  then show ?thesis by (simp add: phy_map_def prog_simps kernel_os_def)
qed


text \<open>A tree of 2 KiB, and one of 4660 bytes, for a program with an empty address space.\<close>

definition sample_fdt :: "usize \<Rightarrow> string fdt" where
  "sample_fdt n = \<lparr>MIN_HEADER_SIZE = 40, read_totalsize = (\<lambda>_. Inr n), DevTree_new = (\<lambda>a bs. Inr (sample_tree\<lparr>dt_ptr := a, dt_buf := bs\<rparr>)),
     error_debug = (\<lambda>e. e)\<rparr>"

definition sample_prog :: user where
  "sample_prog = sys.extend sample_user \<lparr>regs = sample_ctx 0 0 0 0\<rparr>"

lemma sample_prog_ok:
  "prog_space sample_ue empty_root sample_prog" "find_hole (mem sample_prog) empty_root 0x50000000 0x1000 = Inr (Some 0x50000000)"
  "3 \<le> card (free_pages (PAGE_ALLOC sample_prog))" "reserved sample_prog 0x40000000 0x1000"
proof -
  have eq: "mem sample_prog = mem empty_space" "PAGE_ALLOC sample_prog = PAGE_ALLOC empty_space" "tlb sample_prog = tlb sample_user"
    "INIT_THREAD sample_prog = INIT_THREAD sample_user" "ttbr0 sample_prog = ttbr0 sample_user" "mem sample_user = mem empty_space"
    "PAGE_ALLOC sample_user = PAGE_ALLOC empty_space"
    by (simp_all add: sample_prog_def sys.defs sample_user_def)
  have "as_ok sample_prog empty_root" using sample_user_ok(2) by (simp add: as_ok_def pt_ok_def eq)
  then show "prog_space sample_ue empty_root sample_prog"
    using sample_user_ok(1,3) by (simp add: prog_space_def eq) (simp add: sample_prog_def sys.defs sample_ctx_def)
  show "find_hole (mem sample_prog) empty_root 0x50000000 0x1000 = Inr (Some 0x50000000)" by (simp add: eq empty_space_holes)
  show "3 \<le> card (free_pages (PAGE_ALLOC sample_prog))" using sample_user_ok(5) by (simp add: eq)
  have "virt (0x40000000 + i) - virt (0x40000000 + i) mod 4096 = 0xffffff0040000000" if "i < 0x1000" for i
  proof -
    have "virt (0x40000000 + i) = 0xffffff0040000000 + i" using that by (subst virt_add) simp_all
    moreover have "(0xffffff0040000000 + i) mod 4096 = i" using that mod_add_left_eq [of "0xffffff0040000000" 4096 i] by simp
    ultimately show ?thesis by simp
  qed
  then show "reserved sample_prog 0x40000000 0x1000" by (simp add: reserved_def eq in_window_def empty_space_heap)
qed


end
