(* ===== verification/Bring_Up.thy ===== *)
theory Bring_Up
  imports Init_Program
begin

text \<open>
  The system as a whole: from power-on through the boot code and the kernel into the init program, which
  hands memory and devices over to the kernel and then runs its main loop.
\<close>

section \<open>The program's memory while the early heap is in use\<close>

text \<open>All page tables are in the early heap.\<close>

definition heap_tables :: "user_env \<Rightarrow> user \<Rightarrow> bool" where
  "heap_tables ue s \<longleftrightarrow> (\<forall>x. is_table_byte (mem s) (INIT_THREAD s + th_page_table (Thread ue)) x \<longrightarrow>
     EARLY_HEAP (lds ue) \<le> x \<and> x < EARLY_HEAP (lds ue) + EARLY_HEAP_SIZE)"

definition early_ok :: "user_env \<Rightarrow> user \<Rightarrow> bool" where
  "early_ok ue s \<longleftrightarrow> stack_ok ue s \<and> heap_tables ue s"

interpretation early: user_memory "stack_value ue" "early_ok ue" for ue
proof unfold_locales
  fix s :: user and bs a s'
  assume s: "early_ok ue s" and a: "stack_value ue bs s = (a, s')"
  then have ok: "stack_ok ue s" by (simp add: early_ok_def)
  show fr: "s' = s\<lparr>mem := mem s'\<rparr>" by (rule stack.addr_frame [OF ok a])
  assume n: "length bs \<le> 256"
  have "INIT_THREAD s' = INIT_THREAD s" using arg_cong [OF fr, of INIT_THREAD] by simp
  with s stack_ok_value(3) [OF ok n a] have "heap_tables ue s'" by (simp add: early_ok_def heap_tables_def)
  with stack.addr_ok [OF ok n a] show "early_ok ue s' \<and> a + length bs \<le> 2 ^ 64 \<and> (\<forall>i < length bs. user_load s' (a + i) = Inr (bs ! i))"
    by (simp add: early_ok_def)
next
  fix s :: user and e :: ExceptionContext and d
  assume s: "early_ok ue s"
  then have ok: "stack_ok ue s" by (simp add: early_ok_def)
  then show "length (gpr (regs s)) = 30" by (rule stack.ok_regs)
  assume "length (gpr e) = 30"
  from stack.ok_update [OF ok this] s show "early_ok ue (s\<lparr>dev_writes := d, regs := e\<rparr>)" by (simp add: early_ok_def heap_tables_def)
qed

lemma stack_ok_cong:
  assumes "mem s' = mem s" "PAGE_ALLOC s' = PAGE_ALLOC s" "tlb s' = tlb s" "ttbr0 s' = ttbr0 s" "INIT_THREAD s' = INIT_THREAD s"
    "length (gpr (regs s')) = 30" "stack_ok ue s"
  shows "stack_ok ue s'"
  using assms by (simp add: stack_ok_def Let_def as_ok_def pt_ok_def)

text \<open>The hand-over of memory keeps the tables, so the program goes on as before.\<close>

lemma handover_keeps_stack:
  assumes s: "early_ok ue s" and ly: "layout_ok (lds ue)" "ram_ok (lds ue) p l" "early_heap_pa (lds ue) (PAGE_ALLOC s)" "p + 2 ^ 28 \<le> 2 ^ 39"
    and node: "add_memory_node b (lds ue) p l s = Inr ((), s')" and e: "length (gpr e) = 30"
  shows "stack_ok ue (s'\<lparr>regs := e\<rparr>)"
proof -
  let ?root = "INIT_THREAD s + th_page_table (Thread ue)"
  from add_memory_node_taken [OF ly(1-3), of b] node obtain pa where pa: "s' = s\<lparr>PAGE_ALLOC := pa\<rparr>" "pa_inv pa"
    "ram_base pa = virt p" "pa_capacity pa = PAGE_ALLOC_PAGES"
    and tk: "taken (PAGE_ALLOC s) \<inter> {EARLY_HEAP (lds ue)..<EARLY_HEAP (lds ue) + EARLY_HEAP_SIZE} \<subseteq> taken pa" by auto
  have lin: "heap_linear pa" using ly(4) by (simp add: heap_linear_def pa virt_add heap_consts)
  have tr: "tree (mem s) ?root (taken (PAGE_ALLOC s))" using s by (simp add: early_ok_def stack_ok_def Let_def as_ok_def pt_ok_def)
  have "t \<in> taken pa" if "wf_path q" "table_at (mem s) q ?root = Some t" for q t
  proof -
    have "is_table_byte (mem s) ?root t" using that by (auto simp: is_table_byte_def)
    with s have "t \<in> {EARLY_HEAP (lds ue)..<EARLY_HEAP (lds ue) + EARLY_HEAP_SIZE}" by (simp add: early_ok_def heap_tables_def)
    with treeD(1) [OF tr that] tk show ?thesis by blast
  qed
  with tr have "tree (mem s) ?root (taken pa)" unfolding tree_def by blast
  with pa(2) lin s e show ?thesis by (simp add: pa(1) early_ok_def stack_ok_def Let_def as_ok_def pt_ok_def)
qed

section \<open>The main loop\<close>

text \<open>The program as the main loop needs it: its stack, the counter it may read, and the timer.\<close>

definition loop_ok :: "user_env \<Rightarrow> user \<Rightarrow> bool" where
  "loop_ok ue s \<longleftrightarrow> stack_ok ue s \<and> cntkctl s = 1 \<and> GICC_BASE s \<noteq> 0"

text \<open>The clock, one second after its reading \<open>j\<close>: representable, and reached at some later reading.\<close>

definition clock_lasts :: "hw \<Rightarrow> nat \<Rightarrow> bool" where
  "clock_lasts h j \<longleftrightarrow> clock_ms h j + 1000 < 2 ^ 64 \<and> unat (cntfrq h) div 1000 * (clock_ms h j + 1000) < 2 ^ 64 \<and>
     (\<exists>n > j. clock_ms h j + 1000 \<le> clock_ms h n)"

lemma sleep_on_kernel:
  fixes s :: user
  assumes c: "crates_ok (crate ue)" and clk: "clock_ok (board ue)" "clock_lasts (board ue) (time_reads s)" and s: "loop_ok ue s"
  obtains s' k where "sleep_sec (kernel_os b ue addr pieces) 1 s = Some (Inr (Val (), s'))" "loop_ok ue s'" "PAGE_ALLOC s' = PAGE_ALLOC s"
    "time_reads s' = Suc k" "clock_ms (board ue) (time_reads s) + 1000 \<le> clock_ms (board ue) k"
    "dev_writes s' = dev_writes s @ map (W8 (uart0_addr s)) (as_bytes ('' user: Sleeping for 1 seconds'' @ [CHR 0x0A]))"
proof -
  define e where "e = set_regs [(0, 1), (8, 7)] (regs s)"
  have "length (gpr (regs s)) = 30" using s by (simp add: loop_ok_def stack_ok_def)
  then have e: "gpr e ! 0 = 1" "gpr e ! 8 = 7" "length (gpr e) = 30" by (simp_all add: e_def set_regs_def)
  then have ne: "gpr e \<noteq> []" "unat (gpr e ! 0) = 1" by auto
  obtain n where n: "time_reads s < n" "clock_ms (board ue) (time_reads s) + 1000 \<le> clock_ms (board ue) n"
    using clk(2) by (auto simp: clock_lasts_def)
  have gic: "GICC_BASE s \<noteq> 0" using s by (simp add: loop_ok_def)
  obtain t k where t: "handle_syscall b ue e s = Some (Inr (set_x0 0 e, t))" "time_reads t = Suc k"
    "clock_ms (board ue) (time_reads s) + 1000 \<le> clock_ms (board ue) k"
    and fr: "t\<lparr>cntp_tval := cntp_tval s, cntp_ctl := cntp_ctl s, time_reads := time_reads s\<rparr> =
      console_println ('' user: Sleeping for '' @ radix 10 1 @ '' seconds'') s"
    using sleep_sec_run [OF c clk(1) gic e(2) ne(1), of n b] n clk(2) unfolding ne(2) clock_lasts_def by auto
  have x0: "gpr (set_x0 0 e) ! 0 = 0" "length (gpr (set_x0 0 e)) = 30" using e(3) by (simp_all add: set_x0_def)
  let ?s' = "t\<lparr>regs := set_x0 0 e\<rparr>"
  have "kernel_svc b ue [(0, 1), (8, 7)] s = Some (Inr (0, ?s'))" unfolding kernel_svc_def e_def [symmetric] t(1) by (simp add: x0)
  then have run: "sleep_sec (kernel_os b ue addr pieces) 1 s = Some (Inr (Val (), ?s'))"
    by (simp add: sleep_sec_def prog_simps kernel_os_def uret_def)
  have same: "mem t = mem s" "PAGE_ALLOC t = PAGE_ALLOC s" "tlb t = tlb s" "ttbr0 t = ttbr0 s" "INIT_THREAD t = INIT_THREAD s"
    "cntkctl t = cntkctl s" "GICC_BASE t = GICC_BASE s"
    using arg_cong [OF fr, of mem] arg_cong [OF fr, of PAGE_ALLOC] arg_cong [OF fr, of tlb] arg_cong [OF fr, of ttbr0]
      arg_cong [OF fr, of INIT_THREAD] arg_cong [OF fr, of cntkctl] arg_cong [OF fr, of GICC_BASE] by (simp_all add: println_soc)
  have "radix 10 1 = ''1''" by code_simp
  then have dw: "dev_writes t = dev_writes s @ map (W8 (uart0_addr s)) (as_bytes ('' user: Sleeping for 1 seconds'' @ [CHR 0x0A]))"
    using arg_cong [OF fr, of dev_writes] by (simp add: println_soc)
  have "stack_ok ue ?s'" by (rule stack_ok_cong [of _ s]) (use same x0(2) s in \<open>simp_all add: loop_ok_def\<close>)
  with s same have "loop_ok ue ?s'" by (simp add: loop_ok_def)
  with run same(2) t(2,3) dw show thesis by (intro that [of ?s' k]) simp_all
qed

lemma main_step_on_kernel:
  fixes s :: user
  assumes c: "crates_ok (crate ue)" and p: "pieces_ok pieces" and s: "loop_ok ue s"
    and clk: "clock_ok (board ue)" "clock_lasts (board ue) (Suc (time_reads s))" and os: "os = kernel_os b ue (stack_value ue) pieces"
  obtains s' k where "main_step b os s = Some (Inr (Val (), s'))" "loop_ok ue s'" "PAGE_ALLOC s' = PAGE_ALLOC s"
    "time_reads s' = Suc k" "clock_ms (board ue) (Suc (time_reads s)) + 1000 \<le> clock_ms (board ue) k"
    "dev_writes s' = dev_writes s @ map (W8 (uart0_addr s)) (as_bytes (''Current time: '' @ radix 10 (clock_ms (board ue) (time_reads s)) @ '' ms'' @
       [CHR 0x0A] @ '' user: Sleeping for 1 seconds'' @ [CHR 0x0A]))"
proof -
  let ?t = "s\<lparr>time_reads := Suc (time_reads s)\<rparr>"
  obtain ms where ms: "current_time_ms b os s = Some (Inr (Val ms, ?t))" "unat ms = clock_ms (board ue) (time_reads s)"
    using time_on_kernel [OF clk(1), of s b "stack_value ue" pieces] s time_ms(1) [OF clk(1), of b s] by (auto simp: os loop_ok_def)
  let ?str = "''Current time: '' @ radix 10 (unat ms) @ '' ms''"
  have "stack_ok ue ?t" by (rule stack_ok_cong [of _ s]) (use s in \<open>simp_all add: loop_ok_def stack_ok_def\<close>)
  moreover have "length (?str @ [CHR 0x0A]) \<le> 256" using radix_u64(2) [of ms] by simp
  ultimately obtain t2 where t2: "user_println os ?str ?t = Some (Inr (Val (), t2))" "stack_ok ue t2" "prints ?t (?str @ [CHR 0x0A]) t2"
    using stack.print_prints [OF c p] unfolding os user_println_def by blast
  note same = prints_same [OF t2(3)]
  have "loop_ok ue t2" "clock_lasts (board ue) (time_reads t2)" using t2(2) same s clk(2) by (simp_all add: loop_ok_def)
  then obtain s' k where s': "sleep_sec os 1 t2 = Some (Inr (Val (), s'))" "loop_ok ue s'" "PAGE_ALLOC s' = PAGE_ALLOC t2"
    "time_reads s' = Suc k" "clock_ms (board ue) (time_reads t2) + 1000 \<le> clock_ms (board ue) k"
    "dev_writes s' = dev_writes t2 @ map (W8 (uart0_addr t2)) (as_bytes ('' user: Sleeping for 1 seconds'' @ [CHR 0x0A]))"
    unfolding os by (elim sleep_on_kernel [OF c clk(1)]) blast
  have "main_step b os s = Some (Inr (Val (), s'))" using ms(1) t2(1) s'(1) by (simp add: main_step_def ubind_def)
  with s' same show thesis by (intro that) (simp_all add: ms(2) as_bytes_def)
qed

section \<open>Properties\<close>

text \<open>The memory node of a device tree that counts, and its two devices.\<close>

definition memory_tree :: "'e DevTree \<Rightarrow> u64 \<Rightarrow> u64 \<Rightarrow> bool" where
  "memory_tree dtb a l \<longleftrightarrow> (\<forall>n \<in> set (dt_nodes dtb). \<not> isl n \<and> node_ok (projr n)) \<and>
     (\<exists>pre node post. dt_nodes dtb = pre @ Inr node # post \<and> is_memory node \<and> reg_of node = Some (a, l) \<and>
        (\<forall>n \<in> set post. is_memory (projr n) \<longrightarrow> reg_of (projr n) = None))"

definition device_tree :: "'e DevTree \<Rightarrow> u64 \<Rightarrow> u64 \<Rightarrow> bool" where
  "device_tree dtb gicd gicc \<longleftrightarrow> (\<exists>intc timer. compatible_nodes dtb ''arm,cortex-a15-gic'' = [Inr intc] \<and>
     compatible_nodes dtb ''arm,armv8-timer'' = [Inr timer] \<and> (\<forall>p \<in> set (node_props intc). \<not> isl p \<and> intc_ok (projr p)) \<and>
     (\<forall>p \<in> set (node_props timer). \<not> isl p \<and> timer_ok (projr p)) \<and> intc_bases (node_props intc) (0, 0) = (gicd, gicc))"

lemma setup_on_kernel:
  assumes c: "crates_ok (crate ue)" and p: "pieces_ok pieces" and s: "early_ok ue s" "early_heap_pa (lds ue) (PAGE_ALLOC s)"
    and tree: "memory_tree dtb a l" "device_tree dtb gicd gicc"
    and ram: "layout_ok (lds ue)" "ram_ok (lds ue) (unat a) (unat l)" "unat a + 2 ^ 28 \<le> 2 ^ 39"
    and gic: "unat gicd + 0x51E < 2 ^ 64" "unat gicc + 0x10 < 2 ^ 64" "gicc \<noteq> 0" and os: "os = kernel_os b ue (stack_value ue) pieces"
  shows "\<exists>s1 s2. find_mem_nodes os dtb s = Some (Inr (Val (Inr ()), s1)) \<and>
    find_and_init os dtb s1 = Some (Inr (Val (Inr \<lparr>gt_gicd_base = gicd, gt_gicc_base = gicc, gt_timer_ppi_interrupt = 30\<rparr>), s2)) \<and>
    loop_ok ue s2 \<and> time_reads s2 = time_reads s \<and> (\<forall>n sl s3. \<forall>x \<in> {buf sl..<buf sl + len sl}. kalloc b n s2 = Inr (sl, s3) \<longrightarrow> virt (unat a) \<le> x \<and> x < virt (unat a) + unat l \<and>
       x \<notin> {dtb_start (lds ue)..<dtb_start (lds ue) + 0x10000} \<and> x \<notin> {text_start (lds ue)..<EARLY_HEAP (lds ue)} \<and>
       x \<notin> {EARLY_HEAP (lds ue) + EARLY_HEAP_SIZE..<kernel_end (lds ue)})"
proof -
  obtain pre node post where mem: "dt_nodes dtb = pre @ Inr node # post" "\<forall>n \<in> set (dt_nodes dtb). \<not> isl n \<and> node_ok (projr n)"
    "is_memory node" "reg_of node = Some (a, l)" "\<forall>n \<in> set post. is_memory (projr n) \<longrightarrow> reg_of (projr n) = None"
    using tree(1) by (auto simp: memory_tree_def)
  obtain intc timer where dev: "compatible_nodes dtb ''arm,cortex-a15-gic'' = [Inr intc]" "\<forall>p \<in> set (node_props intc). \<not> isl p \<and> intc_ok (projr p)"
    "compatible_nodes dtb ''arm,armv8-timer'' = [Inr timer]" "\<forall>p \<in> set (node_props timer). \<not> isl p \<and> timer_ok (projr p)"
    "intc_bases (node_props intc) (0, 0) = (gicd, gicc)" using tree(2) by (auto simp: device_tree_def)
  have "unat a < 2 ^ 63" using ram(3) by simp
  then obtain t2 t3 e str where run1: "find_mem_nodes os dtb s = Some (Inr (Val (Inr ()), t3\<lparr>regs := e\<rparr>))"
    and t: "length (gpr e) = 30" "early_ok ue t2" "early_heap_pa (lds ue) (PAGE_ALLOC t2)"
      "add_memory_node b (lds ue) (unat a) (unat l) t2 = Inr ((), t3)" "prints s str t2"
    unfolding os by (rule find_mem_nodes_run [OF early.user_memory_axioms c p s(1) mem ram(1,2) s(2), of b]) blast+
  let ?s1 = "t3\<lparr>regs := e\<rparr>"
  have st1: "stack_ok ue ?s1" by (rule handover_keeps_stack [OF t(2) ram(1,2) t(3) ram(3) t(4,1)])
  have tr: "time_reads t3 = time_reads s"
    using add_memory_node_taken [OF ram(1,2) t(3), of b] t(4) prints_same(2) [OF t(5)] by auto
  obtain u str m d e2 where run2: "find_and_init os dtb ?s1 = Some (Inr (Val (Inr \<lparr>gt_gicd_base = gicd, gt_gicc_base = gicc, gt_timer_ppi_interrupt = 30\<rparr>),
      u\<lparr>mem := m, cntp_ctl := 3, GICD_BASE := unat gicd, GICC_BASE := unat gicc, cntkctl := 1, dev_writes := d, regs := e2\<rparr>))"
    and u: "prints ?s1 str u" "stack_ok ue (u\<lparr>mem := m\<rparr>)" "length (gpr e2) = 30"
    by (rule find_and_init_run [OF stack.user_memory_axioms c p st1 dev gic(1,2) os])
  let ?s2 = "u\<lparr>mem := m, cntp_ctl := 3, GICD_BASE := unat gicd, GICC_BASE := unat gicc, cntkctl := 1, dev_writes := d, regs := e2\<rparr>"
  have "stack_ok ue ?s2" by (rule stack_ok_cong [OF _ _ _ _ _ _ u(2)]) (use u(3) in simp_all)
  then have ok: "loop_ok ue ?s2" using gic(3) by (auto simp: loop_ok_def unat_eq_0)
  have pa: "PAGE_ALLOC ?s2 = PAGE_ALLOC t3" using prints_same(1) [OF u(1)] by simp
  have al: "virt (unat a) \<le> x \<and> x < virt (unat a) + unat l \<and>
       x \<notin> {dtb_start (lds ue)..<dtb_start (lds ue) + 0x10000} \<and> x \<notin> {text_start (lds ue)..<EARLY_HEAP (lds ue)} \<and>
       x \<notin> {EARLY_HEAP (lds ue) + EARLY_HEAP_SIZE..<kernel_end (lds ue)}"
    if "kalloc b n ?s2 = Inr (sl, s3)" "x \<in> {buf sl..<buf sl + len sl}" for n sl s3 x
    using kalloc_cong [OF that(1) pa] handover_alloc(1-4) [OF ram(1,2) t(3,4) _ that(2)] by blast
  have "time_reads ?s2 = time_reads s" using prints_same(2) [OF u(1)] tr by simp
  with run1 run2 ok show ?thesis
    by (intro exI [of _ ?s1] exI [of _ ?s2] conjI) (assumption | intro allI ballI impI, rule al, assumption, assumption)+
qed


lemma sample_trees: "memory_tree sample_tree 0x40000000 0x8000000" "device_tree sample_tree 0x8000000 0x8010000"
proof -
  let ?node = "sample_node ''memory@40000000'' ''reg'' [0x40000000, 0x8000000]"
  have nodes: "dt_nodes sample_tree = [Inr (sample_node ''memory@0'' ''reg'' [0, 0x1000])] @ Inr ?node # []" by (simp add: sample_tree_def)
  have node: "is_memory ?node" "reg_of ?node = Some (0x40000000, 0x8000000)"
    by (simp_all add: is_memory_def reg_of_def sample_node_def)
  have ok: "\<forall>n \<in> set (dt_nodes sample_tree). \<not> isl n \<and> node_ok (projr n)"
    by (simp add: sample_tree_def node_ok_def prop_ok_def sample_node_def)
  show "memory_tree sample_tree 0x40000000 0x8000000"
    unfolding memory_tree_def by (rule conjI [OF ok], intro exI conjI, rule nodes, rule node, rule node) simp
  show "device_tree sample_tree 0x8000000 0x8010000"
    by (simp add: device_tree_def sample_tree_def intc_ok_def timer_ok_def sample_node_def Let_def)
qed


end
